(* ===== verification/Acc_Prelude.thy ===== *)
theory Acc_Prelude
  imports Main "HOL-Library.Word" "HOL-Library.Monad_Syntax"
begin

text \<open>
  Shared vocabulary of the development: the machine integers of the C++ sources, byte
  strings, the checked array accesses that make an out-of-range access a value, and the
  generic facts about them that the component theories use.
\<close>

unbundle bit_operations_syntax

section \<open>Types\<close>

type_synonym byte = "8 word"
type_synonym u16 = "16 word"
type_synonym u32 = "32 word"
type_synonym u64 = "64 word"
type_synonym bytes = "byte list"

text \<open>A C++ string literal as the bytes it stands for.\<close>

definition lit :: "string \<Rightarrow> bytes" where
  "lit s = map of_char s"

section \<open>Checked array accesses\<close>

text \<open>
  \<open>std::string\<close> and C arrays do not check an index. An access outside the object is
  undefined behaviour, which the models represent by the result \<^const>\<open>None\<close>.
\<close>

definition put :: "'a list \<Rightarrow> nat \<Rightarrow> 'a \<Rightarrow> 'a list option" where
  "put xs i v = (if i < length xs then Some (xs[i := v]) else None)"

definition get :: "'a list \<Rightarrow> nat \<Rightarrow> 'a option" where
  "get xs i = (if i < length xs then Some (xs ! i) else None)"

text \<open>\<open>std::string::resize\<close>: truncate, or extend with the given filler.\<close>

definition resize :: "'a \<Rightarrow> nat \<Rightarrow> 'a list \<Rightarrow> 'a list" where
  "resize d n xs = take n xs @ replicate (n - length xs) d"

section \<open>Sequencing of fallible code\<close>

text \<open>
  \<open>bindE m f\<close> runs \<open>f\<close> on the result of \<open>m\<close> unless \<open>m\<close> failed: an exception (or
  undefined behaviour) in \<open>m\<close> leaves the function, as in the sources.
\<close>

definition bindE :: "'e + 'a \<Rightarrow> ('a \<Rightarrow> 'e + 'b) \<Rightarrow> 'e + 'b" where
  "bindE m f = (case m of Inl e \<Rightarrow> Inl e | Inr x \<Rightarrow> f x)"

lemma bindE_simps [simp]:
  "bindE (Inl e) f = Inl e" "bindE (Inr x) f = f x"
  by (simp_all add: bindE_def)

lemma bindE_eq_Inr_iff: "bindE m f = Inr y \<longleftrightarrow> (\<exists>x. m = Inr x \<and> f x = Inr y)"
  by (cases m) auto

lemma bindE_eq_Inl_iff: "bindE m f = Inl e \<longleftrightarrow> m = Inl e \<or> (\<exists>x. m = Inr x \<and> f x = Inl e)"
  by (cases m) auto

lemma bindE_cong [fundef_cong]:
  "m = m' \<Longrightarrow> (\<And>x. m' = Inr x \<Longrightarrow> f x = f' x) \<Longrightarrow> bindE m f = bindE m' f'"
  by (cases m') auto

section \<open>Facts about the accesses\<close>

lemma length_resize [simp]: "length (resize d n xs) = n"
  by (simp add: resize_def)

lemma get_eq_Some_iff: "get xs i = Some v \<longleftrightarrow> i < length xs \<and> xs ! i = v"
  by (auto simp: get_def)

text \<open>Writing just behind an already written prefix of the buffer.\<close>

lemma put_ends [simp]:
  "put (ys @ z # zs) (length ys) v = Some (ys @ v # zs)"
  "put (ys @ a # z # zs) (Suc (length ys)) v = Some (ys @ a # v # zs)"
  "put (ys @ a # b # z # zs) (Suc (Suc (length ys))) v = Some (ys @ a # b # v # zs)"
  "put (ys @ a # b # c # z # zs) (Suc (Suc (Suc (length ys)))) v = Some (ys @ a # b # c # v # zs)"
  by (auto simp: put_def list_update_append)

lemma length_put: "put xs i v = Some ys \<Longrightarrow> length ys = length xs"
  by (auto simp: put_def split: if_splits)

section \<open>Bits of machine words\<close>

text \<open>
  \<open>word_masks\<close> turns the literal masks of the sources into \<^const>\<open>mask\<close>, whose bits the
  library's \<open>bit_simps\<close> describe; \<open>byte_bitD\<close> bounds the bits of a byte. Together they
  prove equations between shift-and-mask expressions bit by bit.
\<close>

named_theorems word_masks

lemma mask_lits [word_masks]:
  "(0x1::'a::len word) = mask 1" "(0x3::'a word) = mask 2" "(0x7::'a word) = mask 3"
  "(0xf::'a word) = mask 4" "(0x1f::'a word) = mask 5" "(0x3f::'a word) = mask 6"
  "(0x7f::'a word) = mask 7" "(0xff::'a word) = mask 8"
  by (simp_all add: mask_eq_exp_minus_1)

lemma byte_bitD: "bit (a::byte) n \<Longrightarrow> n < 8"
  using bit_imp_le_length [of a n] by simp

lemma byte_bit_ge [simp]: "8 \<le> n \<Longrightarrow> bit (a::byte) n = False"
  using byte_bitD [of a n] by auto

lemma byte_eqI_bits:
  assumes "bit a 0 = bit b 0" "bit a 1 = bit b 1" "bit a 2 = bit b 2" "bit a 3 = bit b 3"
    "bit a 4 = bit b 4" "bit a 5 = bit b 5" "bit a 6 = bit b 6" "bit a 7 = bit b 7"
  shows "a = (b::byte)"
proof (rule bit_word_eqI)
  fix n :: nat
  assume "n < LENGTH(8)"
  then have "n \<in> {0, 1, 2, 3, 4, 5, 6, 7}" by auto
  with assms show "bit a n = bit b n" by auto
qed

lemma byte_eq_iff_bits:
  "(a::byte) = b \<longleftrightarrow>
     bit a 0 = bit b 0 \<and> bit a 1 = bit b 1 \<and> bit a 2 = bit b 2 \<and> bit a 3 = bit b 3 \<and>
     bit a 4 = bit b 4 \<and> bit a 5 = bit b 5 \<and> bit a 6 = bit b 6 \<and> bit a 7 = bit b 7"
  by (rule iffI, simp, rule byte_eqI_bits) simp_all

lemma ucast_byte_up_down [simp]:
  "ucast (ucast (a::byte) :: u32) = a" "ucast (ucast (a::byte) :: u64) = a"
  by (rule bit_word_eqI, simp add: bit_simps)+

lemma unat_byte_less [simp]: "unat (a::byte) < 256"
  using unsigned_less [of a] by simp

text \<open>Upper bounds of the form \<open>2\<^sup>n - 1\<close> as statements about the bits.\<close>

lemma drop_bit_eq_0_iff: "drop_bit n (w::'a::len word) = 0 \<longleftrightarrow> (\<forall>k. bit w k \<longrightarrow> k < n)"
proof
  assume eq: "drop_bit n w = 0"
  show "\<forall>k. bit w k \<longrightarrow> k < n"
  proof (intro allI impI, rule ccontr)
    fix k
    assume "bit w k" "\<not> k < n"
    then have "bit (drop_bit n w) (k - n)" by (simp add: bit_drop_bit_eq)
    with eq show False by simp
  qed
next
  assume "\<forall>k. bit w k \<longrightarrow> k < n"
  then show "drop_bit n w = 0" by (intro bit_eqI) (force simp: bit_drop_bit_eq)
qed

lemma word_le_mask_iff:
  assumes "n \<le> LENGTH('a::len)"
  shows "(w::'a word) \<le> mask n \<longleftrightarrow> (\<forall>k. bit w k \<longrightarrow> k < n)"
proof -
  have "uint (mask n :: 'a word) = mask n"
    using assms by (simp add: uint_mask_eq min_absorb2)
  then have "uint (mask n :: 'a word) = 2 ^ n - 1"
    by (simp only: mask_eq_exp_minus_1 [of n, where ?'a = int])
  then have "w \<le> mask n \<longleftrightarrow> uint w < 2 ^ n"
    by (simp only: word_le_def) linarith
  also have "\<dots> \<longleftrightarrow> int (unat w) < int (2 ^ n)" by simp
  also have "\<dots> \<longleftrightarrow> unat w div 2 ^ n = 0"
    by (simp only: of_nat_less_iff div_eq_0_iff) simp
  also have "\<dots> \<longleftrightarrow> unat (drop_bit n w) = 0"
    unfolding unat_drop_bit_eq by (simp only: drop_bit_eq_div)
  also have "\<dots> \<longleftrightarrow> drop_bit n w = 0"
    by (simp add: unsigned_eq_0_iff)
  finally show ?thesis by (simp add: drop_bit_eq_0_iff)
qed
lemma and_not_mask_eq_0_iff: "(w::'a::len word) AND NOT (mask n) = 0 \<longleftrightarrow> (\<forall>k. bit w k \<longrightarrow> k < n)"
  by (auto simp: bit_eq_iff bit_simps dest: bit_imp_le_length)

text \<open>A statement about every byte, checked value by value.\<close>

lemma all_bytes: "list_all (\<lambda>i. P (of_nat i)) [0..<256] \<Longrightarrow> P (c :: byte)"
proof -
  assume "list_all (\<lambda>i. P (of_nat i)) [0..<256]"
  moreover have "unat c \<in> set [0..<256]" by simp
  ultimately have "P (of_nat (unat c))" unfolding list_all_iff by blast
  then show ?thesis by simp
qed

section \<open>Lossless encodings\<close>

text \<open>
  The contract of the library's encoders (Base64, hexadecimal, URI escaping, UTF-8, the
  variable-length integers): decoding an encoding returns the value, for every value that
  the encoder accepts.
\<close>

locale lossless_codec =
  fixes enc :: "'a \<Rightarrow> 'b"
    and dec :: "'b \<Rightarrow> 'a option"
    and accepts :: "'a \<Rightarrow> bool"
  assumes dec_enc: "accepts x \<Longrightarrow> dec (enc x) = Some x"
begin

lemma enc_inj_on: "inj_on enc {x. accepts x}"
proof (rule inj_onI)
  fix x y
  assume x: "x \<in> {x. accepts x}" and y: "y \<in> {x. accepts x}" and eq: "enc x = enc y"
  then have "Some x = Some y" using dec_enc by (metis mem_Collect_eq)
  then show "x = y" by simp
qed

lemma enc_eq_iff: "accepts x \<Longrightarrow> accepts y \<Longrightarrow> enc x = enc y \<longleftrightarrow> x = y"
  using enc_inj_on by (auto simp: inj_on_eq_iff)

end

lemma unat_of_nat_u32: "m < 2 ^ 32 \<Longrightarrow> unat (of_nat m :: u32) = m"
  by (simp add: unsigned_of_nat take_bit_nat_eq_self)

end
