(* ===== verification/Acc_Base64.thy ===== *)
theory Acc_Base64
  imports Acc_Prelude
begin

text \<open>
  Base64 of \<open>src/accelerator/Base64-inl.h\<close>: the bit-buffer encoder and decoder, with every
  write into the resized output string checked.
\<close>

section \<open>Definitions\<close>

datatype Base64EncodeMode = COMMON | URI

definition kBase64EncTable :: bytes where
  "kBase64EncTable = lit ''ABCDEFGHIJKLMNOPQRSTUVWXYZabcdefghijklmnopqrstuvwxyz0123456789''"

definition encode :: "Base64EncodeMode \<Rightarrow> u32 \<Rightarrow> byte option" where
  "encode mode i =
     (if i = 0x3e then Some (if mode = URI then 0x2d else 0x2b)
      else if i = 0x3f then Some (if mode = URI then 0x5f else 0x2f)
      else get kBase64EncTable (unat i))"

definition kPad :: byte where
  "kPad = 0x3d"

text \<open>Shifting \<open>k\<close> bits into the 32-bit buffer: \<open>(acc << k) | b\<close>.\<close>

definition shift_in :: "nat \<Rightarrow> u32 \<Rightarrow> byte \<Rightarrow> u32" where
  "shift_in k acc b = push_bit k acc OR ucast b"

text \<open>The inner loop \<open>while (leftbits >= 6)\<close> of the encoder.\<close>

fun encode_groups :: "Base64EncodeMode \<Rightarrow> u32 \<Rightarrow> nat \<Rightarrow> bytes \<Rightarrow> nat \<Rightarrow> (nat \<times> bytes \<times> nat) option" where
  "encode_groups mode leftchar leftbits output j =
     (if 6 \<le> leftbits then do {
        let leftbits = leftbits - 6;
        c \<leftarrow> encode mode (drop_bit leftbits leftchar AND 0x3f);
        output \<leftarrow> put output j c;
        encode_groups mode leftchar leftbits output (j + 1)
      } else Some (leftbits, output, j))"

declare encode_groups.simps [simp del]

text \<open>The loop over the input bytes.\<close>

fun encode_loop :: "Base64EncodeMode \<Rightarrow> bytes \<Rightarrow> u32 \<Rightarrow> nat \<Rightarrow> bytes \<Rightarrow> nat \<Rightarrow> (u32 \<times> nat \<times> bytes \<times> nat) option" where
  "encode_loop mode [] leftchar leftbits output j = Some (leftchar, leftbits, output, j)"
| "encode_loop mode (b # input) leftchar leftbits output j = do {
     let leftchar = shift_in 8 leftchar b;
     (leftbits, output, j) \<leftarrow> encode_groups mode leftchar (leftbits + 8) output j;
     encode_loop mode input leftchar leftbits output j
   }"

text \<open>The padding after the loop: the final \<open>if\<close>/\<open>else if\<close> on \<open>leftbits\<close>.\<close>

definition encode_tail :: "Base64EncodeMode \<Rightarrow> u32 \<times> nat \<times> bytes \<times> nat \<Rightarrow> (bool \<times> bytes) option" where
  "encode_tail mode = (\<lambda>(leftchar, leftbits, output, j).
     if leftbits = 2 then do {
       c \<leftarrow> encode mode (push_bit 4 (leftchar AND 0x3));
       output \<leftarrow> put output j c;
       output \<leftarrow> put output (j + 1) kPad;
       output \<leftarrow> put output (j + 2) kPad;
       Some (True, output)
     } else if leftbits = 4 then do {
       c \<leftarrow> encode mode (push_bit 2 (leftchar AND 0xf));
       output \<leftarrow> put output j c;
       output \<leftarrow> put output (j + 1) kPad;
       Some (True, output)
     } else Some (True, output))"

text \<open>
  \<open>base64Encode(input, output, mode)\<close>: the old content of \<open>output\<close> is an argument since
  the code resizes the string instead of clearing it.
\<close>

definition base64Encode :: "bytes \<Rightarrow> bytes \<Rightarrow> Base64EncodeMode \<Rightarrow> (bool \<times> bytes) option" where
  "base64Encode input output mode = do {
     let output = resize 0 ((length input + 2) div 3 * 4) output;
     st \<leftarrow> encode_loop mode input 0 0 output 0;
     encode_tail mode st
   }"

text \<open>The decoding table; an entry \<open>-1\<close> read as \<open>unsigned char\<close> is 255.\<close>

definition kBase64DecTable :: bytes where
  "kBase64DecTable = [
     -1,-1,-1,-1, -1,-1,-1,-1, -1,-1,-1,-1, -1,-1,-1,-1,
     -1,-1,-1,-1, -1,-1,-1,-1, -1,-1,-1,-1, -1,-1,-1,-1,
     -1,-1,-1,-1, -1,-1,-1,-1, -1,-1,-1,62, -1,62,-1,63,
     52,53,54,55, 56,57,58,59, 60,61,-1,-1, -1, 0,-1,-1,
     -1, 0, 1, 2,  3, 4, 5, 6,  7, 8, 9,10, 11,12,13,14,
     15,16,17,18, 19,20,21,22, 23,24,25,-1, -1,-1,-1,63,
     -1,26,27,28, 29,30,31,32, 33,34,35,36, 37,38,39,40,
     41,42,43,44, 45,46,47,48, 49,50,51,-1, -1,-1,-1,-1]"

definition decode :: "byte \<Rightarrow> byte option" where
  "decode c = get kBase64DecTable (unat c)"

text \<open>The inner loop \<open>while (bits >= 8)\<close> of the decoder.\<close>

fun decode_groups :: "u32 \<Rightarrow> nat \<Rightarrow> bytes \<Rightarrow> nat \<Rightarrow> (nat \<times> bytes \<times> nat) option" where
  "decode_groups value bits output j =
     (if 8 \<le> bits then do {
        let bits = bits - 8;
        output \<leftarrow> put output j (ucast (drop_bit bits value AND 0xff));
        decode_groups value bits output (j + 1)
      } else Some (bits, output, j))"

declare decode_groups.simps [simp del]

text \<open>The loop over the characters; \<open>continue\<close> skips, the pad character stops.\<close>

fun decode_loop :: "bytes \<Rightarrow> u32 \<Rightarrow> nat \<Rightarrow> bytes \<Rightarrow> nat \<Rightarrow> (nat \<times> bytes \<times> nat) option" where
  "decode_loop [] value bits output j = Some (bits, output, j)"
| "decode_loop (c # input) value bits output j =
     (if c > 0x7f then decode_loop input value bits output j
      else if c = kPad then Some (0, output, j)
      else do {
        c \<leftarrow> decode c;
        if c = -1 then decode_loop input value bits output j
        else do {
          let value = shift_in 6 value c;
          (bits, output, j) \<leftarrow> decode_groups value (bits + 6) output j;
          decode_loop input value bits output j
        }
      })"

definition base64Decode :: "bytes \<Rightarrow> bytes \<Rightarrow> (bool \<times> bytes) option" where
  "base64Decode input output = do {
     let output = resize 0 ((length input + 3) div 4 * 3) output;
     (bits, output, j) \<leftarrow> decode_loop input 0 0 output 0;
     Some (bits = 0, resize 0 j output)
   }"

text \<open>
  The reference, RFC 4648: the input cut into groups of three bytes, each group four symbols, a
  short last group padded. The symbols are those of the two alphabets of the RFC (tables 1
  and 2): capitals, small letters, digits, then plus and slash, or minus and underscore in the
  URI alphabet; the pad is the equals sign. Nothing here refers to the tables of the code.
\<close>

definition b64_sym :: "Base64EncodeMode \<Rightarrow> u32 \<Rightarrow> byte" where
  "b64_sym mode s =
     (if s < 26 then of_char (CHR ''A'') + ucast s
      else if s < 52 then of_char (CHR ''a'') + ucast (s - 26)
      else if s < 62 then of_char (CHR ''0'') + ucast (s - 52)
      else of_char (case (mode, s = 62) of
        (COMMON, True) \<Rightarrow> CHR ''+'' | (COMMON, False) \<Rightarrow> CHR ''/''
      | (URI, True) \<Rightarrow> CHR ''-'' | (URI, False) \<Rightarrow> CHR ''_''))"

definition b64_pad :: byte where
  "b64_pad = of_char (CHR ''='')"

definition sextet1 :: "byte \<Rightarrow> u32" where
  "sextet1 a = ucast (drop_bit 2 a)"

definition sextet2 :: "byte \<Rightarrow> byte \<Rightarrow> u32" where
  "sextet2 a b = ucast (push_bit 4 (a AND 0x3) OR drop_bit 4 b)"

definition sextet3 :: "byte \<Rightarrow> byte \<Rightarrow> u32" where
  "sextet3 b c = ucast (push_bit 2 (b AND 0xf) OR drop_bit 6 c)"

definition sextet4 :: "byte \<Rightarrow> u32" where
  "sextet4 c = ucast (c AND 0x3f)"

fun base64_spec :: "Base64EncodeMode \<Rightarrow> bytes \<Rightarrow> bytes" where
  "base64_spec mode [] = []"
| "base64_spec mode [a] = [b64_sym mode (sextet1 a), b64_sym mode (sextet2 a 0), b64_pad, b64_pad]"
| "base64_spec mode [a, b] =
     [b64_sym mode (sextet1 a), b64_sym mode (sextet2 a b), b64_sym mode (sextet3 b 0), b64_pad]"
| "base64_spec mode (a # b # c # input) =
     [b64_sym mode (sextet1 a), b64_sym mode (sextet2 a b), b64_sym mode (sextet3 b c),
      b64_sym mode (sextet4 c)] @ base64_spec mode input"

section \<open>The alphabet\<close>

lemma kBase64EncTable_num: "kBase64EncTable = 
    [65,66,67,68,69,70,71,72,73,74,75,76,77,78,79,80,81,82,83,84,85,86,87,88,89,90,
     97,98,99,100,101,102,103,104,105,106,107,108,109,110,111,112,113,114,115,116,117,
     118,119,120,121,122,48,49,50,51,52,53,54,55,56,57]"
  by (simp add: kBase64EncTable_def lit_def)

lemma b64_pad_eq [simp]: "b64_pad = kPad"
  by (simp add: b64_pad_def kPad_def)

lemma table_inverse:
  "list_all (\<lambda>i. encode m (of_nat i) = Some (b64_sym m (of_nat i)) \<and> b64_sym m (of_nat i) \<le> 0x7f \<and>
     b64_sym m (of_nat i) \<noteq> kPad \<and> decode (b64_sym m (of_nat i)) = Some (of_nat i)) [0..<64]"
  by (cases m; simp add: upt_rec encode_def b64_sym_def decode_def get_def kBase64DecTable_def
      kBase64EncTable_num kPad_def)

lemma encode_sextet:
  fixes s :: u32
  assumes "s < 64"
  shows "encode m s = Some (b64_sym m s)" "b64_sym m s \<le> 0x7f" "b64_sym m s \<noteq> kPad"
    "decode (b64_sym m s) = Some (ucast s)"
proof -
  have "unat s < 64" using assms by (simp add: word_less_nat_alt)
  then have "unat s \<in> set [0..<64]" by simp
  with table_inverse [of m] have
    "encode m (of_nat (unat s)) = Some (b64_sym m (of_nat (unat s))) \<and> b64_sym m (of_nat (unat s)) \<le> 0x7f \<and>
     b64_sym m (of_nat (unat s)) \<noteq> kPad \<and> decode (b64_sym m (of_nat (unat s))) = Some (of_nat (unat s))"
    unfolding list_all_iff by blast
  then show "encode m s = Some (b64_sym m s)" "b64_sym m s \<le> 0x7f" "b64_sym m s \<noteq> kPad"
    "decode (b64_sym m s) = Some (ucast s)"
    by auto
qed

section \<open>Bits of a group\<close>

text \<open>Three bytes shifted in give four sextets; four sextets shifted in give the bytes back.\<close>

lemma group_bits:
  "drop_bit 2 (shift_in 8 L a) AND 0x3f = sextet1 a"
  "drop_bit 4 (shift_in 8 (shift_in 8 L a) b) AND 0x3f = sextet2 a b"
  "drop_bit 6 (shift_in 8 (shift_in 8 L b) c) AND 0x3f = sextet3 b c"
  "shift_in 8 L c AND 0x3f = sextet4 c"
  "push_bit 4 (shift_in 8 L a AND 0x3) = sextet2 a 0"
  "push_bit 2 (shift_in 8 L b AND 0xf) = sextet3 b 0"
  unfolding sextet1_def sextet2_def sextet3_def sextet4_def shift_in_def word_masks
  by (rule bit_word_eqI, auto simp: bit_simps dest: byte_bitD)+

lemma ungroup_bits:
  "ucast (drop_bit 4 (shift_in 6 (shift_in 6 V (ucast (sextet1 a))) (ucast (sextet2 a b))) AND 0xff) = a"
  "ucast (drop_bit 2 (shift_in 6 (shift_in 6 V (ucast (sextet2 a b))) (ucast (sextet3 b c))) AND 0xff) = b"
  "ucast (shift_in 6 (shift_in 6 V (ucast (sextet3 b c))) (ucast (sextet4 c)) AND 0xff) = c"
  unfolding sextet1_def sextet2_def sextet3_def sextet4_def shift_in_def word_masks
  by (rule byte_eqI_bits; simp add: bit_simps)+

lemmas tail_bits = group_bits(5,6) [simplified]

lemma and_3f_less: "(x::u32) AND 0x3f < 64"
  using word_and_le1 [of x "0x3f"] by (rule le_less_trans) simp

lemma sextets_less:
  "sextet1 a < 64" "sextet2 a b < 64" "sextet3 b c < 64" "sextet4 c < 64"
  using and_3f_less [of "drop_bit 2 (shift_in 8 0 a)"]
    and_3f_less [of "drop_bit 4 (shift_in 8 (shift_in 8 0 a) b)"]
    and_3f_less [of "drop_bit 6 (shift_in 8 (shift_in 8 0 b) c)"]
    and_3f_less [of "shift_in 8 0 c"]
  by (simp_all only: group_bits)

section \<open>The encoder computes the reference\<close>

lemma length_spec: "length (base64_spec m xs) = (length xs + 2) div 3 * 4"
  by (induction m xs rule: base64_spec.induct) (simp_all, presburger?)

lemmas groups_unfold = encode_groups.simps [of _ _ 8] encode_groups.simps [of _ _ 10]
  encode_groups.simps [of _ _ 12] encode_groups.simps [of _ _ 6] encode_groups.simps [of _ _ 4] encode_groups.simps [of _ _ 2] encode_groups.simps [of _ _ 0]

lemma encode_loop_group:
  "encode_loop m (a # b # c # r) L 0 (ys @ z1 # z2 # z3 # z4 # zs) (length ys) =
   encode_loop m r (shift_in 8 (shift_in 8 (shift_in 8 L a) b) c) 0
    ((ys @ [b64_sym m (sextet1 a), b64_sym m (sextet2 a b), b64_sym m (sextet3 b c), b64_sym m (sextet4 c)]) @ zs)
    (Suc (Suc (Suc (Suc (length ys)))))"
  by (simp add: groups_unfold group_bits encode_sextet sextets_less)
lemma encode_loop_spec:
  "length zs = length (base64_spec m xs) \<Longrightarrow>
   encode_loop m xs L 0 (ys @ zs) (length ys) \<bind> encode_tail m = Some (True, ys @ base64_spec m xs)"
proof (induction m xs arbitrary: L ys zs rule: base64_spec.induct)
  case (4 m a b c input)
  from "4.prems" obtain z1 z2 z3 z4 zs' where zs: "zs = z1 # z2 # z3 # z4 # zs'" and len: "length zs' = length (base64_spec m input)"
    by (auto simp: length_Suc_conv)
  show ?case
    using "4.IH" [OF len, of "shift_in 8 (shift_in 8 (shift_in 8 L a) b) c"
      "ys @ [b64_sym m (sextet1 a), b64_sym m (sextet2 a b), b64_sym m (sextet3 b c), b64_sym m (sextet4 c)]"]
    unfolding zs encode_loop_group by simp
qed (auto simp: length_Suc_conv groups_unfold group_bits encode_sextet sextets_less encode_tail_def tail_bits)

lemma base64Encode_eq: "base64Encode input output mode = Some (True, base64_spec mode input)"
  using encode_loop_spec [of "resize 0 ((length input + 2) div 3 * 4) output" mode input 0 "[]"]
  by (simp add: base64Encode_def length_spec)

section \<open>The decoder inverts it\<close>

lemmas degroups_unfold = decode_groups.simps [of _ 6] decode_groups.simps [of _ 12]
  decode_groups.simps [of _ 10] decode_groups.simps [of _ 8] decode_groups.simps [of _ 4]
  decode_groups.simps [of _ 2] decode_groups.simps [of _ 0]

lemma b64_sym_bind: "s < 64 \<Longrightarrow> decode (b64_sym m s) \<bind> f = f (ucast s)"
  by (simp add: encode_sextet)
lemma ucast_sextet_neq: "(s :: u32) < 64 \<Longrightarrow> (ucast s :: byte) \<noteq> -1"
proof
  assume s: "s < 64" and "(ucast s :: byte) = -1"
  moreover have "(-1 :: byte) = 255" by simp
  ultimately have "unat (ucast s :: byte) = unat (255 :: byte)" by (simp only:)
  then have "unat (ucast s :: byte) = 255" by simp
  moreover have "unat (ucast s :: byte) = unat s mod 256" by (simp add: unsigned_ucast_eq take_bit_eq_mod)
  ultimately show False using s by (simp add: word_less_nat_alt)
qed

lemma decode_loop_symbol:
  assumes "s < 64"
  shows "decode_loop (b64_sym m s # input) value bits output j = (let value = shift_in 6 value (ucast s) in
          decode_groups value (bits + 6) output j \<bind> (\<lambda>(bits, output, j). decode_loop input value bits output j))"
  using encode_sextet [OF assms, of m] ucast_sextet_neq [OF assms] by (simp add: leD)

lemma decode_loop_pad: "decode_loop (kPad # input) value bits output j = Some (0, output, j)"
  by (simp add: kPad_def)

lemma decode_loop_spec:
  "length xs \<le> length zs \<Longrightarrow>
   \<exists>zs'. decode_loop (base64_spec m xs) V 0 (ys @ zs) (length ys) = Some (0, ys @ xs @ zs', length ys + length xs)"
proof (induction m xs arbitrary: V ys zs rule: base64_spec.induct)
  case (4 m a b c input)
  from "4.prems" obtain z1 z2 z3 zs' where zs: "zs = z1 # z2 # z3 # zs'" and len: "length input \<le> length zs'"
    by (auto simp: Suc_le_length_iff)
  show ?case
    using "4.IH" [OF len, of "shift_in 6 (shift_in 6 (shift_in 6 (shift_in 6 V (ucast (sextet1 a))) (ucast (sextet2 a b))) (ucast (sextet3 b c))) (ucast (sextet4 c))"
      "ys @ [a, b, c]"]
    unfolding zs by (auto simp: decode_loop_symbol sextets_less degroups_unfold ungroup_bits decode_loop_pad simp del: decode_loop.simps(2))
qed (auto simp: Suc_le_length_iff decode_loop_symbol sextets_less degroups_unfold ungroup_bits decode_loop_pad simp del: decode_loop.simps(2))

lemma base64Decode_spec: "base64Decode (base64_spec m input) output = Some (True, input)"
proof -
  let ?out = "resize 0 ((length (base64_spec m input) + 3) div 4 * 3) output"
  have "length input \<le> (length input + 2) div 3 * 3" by presburger
  then obtain zs where "decode_loop (base64_spec m input) 0 0 ?out 0 = Some (0, input @ zs, length input)"
    using decode_loop_spec [of input ?out m 0 "[]"] by (auto simp: length_spec)
  then show ?thesis by (simp add: base64Decode_def resize_def)
qed
section \<open>The decoder on arbitrary input\<close>

lemma decode_groups_ok:
  "8 * j + bits \<le> 8 * length out \<Longrightarrow>
   \<exists>bits' out' j'. decode_groups v bits out j = Some (bits', out', j') \<and>
     length out' = length out \<and> 8 * j' + bits' = 8 * j + bits \<and> bits' < 8"
proof (induction v bits out j rule: decode_groups.induct)
  case (1 v bits out j)
  show ?case
  proof (cases "8 \<le> bits")
    case True
    with "1.prems" have j: "j < length out" by simp
    let ?out = "out[j := ucast (drop_bit (bits - 8) v AND 0xff)]"
    have "\<exists>bits' out' j'. decode_groups v (bits - 8) ?out (j + 1) = Some (bits', out', j') \<and>
      length out' = length out \<and> 8 * j' + bits' = 8 * j + bits \<and> bits' < 8"
      using "1.IH" [OF True refl, of ?out] "1.prems" True j by (auto simp: put_def)
    with True j show ?thesis by (simp add: decode_groups.simps [of v bits] put_def Let_def)
  next
    case False
    then show ?thesis by (simp add: decode_groups.simps [of v bits])
  qed
qed

lemma decode_in_range: "c \<le> 0x7f \<Longrightarrow> \<exists>d. decode c = Some d"
  by (simp add: decode_def get_def kBase64DecTable_def word_le_nat_alt)

lemma decode_loop_ok:
  "8 * j + bits + 6 * length input \<le> 8 * length out \<Longrightarrow> bits < 8 \<Longrightarrow>
   \<exists>bits' out' j'. decode_loop input v bits out j = Some (bits', out', j') \<and>
     length out' = length out \<and> 8 * j' \<le> 8 * j + bits + 6 * length input \<and> bits' < 8"
proof (induction input v bits out j rule: decode_loop.induct)
  case (2 c input v bits out j)
  consider "c > 0x7f" | "\<not> c > 0x7f" "c = kPad" | "\<not> c > 0x7f" "c \<noteq> kPad" by blast
  then show ?case
  proof cases
    case 1
    with "2.IH"(1) "2.prems" show ?thesis by fastforce
  next
    case 2
    with "2.prems" show ?thesis by simp
  next
    case 3
    then obtain d where d: "decode c = Some d" using decode_in_range by (auto simp: not_less)
    show ?thesis
    proof (cases "d = -1")
      case True
      with 3 d "2.IH"(2) [OF 3 d] "2.prems" show ?thesis by fastforce
    next
      case False
      obtain bits' out' j' where g: "decode_groups (shift_in 6 v d) (bits + 6) out j = Some (bits', out', j')"
        "length out' = length out" "8 * j' + bits' = 8 * j + (bits + 6)" "bits' < 8"
        using decode_groups_ok [of j "bits + 6" out "shift_in 6 v d"] "2.prems" by auto
      have "8 * j' + bits' + 6 * length input \<le> 8 * length out'" using g "2.prems" by simp
      from "2.IH"(3) [OF 3 d False refl g(1) refl refl this g(4)] 3 d False g show ?thesis by auto
    qed
  qed
qed auto

lemma base64Decode_ok: "\<exists>ok out'. base64Decode input out = Some (ok, out') \<and> 4 * length out' \<le> 3 * length input"
proof -
  let ?out = "resize 0 ((length input + 3) div 4 * 3) out"
  have "6 * length input \<le> 8 * length ?out" by simp
  then obtain b o' j where "decode_loop input 0 0 ?out 0 = Some (b, o', j)" "8 * j \<le> 6 * length input"
    using decode_loop_ok [of 0 0 input ?out 0] by auto
  then show ?thesis by (simp add: base64Decode_def)
qed
section \<open>Properties\<close>

interpretation base64: lossless_codec
  "base64_spec mode" "\<lambda>enc. map_option snd (base64Decode enc [])" "\<lambda>_. True" for mode
  by unfold_locales (simp add: base64Decode_spec)

text \<open>
  C16: For every input, every previous content of the output string and both alphabets,
  base64Encode never writes outside the string it resized, returns true, and leaves exactly
  the padded RFC 4648 text of the input, in the standard alphabet (plus and slash) or the one
  for URIs (minus and underscore): every byte of the resized string is overwritten.
\<close>

theorem base64_encode_correct:
  "base64Encode input out mode = Some (True, base64_spec mode input)"
  by (rule base64Encode_eq)

text \<open>
  C9: Decoding what base64Encode produced, in either alphabet and whatever the output
  strings held before, returns true and the original bytes; so two inputs with the same
  encoding are equal.
\<close>

theorem base64_roundtrip:
  "base64Encode input out mode \<bind> (\<lambda>(ok, enc). base64Decode enc out') = Some (True, input) \<and>
   (base64Encode input out mode = base64Encode input2 out2 mode) = (input = input2)"
  by (simp add: base64Encode_eq base64Decode_spec base64.enc_eq_iff)

text \<open>
  C17: base64Decode on arbitrary bytes, valid Base64 or not, performs only writes inside the
  string it resized, reads its table in range, and returns at most three bytes for every
  four characters.
\<close>

theorem base64_decode_safe:
  "\<exists>ok out'. base64Decode input out = Some (ok, out') \<and> 4 * length out' \<le> 3 * length input"
  by (rule base64Decode_ok)

end
