(* ===== verification/Acc_Unicode.thy ===== *)
theory Acc_Unicode
  imports Acc_Prelude
begin

text \<open>
  UTF-8 of \<open>src/accelerator/Unicode.cpp\<close>: \<open>codePointToUtf8\<close> and the decoder
  \<open>utf8ToCodePoint\<close> with its two error modes.
\<close>

section \<open>Definitions\<close>

definition codePointToUtf8 :: "u32 \<Rightarrow> bytes" where
  "codePointToUtf8 cp =
     (if cp \<le> 0x7f then [ucast cp]
      else if cp \<le> 0x7FF then
        [ucast (0xC0 OR drop_bit 6 cp), ucast (0x80 OR (0x3f AND cp))]
      else if cp \<le> 0xFFFF then
        [0xE0 OR ucast (drop_bit 12 cp), 0x80 OR ucast (0x3f AND drop_bit 6 cp),
         ucast (0x80 OR (0x3f AND cp))]
      else if cp \<le> 0x10FFFF then
        [ucast (0xF0 OR drop_bit 18 cp), ucast (0x80 OR (0x3f AND drop_bit 12 cp)),
         ucast (0x80 OR (0x3f AND drop_bit 6 cp)), ucast (0x80 OR (0x3f AND cp))]
      else [])"

text \<open>The \<open>std::runtime_error\<close>s of the decoder, with the values their messages report.\<close>

datatype utf8_error =
    Utf8Empty
  | Utf8Lead u32
  | Utf8Continuation nat byte
  | Utf8Value nat u32
  | Utf8LengthMaxedOut

text \<open>
  The decoder reads the bytes from \<open>p\<close> up to \<open>e\<close> and returns the code point with the
  number of bytes \<open>p\<close> advanced. \<open>skip\<close> is the lambda of the source: one byte
  consumed (also at the end of the range), U+FFFD returned.
\<close>

definition utf8_fail :: "bool \<Rightarrow> utf8_error \<Rightarrow> utf8_error + (u32 \<times> nat)" where
  "utf8_fail skipOnError e = (if skipOnError then Inr (0xfffd, 1) else Inl e)"

definition bitMask :: "nat \<Rightarrow> u32" where
  "bitMask i = [0x7f, 0x7ff, 0xffff, 0x1fffff] ! i"

text \<open>\<open>fst <<= 1\<close> and \<open>d = (d << 6) | (tmp & 0x3F)\<close>.\<close>

definition shl1 :: "byte \<Rightarrow> byte" where
  "shl1 lead = push_bit 1 lead"

definition add_continuation :: "u32 \<Rightarrow> byte \<Rightarrow> u32" where
  "add_continuation d tmp = push_bit 6 d OR (ucast tmp AND 0x3F)"

text \<open>The loop \<open>for (i = 1; i != 3 && p + i < e; ++i)\<close> with its exits.\<close>

function utf8_loop :: "bool \<Rightarrow> bytes \<Rightarrow> nat \<Rightarrow> u32 \<Rightarrow> byte \<Rightarrow> utf8_error + (u32 \<times> nat)" where
  "utf8_loop skipOnError p i d lead =
     (if i \<noteq> 3 \<and> i < length p then
        let tmp = p ! i in
        if tmp AND 0xC0 \<noteq> 0x80 then utf8_fail skipOnError (Utf8Continuation i tmp)
        else
          let d = add_continuation d tmp;
              lead = shl1 lead in
          if lead AND 0x80 = 0 then
            let d = d AND bitMask i in
            if d AND NOT (bitMask (i - 1)) = 0 then utf8_fail skipOnError (Utf8Value i d)
            else if i = 2 \<and> (0xD800 \<le> d \<and> d \<le> 0xDFFF \<or> d > 0x10FFFF)
              then utf8_fail skipOnError (Utf8Value i d)
            else Inr (d, i + 1)
          else utf8_loop skipOnError p (i + 1) d lead
      else utf8_fail skipOnError Utf8LengthMaxedOut)"
  by pat_completeness auto
termination
  by (relation "measure (\<lambda>(s, p, i, d, f). length p - i)") auto

declare utf8_loop.simps [simp del]

definition utf8ToCodePoint :: "bytes \<Rightarrow> bool \<Rightarrow> utf8_error + (u32 \<times> nat)" where
  "utf8ToCodePoint p skipOnError =
     (if p = [] then utf8_fail skipOnError Utf8Empty
      else
        let lead = hd p in
        if lead AND 0x80 = 0 then Inr (ucast lead, 1)
        else if lead AND 0xC0 \<noteq> 0xC0 then utf8_fail skipOnError (Utf8Lead (ucast lead))
        else utf8_loop skipOnError p 1 (ucast lead) (shl1 lead))"

text \<open>The scalar values of the basic multilingual plane.\<close>

definition bmp_scalar :: "u32 \<Rightarrow> bool" where
  "bmp_scalar cp \<longleftrightarrow> cp \<le> 0xFFFF \<and> \<not> (0xD800 \<le> cp \<and> cp \<le> 0xDFFF)"

section \<open>Masks and bounds as bits\<close>

lemma byte_masks: fixes x :: byte shows
  "x AND 0x80 = 0 \<longleftrightarrow> \<not> bit x 7"
  "x AND 0xC0 = 0xC0 \<longleftrightarrow> bit x 7 \<and> bit x 6"
  "x AND 0xC0 = 0x80 \<longleftrightarrow> bit x 7 \<and> \<not> bit x 6"
  by (auto simp: byte_eq_iff_bits bit_simps)

lemma bitMask_simps: "bitMask 0 = mask 7" "bitMask (Suc 0) = mask 11" "bitMask 1 = mask 11"  "bitMask 2 = mask 16"
  by (simp_all add: bitMask_def mask_eq_exp_minus_1)

lemma cp_le: "(cp::u32) \<le> 0x7f \<longleftrightarrow> cp \<le> mask 7" "cp \<le> 0x7ff \<longleftrightarrow> cp \<le> mask 11" "cp \<le> 0xffff \<longleftrightarrow> cp \<le> mask 16"
 by (simp_all add: mask_eq_exp_minus_1)

section \<open>The values that two and three bytes decode to\<close>

definition dec2 :: "byte \<Rightarrow> byte \<Rightarrow> u32" where
  "dec2 a b = add_continuation (ucast a) b AND bitMask 1"
definition dec3 :: "byte \<Rightarrow> byte \<Rightarrow> byte \<Rightarrow> u32" where
  "dec3 a b c = add_continuation (add_continuation (ucast a) b) c AND bitMask 2"

lemma canon2: 
  fixes a b :: byte
  assumes "bit a 7" "bit a 6" "\<not> bit a 5" "bit b 7" "\<not> bit b 6"
  shows "ucast (0xC0 OR drop_bit 6 (dec2 a b)) = a" "ucast (0x80 OR (0x3f AND dec2 a b)) = b"
   unfolding dec2_def by (rule byte_eqI_bits; simp add: bit_simps assms bitMask_simps add_continuation_def)+
lemma canon3: 
  fixes a b :: byte
  assumes "bit a 7" "bit a 6" "bit a 5" "\<not> bit a 4" "bit b 7" "\<not> bit b 6" "bit c 7" "\<not> bit c 6"
  shows "0xE0 OR ucast (drop_bit 12 (dec3 a b c)) = a" "0x80 OR ucast (0x3f AND drop_bit 6 (dec3 a b c)) = b"
    "ucast (0x80 OR (0x3f AND dec3 a b c)) = c"
   unfolding dec3_def by (rule byte_eqI_bits; simp add: bit_simps assms bitMask_simps add_continuation_def)+

lemma lead_lits: "(0x80::'a::len word) = push_bit 7 (mask 1)" "(0xC0::'a word) = push_bit 6 (mask 2)"
  "(0xE0::'a word) = push_bit 5 (mask 3)" "(0xF0::'a word) = push_bit 4 (mask 4)"
  by (simp_all add: mask_eq_exp_minus_1 push_bit_eq_mult)


lemma low_bits_eqI:
  fixes x y :: u32
  assumes "x \<le> mask 16" "y \<le> mask 16" "list_all (\<lambda>n. bit x n = bit y n) [0,1,2,3,4,5,6,7,8,9,10,11,12,13,14,15]"
  shows "x = y"
proof (rule bit_word_eqI)
  fix n
  show "bit x n = bit y n"
  proof (cases "n < 16")
    case True
    then have "n \<in> set [0,1,2,3,4,5,6,7,8,9,10,11,12,13,14,15]" by (simp, presburger)
    then show ?thesis using assms(3) by (simp only: list_all_iff)
  next
    case False
    then show ?thesis using assms(1,2) by (auto simp: word_le_mask_iff)
  qed
qed

lemma dec2_enc:
  assumes "cp \<le> mask 11"
  shows "dec2 (ucast (0xC0 OR drop_bit 6 cp)) (ucast (0x80 OR (0x3f AND cp))) = cp"
proof (rule low_bits_eqI)
  from assms have *: "\<And>n. 11 \<le> n \<Longrightarrow> \<not> bit cp n" by (auto simp: word_le_mask_iff)
  show "list_all (\<lambda>n. bit (dec2 (ucast (0xC0 OR drop_bit 6 cp)) (ucast (0x80 OR (0x3f AND cp)))) n = bit cp n) [0,1,2,3,4,5,6,7,8,9,10,11,12,13,14,15]"
    by (simp add: dec2_def bitMask_simps add_continuation_def bit_simps *)
qed (use assms in \<open>auto simp: word_le_mask_iff dec2_def bitMask_simps add_continuation_def bit_simps\<close>)

lemma dec3_enc: 
  assumes "cp \<le> mask 16"
  shows "dec3 (0xE0 OR ucast (drop_bit 12 cp)) (0x80 OR ucast (0x3f AND drop_bit 6 cp)) (ucast (0x80 OR (0x3f AND cp))) = cp"
proof (rule low_bits_eqI)
  show "list_all (\<lambda>n. bit (dec3 (0xE0 OR ucast (drop_bit 12 cp)) (0x80 OR ucast (0x3f AND drop_bit 6 cp)) (ucast (0x80 OR (0x3f AND cp)))) n = bit cp n) [0,1,2,3,4,5,6,7,8,9,10,11,12,13,14,15]"
    by (simp add: dec3_def bitMask_simps add_continuation_def bit_simps)
qed (use assms in \<open>auto simp: word_le_mask_iff dec3_def bitMask_simps add_continuation_def bit_simps\<close>)
lemma bit_shl1: "bit (shl1 a) n \<longleftrightarrow> 0 < n \<and> n < 8 \<and> bit a (n - 1)"
  unfolding shl1_def bit_push_bit_iff by (auto simp: less_imp_le)

lemma and_not_bitMask: 
   "d AND NOT (bitMask 0) = 0 \<longleftrightarrow> d \<le> 0x7f" 
   "d AND NOT (bitMask (Suc 0)) = 0 \<longleftrightarrow> d \<le> 0x7ff"
  unfolding bitMask_simps cp_le by (simp_all add: and_not_mask_eq_0_iff word_le_mask_iff)

lemma and_bitMask2: "\<not> 0x10FFFF < x AND bitMask (Suc (Suc 0))"
proof -
  have "x AND bitMask (Suc (Suc 0)) \<le> 0xffff"
    using word_and_le1 [of x "bitMask 2"] by (simp add: bitMask_def numeral_2_eq_2)
  then show ?thesis by (simp add: not_less order_trans)
qed

lemma utf8_loop_1: "utf8_loop s (a # b # r) 1 (ucast a) (shl1 a) =
  (if \<not> (bit b 7 \<and> \<not> bit b 6) then utf8_fail s (Utf8Continuation 1 b)
   else if \<not> bit a 5 then
     (if dec2 a b \<le> 0x7f then utf8_fail s (Utf8Value 1 (dec2 a b)) else Inr (dec2 a b, 2))
   else utf8_loop s (a # b # r) 2 (add_continuation (ucast a) b) (shl1 (shl1 a)))"
  by (subst utf8_loop.simps) (simp add: byte_masks bit_shl1 Let_def and_not_bitMask dec2_def numeral_2_eq_2)

lemma utf8_loop_2: "utf8_loop s (a # b # c # r) 2 (add_continuation (ucast a) b) (shl1 (shl1 a)) =
  (if \<not> (bit c 7 \<and> \<not> bit c 6) then utf8_fail s (Utf8Continuation 2 c)
   else if \<not> bit a 4 then
     (if dec3 a b c \<le> 0x7ff \<or> 0xD800 \<le> dec3 a b c \<and> dec3 a b c \<le> 0xDFFF then utf8_fail s (Utf8Value 2 (dec3 a b c)) else Inr (dec3 a b c, 3))
   else utf8_fail s Utf8LengthMaxedOut)"
  by (subst utf8_loop.simps, subst utf8_loop.simps) (simp add: byte_masks bit_shl1 Let_def and_not_bitMask dec3_def numeral_2_eq_2 and_bitMask2)

lemma utf8_1: "\<not> bit a 7 \<Longrightarrow> utf8ToCodePoint (a # r) s = Inr (ucast a, 1)"
  by (simp add: utf8ToCodePoint_def byte_masks)

lemma utf8_n: "bit a 7 \<Longrightarrow> bit a 6 \<Longrightarrow> utf8ToCodePoint (a # r) s = utf8_loop s (a # r) 1 (ucast a) (shl1 a)"
  by (simp add: utf8ToCodePoint_def byte_masks)

lemma utf8_lead: "bit a 7 \<Longrightarrow> \<not> bit a 6 \<Longrightarrow> utf8ToCodePoint (a # r) s = utf8_fail s (Utf8Lead (ucast a))"
  by (simp add: utf8ToCodePoint_def byte_masks)

lemmas utf8_unfold = utf8_1 utf8_n [unfolded One_nat_def] utf8_loop_1 [unfolded One_nat_def] utf8_loop_2

lemma utf8_enc:
  assumes "cp \<le> 0xFFFF" "\<not> (0xD800 \<le> cp \<and> cp \<le> 0xDFFF)"
  shows "utf8ToCodePoint (codePointToUtf8 cp @ rest) s = Inr (cp, length (codePointToUtf8 cp))"
proof -
  consider "cp \<le> 0x7f" | "\<not> cp \<le> 0x7f" "cp \<le> 0x7ff" | "\<not> cp \<le> 0x7ff" "\<not> cp \<le> 0x7f" by fastforce
  then show ?thesis
  proof cases
    case 1
    then have "\<not> bit (ucast cp :: byte) 7" "ucast (ucast cp :: byte) = cp" by (auto simp: cp_le word_le_mask_iff bit_simps intro!: bit_word_eqI)
    with 1 show ?thesis by (simp add: codePointToUtf8_def utf8_unfold)
  next
    case 2
    then have "\<not> bit cp 11" by (auto simp: cp_le word_le_mask_iff)
    with 2 dec2_enc [of cp] show ?thesis
      by (simp add: codePointToUtf8_def utf8_unfold cp_le bit_simps) 
  next
    case 3
    then have "\<not> bit cp 16" using assms by (auto simp: cp_le word_le_mask_iff)
    with 3 dec3_enc [of cp] assms show ?thesis
      by (auto simp: codePointToUtf8_def utf8_unfold cp_le bit_simps) 
  qed
qed
lemma dec_le: "dec2 a b \<le> 0x7ff" "dec3 a b c \<le> 0xffff" 
  unfolding dec2_def dec3_def cp_le bitMask_simps by (simp_all add: word_and_le1 word_le_mask_iff bit_simps)

lemma ascii_le:
  assumes "\<not> bit a 7"
  shows "(ucast (a::byte) :: u32) \<le> 0x7f"
proof -
  have "k < 7" if "bit a k" for k
  proof -
    have "k < 8" using that by (rule byte_bitD)
    moreover have "k \<noteq> 7" using that assms by auto
    ultimately show ?thesis by simp
  qed
  then show ?thesis unfolding cp_le by (simp add: word_le_mask_iff bit_simps)
qed

lemma cp_mono:
  fixes cp :: u32
  shows "cp \<le> 0x7f \<Longrightarrow> cp \<le> 0x7ff" "cp \<le> 0x7ff \<Longrightarrow> cp \<le> 0xffff" "cp \<le> 0x7ff \<Longrightarrow> \<not> 0xD800 \<le> cp"
    "cp \<le> 0x10FFFF \<Longrightarrow> cp \<le> mask 21"
  by (erule order_trans, simp)+ (auto simp: not_le mask_eq_exp_minus_1 elim: le_less_trans order_trans)

lemma bmp_low: "cp \<le> 0x7ff \<Longrightarrow> bmp_scalar cp"
  by (simp add: bmp_scalar_def cp_mono)

lemma utf8_canonical:
  assumes "utf8ToCodePoint p False = Inr (cp, n)"
  shows "n \<le> length p \<and> take n p = codePointToUtf8 cp \<and> bmp_scalar cp"
proof -
  from assms obtain a r where p: "p = a # r" 
    by (cases p) (auto simp: utf8ToCodePoint_def utf8_fail_def)
  consider "\<not> bit a 7" | "bit a 7" "\<not> bit a 6" | "bit a 7" "bit a 6" "r = []"
    | b r' where "bit a 7" "bit a 6" "r = b # r'" by (cases r) auto
  then show ?thesis
  proof cases
    case 1
    with assms ascii_le [OF 1] bmp_low [of "ucast a"] show ?thesis
      by (auto simp: p utf8_unfold codePointToUtf8_def cp_mono)
  next
    case 2
    with assms show ?thesis by (simp add: p utf8_lead utf8_fail_def)
  next
    case 3
    with assms show ?thesis by (simp add: p utf8_n utf8_loop.simps utf8_fail_def)
  next
    case 4
    with assms have b: "bit b 7" "\<not> bit b 6" by (auto simp: p utf8_unfold utf8_fail_def split: if_splits)
    show ?thesis
    proof (cases "bit a 5")
      case False
      with assms 4 b have "cp = dec2 a b" "n = 2" "\<not> dec2 a b \<le> 0x7f" by (auto simp: p utf8_unfold utf8_fail_def split: if_splits)
      then show ?thesis using 4 canon2 [OF 4(1,2) False b] dec_le(1) [of a b] bmp_low [of cp]
        by (simp add: p codePointToUtf8_def)
    next
      case True
      with assms 4 b obtain c r'' where r': "r' = c # r''" by (cases r') (auto simp: p utf8_unfold utf8_loop.simps [of _ _ 2] utf8_fail_def split: if_splits)
      with assms 4 b True have c: "bit c 7" "\<not> bit c 6" "\<not> bit a 4" and cp: "cp = dec3 a b c" "n = 3" "\<not> dec3 a b c \<le> 0x7ff" "\<not> (0xD800 \<le> cp \<and> cp \<le> 0xDFFF)"
        by (auto simp: p utf8_unfold utf8_fail_def split: if_splits)
      then have "\<not> dec3 a b c \<le> 0x7f" using cp_mono(1) by blast
      with cp show ?thesis using 4 r' canon3 [OF 4(1,2) True c(3) b c(1,2)] dec_le(2) [of a b c]
        by (simp add: p codePointToUtf8_def bmp_scalar_def)
    qed
  qed
qed

lemma utf8_supplementary:
  assumes "\<not> cp \<le> 0xFFFF" "cp \<le> 0x10FFFF"
  shows "utf8ToCodePoint (codePointToUtf8 cp @ rest) s = utf8_fail s Utf8LengthMaxedOut"
    "length (codePointToUtf8 cp) = 4"
proof -
  have "\<not> cp \<le> 0x7ff" "\<not> cp \<le> 0x7f" using assms(1) cp_mono by blast+
  moreover have "\<not> bit cp 21" using cp_mono(4) [OF assms(2)] by (auto simp: word_le_mask_iff)
  ultimately show "utf8ToCodePoint (codePointToUtf8 cp @ rest) s = utf8_fail s Utf8LengthMaxedOut"
    "length (codePointToUtf8 cp) = 4" using assms
    by (simp_all add: codePointToUtf8_def utf8_unfold bit_simps) 
qed

section \<open>Properties\<close>

definition utf8_decode_one :: "bytes \<Rightarrow> u32 option" where
  "utf8_decode_one p = (case utf8ToCodePoint p False of
     Inl _ \<Rightarrow> None | Inr (cp, n) \<Rightarrow> if n = length p then Some cp else None)"

interpretation utf8: lossless_codec codePointToUtf8 utf8_decode_one bmp_scalar
  using utf8_enc [where rest = "[]"]
  by unfold_locales (simp add: utf8_decode_one_def bmp_scalar_def)

text \<open>
  C18: Every scalar value up to U+FFFF that is not a surrogate survives the round trip: the
  decoder, in both error modes and whatever bytes follow, returns the code point and
  advances exactly over its encoding. Hence no two of them share an encoding.
\<close>

theorem utf8_roundtrip:
  assumes "bmp_scalar cp" and "bmp_scalar cp2"
  shows "utf8ToCodePoint (codePointToUtf8 cp @ rest) skipOnError =
      Inr (cp, length (codePointToUtf8 cp)) \<and>
    (codePointToUtf8 cp = codePointToUtf8 cp2 \<longleftrightarrow> cp = cp2)"
  using assms utf8_enc utf8.enc_eq_iff by (auto simp: bmp_scalar_def)

theorem utf8_roundtrip_witness:
  "utf8ToCodePoint (codePointToUtf8 0x20AC @ [0x41]) False =
     Inr (0x20AC, length (codePointToUtf8 0x20AC)) \<and>
   (codePointToUtf8 0x20AC = codePointToUtf8 0x7FF \<longleftrightarrow> (0x20AC::u32) = 0x7FF)"
  by (rule utf8_roundtrip) (simp_all add: bmp_scalar_def)

text \<open>
  C19: Without skipOnError the decoder accepts only shortest-form encodings: whenever it
  returns a code point, the bytes it consumed lie inside the input and are exactly the
  encoding of that code point, which is no surrogate. Overlong forms are all rejected.
\<close>

theorem utf8_accepts_only_canonical:
  assumes "utf8ToCodePoint p False = Inr (cp, n)"
  shows "n \<le> length p \<and> take n p = codePointToUtf8 cp \<and> bmp_scalar cp"
  using assms by (rule utf8_canonical)

theorem utf8_accepts_only_canonical_witness:
  "2 \<le> length [0xC3, 0xA9, 0x41 :: byte] \<and>
   take 2 [0xC3, 0xA9, 0x41] = codePointToUtf8 0xE9 \<and> bmp_scalar 0xE9"
proof -
  have "utf8ToCodePoint [0xC3, 0xA9, 0x41] False = Inr (0xE9, 2)" by code_simp
  then show ?thesis by (rule utf8_accepts_only_canonical)
qed

text \<open>
  C20: The decoder rejects every supplementary-plane code point that the encoder produces:
  its loop stops at \<open>i = 3\<close> before a fourth byte is read, although the comment above it
  lists the four-byte form as valid. With skipOnError it returns U+FFFD and advances one
  byte into the sequence.
\<close>

theorem utf8_four_byte_form_rejected:
  assumes "0xFFFF < cp" and "cp \<le> 0x10FFFF"
  shows "length (codePointToUtf8 cp) = 4 \<and>
    utf8ToCodePoint (codePointToUtf8 cp @ rest) False = Inl Utf8LengthMaxedOut \<and>
    utf8ToCodePoint (codePointToUtf8 cp @ rest) True = Inr (0xfffd, 1)"
  using assms utf8_supplementary [of cp] by (simp add: utf8_fail_def)

theorem utf8_four_byte_form_rejected_witness:
  "length (codePointToUtf8 0x1F600) = 4 \<and>
    utf8ToCodePoint (codePointToUtf8 0x1F600 @ [0x41]) False = Inl Utf8LengthMaxedOut \<and>
    utf8ToCodePoint (codePointToUtf8 0x1F600 @ [0x41]) True = Inr (0xfffd, 1)"
  by (rule utf8_four_byte_form_rejected) simp_all

end
