(* ===== verification/Acc_IOBuf_Heap.thy ===== *)
theory Acc_IOBuf_Heap
  imports Acc_Prelude
begin

text \<open>
  The memory that \<open>src/accelerator/io/IOBuf.cpp\<close> works on: IOBuf objects linked in rings,
  the reference-counted \<open>SharedInfo\<close> records, the data blocks they own, the heap storage of
  IOBuf objects, and the allocator.

  An address is a \<^typ>\<open>nat\<close>. A data pointer is a block together with an offset: \<open>buf_\<close> is
  the block (\<^const>\<open>None\<close> is \<open>nullptr\<close>) and \<open>data_\<close> the offset from its first byte, so
  \<open>headroom()\<close> is \<open>data_\<close>. Accesses to a dead object or outside a block are undefined
  behaviour, an explicit error here, as is a failed \<open>assert\<close> or \<open>DCHECK\<close>.
\<close>

section \<open>State\<close>

text \<open>
  The function that frees a buffer: \<open>freeInternalBuf\<close> of the combined storage, or a function
  of the user (named by a number). The default, \<open>free()\<close>, is a null function pointer.
\<close>

datatype free_fn = FreeInternalBuf | FreeUser nat

text \<open>
  \<open>separate\<close> records where the structure lives: alone (\<open>new SharedInfo\<close> of
  \<open>takeOwnership\<close>) or inside the storage of the buffer, whose release ends its life.
\<close>

record sharedinfo =
  freeFn :: "free_fn option"
  userData :: nat
  refcount :: u32
  externallyShared :: bool
  separate :: bool

text \<open>The two flag bits packed into \<open>flagsAndSharedInfo_\<close> are the last two fields.\<close>

record iobuf =
  next' :: nat
  prev' :: nat
  data' :: nat
  buf' :: "nat option"
  length' :: nat
  capacity' :: nat
  sharedInfo :: "nat option"
  kFlagMaybeShared :: bool
  kFlagFreeSharedInfo :: bool

text \<open>
  \<open>stors\<close> holds the flags of the \<open>HeapPrefix\<close> in front of an IOBuf allocated by
  \<open>operator new\<close> (an IOBuf held by value has none). \<open>calls\<close> logs the calls of user free
  functions, newest first: function, buffer, user data. \<open>oom\<close> says for which sizes
  \<open>malloc\<close> returns null, and \<open>junk\<close> is what fresh memory holds; both are arbitrary.
\<close>

record heap =
  iobs :: "nat \<Rightarrow> iobuf option"
  infos :: "nat \<Rightarrow> sharedinfo option"
  blks :: "nat \<Rightarrow> bytes option"
  stors :: "nat \<Rightarrow> u16 option"
  brk :: nat
  calls :: "(nat \<times> nat option \<times> nat) list"
  oom :: "nat \<Rightarrow> bool"
  junk :: byte

datatype ioerr = BadAlloc | OverflowError | UB

text \<open>An operation returns a value and the new heap, or throws in some heap.\<close>

type_synonym 'a io = "(ioerr \<times> heap) + ('a \<times> heap)"

definition check :: "bool \<Rightarrow> heap \<Rightarrow> unit io" where
  "check b h = (if b then Inr ((), h) else Inl (UB, h))"

definition iob :: "heap \<Rightarrow> nat \<Rightarrow> iobuf io" where
  "iob h p = (case iobs h p of None \<Rightarrow> Inl (UB, h) | Some n \<Rightarrow> Inr (n, h))"

definition info :: "heap \<Rightarrow> nat \<Rightarrow> sharedinfo io" where
  "info h i = (case infos h i of None \<Rightarrow> Inl (UB, h) | Some s \<Rightarrow> Inr (s, h))"

definition upd_iob :: "nat \<Rightarrow> (iobuf \<Rightarrow> iobuf) \<Rightarrow> heap \<Rightarrow> heap" where
  "upd_iob p f h = h\<lparr>iobs := (iobs h)(p := map_option f (iobs h p))\<rparr>"

definition upd_info :: "nat \<Rightarrow> (sharedinfo \<Rightarrow> sharedinfo) \<Rightarrow> heap \<Rightarrow> heap" where
  "upd_info i f h = h\<lparr>infos := (infos h)(i := map_option f (infos h i))\<rparr>"

section \<open>The allocator and the memory functions\<close>

definition malloc :: "nat \<Rightarrow> heap \<Rightarrow> nat io" where
  "malloc n h = (if oom h n then Inl (BadAlloc, h)
     else Inr (brk h, h\<lparr>blks := (blks h)(brk h \<mapsto> replicate n (junk h)), brk := brk h + 1\<rparr>))"

definition free_blk :: "nat option \<Rightarrow> heap \<Rightarrow> unit io" where
  "free_blk b h = (case b of None \<Rightarrow> Inr ((), h) | Some b \<Rightarrow>
     if blks h b = None then Inl (UB, h) else Inr ((), h\<lparr>blks := (blks h)(b := None)\<rparr>))"

text \<open>Read and write \<open>n\<close> bytes of a block; \<open>memmove\<close> reads before it writes.\<close>

definition blk_read :: "nat option \<Rightarrow> nat \<Rightarrow> nat \<Rightarrow> heap \<Rightarrow> bytes io" where
  "blk_read b off n h = (case b of None \<Rightarrow> Inl (UB, h) | Some b \<Rightarrow> (case blks h b of
     None \<Rightarrow> Inl (UB, h)
   | Some xs \<Rightarrow> if off + n \<le> length xs then Inr (take n (drop off xs), h) else Inl (UB, h)))"

definition overwrite :: "nat \<Rightarrow> bytes \<Rightarrow> bytes \<Rightarrow> bytes" where
  "overwrite off ys xs = take off xs @ ys @ drop (off + length ys) xs"

definition blk_write :: "nat option \<Rightarrow> nat \<Rightarrow> bytes \<Rightarrow> heap \<Rightarrow> unit io" where
  "blk_write b off ys h = (case b of None \<Rightarrow> Inl (UB, h) | Some b \<Rightarrow> (case blks h b of
     None \<Rightarrow> Inl (UB, h)
   | Some xs \<Rightarrow> if off + length ys \<le> length xs
       then Inr ((), h\<lparr>blks := (blks h)(b \<mapsto> overwrite off ys xs)\<rparr>) else Inl (UB, h)))"

definition memmove :: "nat option \<Rightarrow> nat \<Rightarrow> nat \<Rightarrow> nat \<Rightarrow> heap \<Rightarrow> unit io" where
  "memmove b dst src n h = bindE (blk_read b src n h) (\<lambda>(ys, h). blk_write b dst ys h)"

section \<open>SharedInfo\<close>

text \<open>\<open>sizeof(SharedInfo)\<close>: two pointers, a 32-bit counter and a bool, padded.\<close>

definition sizeof_SharedInfo :: nat where
  "sizeof_SharedInfo = 24"

definition new_SharedInfo :: "free_fn option \<Rightarrow> nat \<Rightarrow> bool \<Rightarrow> sharedinfo" where
  "new_SharedInfo fn arg sep = \<lparr>freeFn = fn, userData = arg, refcount = 1,
     externallyShared = False, separate = sep\<rparr>"

definition alloc_info :: "sharedinfo \<Rightarrow> heap \<Rightarrow> nat \<times> heap" where
  "alloc_info s h = (brk h, h\<lparr>infos := (infos h)(brk h \<mapsto> s), brk := brk h + 1\<rparr>)"

section \<open>External buffers\<close>

text \<open>
  The request is a 64-bit \<open>size_t\<close>: the sum wraps. The record is stored in the last bytes
  of the allocation, so an allocation smaller than it is overrun by its constructor.
\<close>

definition goodExtBufferSize :: "u64 \<Rightarrow> u64" where
  "goodExtBufferSize minCapacity =
     (let minSize = minCapacity + of_nat sizeof_SharedInfo in (minSize + 7) AND NOT 7)"

definition initExtBuffer :: "nat \<Rightarrow> nat \<Rightarrow> heap \<Rightarrow> (nat \<times> nat) io" where
  "initExtBuffer b mallocSize h =
     (if mallocSize < sizeof_SharedInfo then Inl (UB, h)
      else
        let cap = mallocSize - sizeof_SharedInfo;
            h = h\<lparr>blks := (blks h)(b := map_option (take cap) (blks h b))\<rparr>;
            (i, h) = alloc_info (new_SharedInfo None 0 False) h
        in Inr ((i, cap), h))"

definition allocExtBuffer :: "nat \<Rightarrow> heap \<Rightarrow> (nat \<times> nat \<times> nat) io" where
  "allocExtBuffer minCapacity h =
     (let mallocSize = unat (goodExtBufferSize (of_nat minCapacity)) in
      bindE (malloc mallocSize h) (\<lambda>(b, h).
      bindE (initExtBuffer b mallocSize h) (\<lambda>((i, cap), h).
      Inr ((b, i, cap), h))))"

section \<open>Storage of IOBuf objects\<close>

definition kIOBufInUse :: u16 where
  "kIOBufInUse = 0x01"

definition kDataInUse :: u16 where
  "kDataInUse = 0x02"

text \<open>
  \<open>releaseStorage\<close>: clear the given flags, free the storage when none is left. The
  compare-and-exchange loop succeeds at once when no other thread runs. A storage that is
  gone has no magic number.
\<close>

definition releaseStorage :: "nat \<Rightarrow> u16 \<Rightarrow> heap \<Rightarrow> unit io" where
  "releaseStorage storage freeFlags h = (case stors h storage of
     None \<Rightarrow> Inl (UB, h)
   | Some flags \<Rightarrow>
       if flags AND freeFlags \<noteq> freeFlags then Inl (UB, h)
       else let newFlags = flags AND NOT freeFlags in
         if newFlags = 0 then Inr ((), h\<lparr>stors := (stors h)(storage := None)\<rparr>)
         else Inr ((), h\<lparr>stors := (stors h)(storage \<mapsto> newFlags)\<rparr>))"

text \<open>
  \<open>operator new\<close> and the placement of a freshly constructed IOBuf: \<open>sizeof(HeapStorage)\<close>
  bytes are requested. An IOBuf held by value takes a fresh address without storage.
\<close>

definition sizeof_HeapStorage :: nat where
  "sizeof_HeapStorage = 64"

definition place_iob :: "(nat \<Rightarrow> iobuf) \<Rightarrow> heap \<Rightarrow> nat \<times> heap" where
  "place_iob mk h = (brk h, h\<lparr>iobs := (iobs h)(brk h \<mapsto> mk (brk h)), brk := brk h + 1\<rparr>)"

definition operator_new :: "heap \<Rightarrow> unit io" where
  "operator_new h = (if oom h sizeof_HeapStorage then Inl (BadAlloc, h) else Inr ((), h))"

definition make_unique :: "(nat \<Rightarrow> iobuf) \<Rightarrow> heap \<Rightarrow> nat io" where
  "make_unique mk h = bindE (operator_new h) (\<lambda>(_, h).
     let (p, h) = place_iob mk h in Inr (p, h\<lparr>stors := (stors h)(p \<mapsto> kIOBufInUse)\<rparr>))"

end
