(* ===== verification/Acc_IOBuf.thy ===== *)
theory Acc_IOBuf
  imports Acc_IOBuf_Heap
begin

text \<open>
  The operations of \<open>IOBuf\<close> (\<open>src/accelerator/io/IOBuf.h\<close> and \<open>IOBuf.cpp\<close>) on the heap of
  \<^theory_text>\<open>Acc_IOBuf_Heap\<close>, in the order of the sources. The loops that visit a ring run over the
  list that \<open>chain\<close> collects by following \<open>next_\<close>.
\<close>

section \<open>One buffer\<close>

definition headroom :: "iobuf \<Rightarrow> nat" where
  "headroom n = data' n"

definition tailroom :: "iobuf \<Rightarrow> nat" where
  "tailroom n = capacity' n - (data' n + length' n)"

definition advance :: "nat \<Rightarrow> nat \<Rightarrow> heap \<Rightarrow> unit io" where
  "advance p amount h = bindE (iob h p) (\<lambda>(n, h).
     bindE (check (amount \<le> tailroom n) h) (\<lambda>(_, h).
     bindE (if length' n > 0 then memmove (buf' n) (data' n + amount) (data' n) (length' n) h
            else Inr ((), h)) (\<lambda>(_, h).
     Inr ((), upd_iob p (\<lambda>n. n\<lparr>data' := data' n + amount\<rparr>) h))))"

definition retreat :: "nat \<Rightarrow> nat \<Rightarrow> heap \<Rightarrow> unit io" where
  "retreat p amount h = bindE (iob h p) (\<lambda>(n, h).
     bindE (check (amount \<le> headroom n) h) (\<lambda>(_, h).
     bindE (if length' n > 0 then memmove (buf' n) (data' n - amount) (data' n) (length' n) h
            else Inr ((), h)) (\<lambda>(_, h).
     Inr ((), upd_iob p (\<lambda>n. n\<lparr>data' := data' n - amount\<rparr>) h))))"

definition prepend :: "nat \<Rightarrow> nat \<Rightarrow> heap \<Rightarrow> unit io" where
  "prepend p amount h = bindE (iob h p) (\<lambda>(n, h).
     bindE (check (amount \<le> headroom n) h) (\<lambda>(_, h).
     Inr ((), upd_iob p (\<lambda>n. n\<lparr>data' := data' n - amount, length' := length' n + amount\<rparr>) h)))"

definition append_buf :: "nat \<Rightarrow> nat \<Rightarrow> heap \<Rightarrow> unit io" where
  "append_buf p amount h = bindE (iob h p) (\<lambda>(n, h).
     bindE (check (amount \<le> tailroom n) h) (\<lambda>(_, h).
     Inr ((), upd_iob p (\<lambda>n. n\<lparr>length' := length' n + amount\<rparr>) h)))"

definition trimStart :: "nat \<Rightarrow> nat \<Rightarrow> heap \<Rightarrow> unit io" where
  "trimStart p amount h = bindE (iob h p) (\<lambda>(n, h).
     bindE (check (amount \<le> length' n) h) (\<lambda>(_, h).
     Inr ((), upd_iob p (\<lambda>n. n\<lparr>data' := data' n + amount, length' := length' n - amount\<rparr>) h)))"

definition trimEnd :: "nat \<Rightarrow> nat \<Rightarrow> heap \<Rightarrow> unit io" where
  "trimEnd p amount h = bindE (iob h p) (\<lambda>(n, h).
     bindE (check (amount \<le> length' n) h) (\<lambda>(_, h).
     Inr ((), upd_iob p (\<lambda>n. n\<lparr>length' := length' n - amount\<rparr>) h)))"

definition clear :: "nat \<Rightarrow> heap \<Rightarrow> unit io" where
  "clear p h = bindE (iob h p) (\<lambda>(n, h).
     Inr ((), upd_iob p (\<lambda>n. n\<lparr>data' := 0, length' := 0\<rparr>) h))"

section \<open>Reference counts\<close>

text \<open>\<open>delete sharedInfo()\<close>: only a record that lives alone may be deleted.\<close>

definition delete_info :: "nat \<Rightarrow> heap \<Rightarrow> unit io" where
  "delete_info i h = bindE (info h i) (\<lambda>(s, h).
     bindE (check (separate s) h) (\<lambda>(_, h). Inr ((), h\<lparr>infos := (infos h)(i := None)\<rparr>)))"

text \<open>
  \<open>freeExtBuffer\<close>: the user's function (logged), \<open>freeInternalBuf\<close>, or \<open>free\<close>. A record
  inside the freed storage dies with it.
\<close>

definition freeExtBuffer :: "nat \<Rightarrow> heap \<Rightarrow> unit io" where
  "freeExtBuffer p h = bindE (iob h p) (\<lambda>(n, h). case sharedInfo n of
     None \<Rightarrow> Inl (UB, h)
   | Some i \<Rightarrow> bindE (info h i) (\<lambda>(s, h).
       bindE (free_blk (buf' n) h) (\<lambda>(_, h).
       let h = (if separate s then h else h\<lparr>infos := (infos h)(i := None)\<rparr>) in
       (case freeFn s of
          None \<Rightarrow> Inr ((), h)
        | Some (FreeUser f) \<Rightarrow> Inr ((), h\<lparr>calls := (f, buf' n, userData s) # calls h\<rparr>)
        | Some FreeInternalBuf \<Rightarrow> releaseStorage (userData s) kDataInUse h))))"

definition decrementRefcount :: "nat \<Rightarrow> heap \<Rightarrow> unit io" where
  "decrementRefcount p h = bindE (iob h p) (\<lambda>(n, h). case sharedInfo n of
     None \<Rightarrow> Inr ((), h)
   | Some i \<Rightarrow> bindE (info h i) (\<lambda>(s, h).
       let newcnt = refcount s;
           h = upd_info i (\<lambda>s. s\<lparr>refcount := refcount s - 1\<rparr>) h in
       if newcnt > 1 then Inr ((), h)
       else bindE (freeExtBuffer p h) (\<lambda>(_, h).
         if kFlagFreeSharedInfo n then delete_info i h else Inr ((), h))))"

section \<open>Construction\<close>

text \<open>\<open>InternalConstructor\<close>: an unchained IOBuf with the given fields.\<close>

definition mk_iobuf ::
  "nat option \<Rightarrow> bool \<Rightarrow> bool \<Rightarrow> nat option \<Rightarrow> nat \<Rightarrow> nat \<Rightarrow> nat \<Rightarrow> nat \<Rightarrow> iobuf" where
  "mk_iobuf i maybe_shared free_info b capacity data len this =
     \<lparr>next' = this, prev' = this, data' = data, buf' = b, length' = len,
      capacity' = capacity, sharedInfo = i, kFlagMaybeShared = maybe_shared,
      kFlagFreeSharedInfo = free_info\<rparr>"

text \<open>
  \<open>createSeparate\<close>: an external buffer and a heap-allocated IOBuf, and the constructor
  \<open>IOBuf(CREATE, capacity)\<close> for an IOBuf held by value. When the constructor throws, the
  storage obtained by \<open>operator new\<close> is released.
\<close>

definition createSeparate :: "nat \<Rightarrow> heap \<Rightarrow> nat io" where
  "createSeparate capacity h = bindE (operator_new h) (\<lambda>(_, h).
     bindE (allocExtBuffer capacity h) (\<lambda>((b, i, cap), h).
     make_unique (mk_iobuf (Some i) False False (Some b) cap 0 0) h))"

definition IOBuf_CREATE :: "nat \<Rightarrow> heap \<Rightarrow> nat io" where
  "IOBuf_CREATE capacity h = bindE (allocExtBuffer capacity h) (\<lambda>((b, i, cap), h).
     Inr (place_iob (mk_iobuf (Some i) False False (Some b) cap 0 0) h))"

definition kDefaultCombinedBufSize :: nat where
  "kDefaultCombinedBufSize = 1024"

text \<open>\<open>offsetof(HeapFullStorage, align)\<close>.\<close>

definition offsetof_align :: nat where
  "offsetof_align = 96"

text \<open>
  \<open>createCombined\<close>: one allocation for all three parts. The result of \<open>malloc\<close> is not
  tested, so a null result is written through.
\<close>

definition createCombined :: "nat \<Rightarrow> heap \<Rightarrow> nat io" where
  "createCombined capacity h =
     (let mallocSize = unat (of_nat offsetof_align + of_nat capacity :: u64) in
      if oom h mallocSize \<or> mallocSize < offsetof_align then Inl (UB, h)
      else
        let actualCapacity = mallocSize - offsetof_align;
            b = brk h;
            h = h\<lparr>blks := (blks h)(b \<mapsto> replicate actualCapacity (junk h)), brk := b + 1\<rparr>;
            i = brk h;
            p = brk h + 1;
            h = h\<lparr>infos := (infos h)(i \<mapsto> new_SharedInfo (Some FreeInternalBuf) p False),
                  brk := i + 1\<rparr>;
            (p, h) = place_iob (mk_iobuf (Some i) False False (Some b) actualCapacity 0 0) h
        in Inr (p, h\<lparr>stors := (stors h)(p \<mapsto> kIOBufInUse OR kDataInUse)\<rparr>))"

definition create :: "nat \<Rightarrow> heap \<Rightarrow> nat io" where
  "create capacity h =
     (if capacity \<le> kDefaultCombinedBufSize then createCombined capacity h
      else createSeparate capacity h)"

text \<open>\<open>takeOwnershipError\<close>, and \<open>takeOwnership\<close> of a block that the caller gives up.\<close>

definition takeOwnershipError :: "bool \<Rightarrow> nat \<Rightarrow> free_fn option \<Rightarrow> nat \<Rightarrow> heap \<Rightarrow> unit io" where
  "takeOwnershipError freeOnError b fn arg h =
     (if \<not> freeOnError then Inr ((), h)
      else bindE (free_blk (Some b) h) (\<lambda>(_, h). case fn of
        Some (FreeUser f) \<Rightarrow> Inr ((), h\<lparr>calls := (f, Some b, arg) # calls h\<rparr>)
      | _ \<Rightarrow> Inr ((), h)))"

definition takeOwnership ::
  "nat \<Rightarrow> nat \<Rightarrow> nat \<Rightarrow> nat option \<Rightarrow> nat \<Rightarrow> bool \<Rightarrow> heap \<Rightarrow> nat io" where
  "takeOwnership b capacity len fn arg freeOnError h =
     (let ff = map_option FreeUser fn in
      if oom h sizeof_HeapStorage \<or> oom h sizeof_SharedInfo
      then bindE (takeOwnershipError freeOnError b ff arg h) (\<lambda>(_, h). Inl (BadAlloc, h))
      else
        let (i, h) = alloc_info (new_SharedInfo ff arg True) h
        in make_unique (mk_iobuf (Some i) False True (Some b) capacity 0 len) h)"

definition wrapBuffer :: "nat \<Rightarrow> nat \<Rightarrow> heap \<Rightarrow> nat io" where
  "wrapBuffer b capacity h = make_unique (mk_iobuf None False False (Some b) capacity 0 capacity) h"

text \<open>The capacity is a sum of three \<open>uint64_t\<close>, which wraps.\<close>

definition copyBuffer :: "bytes \<Rightarrow> nat \<Rightarrow> nat \<Rightarrow> heap \<Rightarrow> nat io" where
  "copyBuffer xs hroom minTailroom h =
     bindE (create (nat (int (hroom + length xs + minTailroom) mod 2 ^ 64)) h) (\<lambda>(p, h).
     bindE (advance p hroom h) (\<lambda>(_, h).
     bindE (iob h p) (\<lambda>(n, h).
     bindE (if xs \<noteq> [] then blk_write (buf' n) (data' n) xs h else Inr ((), h)) (\<lambda>(_, h).
     bindE (append_buf p (length xs) h) (\<lambda>(_, h).
     Inr (p, h))))))"

lemma copyBuffer_unwrapped:
  "hroom + length xs + minTailroom < 2 ^ 64 \<Longrightarrow> copyBuffer xs hroom minTailroom h =
     bindE (create (hroom + length xs + minTailroom) h) (\<lambda>(p, h).
     bindE (advance p hroom h) (\<lambda>(_, h).
     bindE (iob h p) (\<lambda>(n, h).
     bindE (if xs \<noteq> [] then blk_write (buf' n) (data' n) xs h else Inr ((), h)) (\<lambda>(_, h).
     bindE (append_buf p (length xs) h) (\<lambda>(_, h).
     Inr (p, h))))))"
  by (simp add: copyBuffer_def nat_add_distrib)

definition maybeCopyBuffer :: "bytes \<Rightarrow> nat \<Rightarrow> nat \<Rightarrow> heap \<Rightarrow> nat option io" where
  "maybeCopyBuffer xs hroom minTailroom h =
     (if xs = [] then Inr (None, h)
      else bindE (copyBuffer xs hroom minTailroom h) (\<lambda>(p, h). Inr (Some p, h)))"

section \<open>Rings\<close>

text \<open>
  Following \<open>next_\<close> until the ring closes. The fuel, one unit per node, is the number of
  addresses ever handed out; running out of it is a ring that never returns to its start.
\<close>

fun walk :: "nat \<Rightarrow> heap \<Rightarrow> nat \<Rightarrow> nat \<Rightarrow> nat list option" where
  "walk 0 h this current = None"
| "walk (Suc fuel) h this current =
     (if current = this then Some []
      else case iobs h current of
        None \<Rightarrow> None
      | Some n \<Rightarrow> map_option ((#) current) (walk fuel h this (next' n)))"

definition chain_opt :: "heap \<Rightarrow> nat \<Rightarrow> nat list option" where
  "chain_opt h p = (case iobs h p of
     None \<Rightarrow> None | Some n \<Rightarrow> map_option ((#) p) (walk (brk h) h p (next' n)))"

definition chain :: "heap \<Rightarrow> nat \<Rightarrow> nat list io" where
  "chain h p = (case chain_opt h p of None \<Rightarrow> Inl (UB, h) | Some ps \<Rightarrow> Inr (ps, h))"

definition isChained :: "nat \<Rightarrow> heap \<Rightarrow> bool io" where
  "isChained p h = bindE (iob h p) (\<lambda>(n, h).
     bindE (check ((next' n = p) = (prev' n = p)) h) (\<lambda>(_, h). Inr (next' n \<noteq> p, h)))"

definition node :: "heap \<Rightarrow> nat \<Rightarrow> iobuf" where
  "node h p = the (iobs h p)"

definition empty_buf :: "nat \<Rightarrow> heap \<Rightarrow> bool io" where
  "empty_buf p h = bindE (chain h p) (\<lambda>(ps, h).
     Inr (list_all (\<lambda>q. length' (node h q) = 0) ps, h))"

definition countChainElements :: "nat \<Rightarrow> heap \<Rightarrow> nat io" where
  "countChainElements p h = bindE (chain h p) (\<lambda>(ps, h). Inr (length ps, h))"

definition computeChainDataLength :: "nat \<Rightarrow> heap \<Rightarrow> nat io" where
  "computeChainDataLength p h = bindE (chain h p) (\<lambda>(ps, h).
     Inr (sum_list (map (\<lambda>q. length' (node h q)) ps), h))"

definition set_next :: "nat \<Rightarrow> nat \<Rightarrow> heap \<Rightarrow> heap" where
  "set_next p q = upd_iob p (\<lambda>n. n\<lparr>next' := q\<rparr>)"

definition set_prev :: "nat \<Rightarrow> nat \<Rightarrow> heap \<Rightarrow> heap" where
  "set_prev p q = upd_iob p (\<lambda>n. n\<lparr>prev' := q\<rparr>)"

definition prependChain :: "nat \<Rightarrow> nat \<Rightarrow> heap \<Rightarrow> unit io" where
  "prependChain this other h =
     bindE (iob h this) (\<lambda>(t, h).
     bindE (iob h other) (\<lambda>(oth, h).
     let otherTail = prev' oth in
     bindE (iob h (prev' t)) (\<lambda>(_, h).
     bindE (iob h otherTail) (\<lambda>(_, h).
     let h = set_next (prev' t) other h;
         h = set_prev other (prev' t) h;
         h = set_next otherTail this h;
         h = set_prev this otherTail h
     in Inr ((), h)))))"

definition appendChain :: "nat \<Rightarrow> nat \<Rightarrow> heap \<Rightarrow> unit io" where
  "appendChain this other h =
     bindE (iob h this) (\<lambda>(t, h). prependChain (next' t) other h)"

definition unlink :: "nat \<Rightarrow> heap \<Rightarrow> nat io" where
  "unlink this h = bindE (iob h this) (\<lambda>(t, h).
     bindE (iob h (next' t)) (\<lambda>(_, h).
     bindE (iob h (prev' t)) (\<lambda>(_, h).
     let h = set_prev (next' t) (prev' t) h;
         h = set_next (prev' t) (next' t) h;
         h = set_prev this this h;
         h = set_next this this h
     in Inr (this, h))))"

definition pop :: "nat \<Rightarrow> heap \<Rightarrow> nat option io" where
  "pop this h = bindE (iob h this) (\<lambda>(t, h).
     let next = next' t in
     bindE (unlink this h) (\<lambda>(_, h). Inr (if next = this then None else Some next, h)))"

definition separateChain :: "nat \<Rightarrow> nat \<Rightarrow> nat \<Rightarrow> heap \<Rightarrow> nat io" where
  "separateChain this head tail h =
     bindE (check (head \<noteq> this \<and> tail \<noteq> this) h) (\<lambda>(_, h).
     bindE (iob h head) (\<lambda>(hd_n, h).
     bindE (iob h tail) (\<lambda>(tl_n, h).
     bindE (iob h (prev' hd_n)) (\<lambda>(_, h).
     bindE (iob h (next' tl_n)) (\<lambda>(_, h).
     let h = set_next (prev' hd_n) (next' tl_n) h;
         h = set_prev (next' tl_n) (prev' hd_n) h;
         h = set_prev head tail h;
         h = set_next tail head h
     in Inr (head, h))))))"

section \<open>Destruction\<close>

text \<open>
  The end of an unchained IOBuf: its reference is dropped and the object is gone. A chain
  element is heap-allocated, so \<open>operator delete\<close> then releases its storage.
\<close>

definition end_iob :: "nat \<Rightarrow> heap \<Rightarrow> unit io" where
  "end_iob p h = bindE (decrementRefcount p h) (\<lambda>(_, h). Inr ((), h\<lparr>iobs := (iobs h)(p := None)\<rparr>))"

definition delete_one :: "nat \<Rightarrow> heap \<Rightarrow> unit io" where
  "delete_one p h = bindE (end_iob p h) (\<lambda>(_, h). releaseStorage p kIOBufInUse h)"

text \<open>The loop of \<open>~IOBuf\<close> that unlinks and deletes \<open>next_\<close> until the object is alone.\<close>

fun delete_rest :: "nat \<Rightarrow> nat \<Rightarrow> heap \<Rightarrow> unit io" where
  "delete_rest 0 p h = Inl (UB, h)"
| "delete_rest (Suc fuel) p h = bindE (iob h p) (\<lambda>(n, h).
     if next' n = p then Inr ((), h)
     else bindE (unlink (next' n) h) (\<lambda>(q, h).
       bindE (delete_one q h) (\<lambda>(_, h). delete_rest fuel p h)))"

definition destructor :: "nat \<Rightarrow> heap \<Rightarrow> unit io" where
  "destructor p h = bindE (delete_rest (brk h) p h) (\<lambda>(_, h). end_iob p h)"

text \<open>Deleting the head of a chain through its \<open>unique_ptr\<close>.\<close>

definition delete_iob :: "nat \<Rightarrow> heap \<Rightarrow> unit io" where
  "delete_iob p h = bindE (destructor p h) (\<lambda>(_, h). releaseStorage p kIOBufInUse h)"

text \<open>
  \<open>createChain\<close>: buffers of at most \<open>maxBufCapacity\<close> until the requested total is reached. The
  loop may run forever, so its result is an option and its fuel bounds the iterations. When
  \<open>create\<close> throws, the partial chain is deleted.
\<close>

fun createChain_loop :: "nat \<Rightarrow> nat \<Rightarrow> nat \<Rightarrow> nat \<Rightarrow> nat \<Rightarrow> heap \<Rightarrow> unit io option" where
  "createChain_loop 0 out allocatedCapacity totalCapacity maxBufCapacity h = None"
| "createChain_loop (Suc fuel) out allocatedCapacity totalCapacity maxBufCapacity h =
     (if allocatedCapacity < totalCapacity then
        (case create (min (totalCapacity - allocatedCapacity) maxBufCapacity) h of
           Inl (e, h) \<Rightarrow> Some (bindE (delete_iob out h) (\<lambda>(_, h). Inl (e, h)))
         | Inr (newBuf, h) \<Rightarrow> (case iobs h newBuf of
             None \<Rightarrow> Some (Inl (UB, h))
           | Some n \<Rightarrow> (case prependChain out newBuf h of
               Inl e \<Rightarrow> Some (Inl e)
             | Inr (_, h) \<Rightarrow> createChain_loop fuel out (allocatedCapacity + capacity' n)
                 totalCapacity maxBufCapacity h)))
      else Some (Inr ((), h)))"

definition createChain :: "nat \<Rightarrow> nat \<Rightarrow> nat \<Rightarrow> heap \<Rightarrow> nat io option" where
  "createChain fuel totalCapacity maxBufCapacity h =
     (case create (min totalCapacity maxBufCapacity) h of
        Inl e \<Rightarrow> Some (Inl e)
      | Inr (out, h) \<Rightarrow> (case iobs h out of
          None \<Rightarrow> Some (Inl (UB, h))
        | Some n \<Rightarrow> map_option (\<lambda>r. bindE r (\<lambda>(_, h). Inr (out, h)))
            (createChain_loop fuel out (capacity' n) totalCapacity maxBufCapacity h)))"

section \<open>Moves\<close>

text \<open>
  \<open>take_over this other\<close>: the common part of the move constructor and the move assignment.
  The fields of \<open>other\<close> are taken, \<open>other\<close> is reset, and its chain is hooked to \<open>this\<close>.
\<close>

definition take_over :: "nat \<Rightarrow> nat \<Rightarrow> heap \<Rightarrow> unit io" where
  "take_over this other h = bindE (iob h other) (\<lambda>(oth, h).
     let h = upd_iob this (\<lambda>n. n\<lparr>data' := data' oth, buf' := buf' oth, length' := length' oth,
               capacity' := capacity' oth, sharedInfo := sharedInfo oth,
               kFlagMaybeShared := kFlagMaybeShared oth,
               kFlagFreeSharedInfo := kFlagFreeSharedInfo oth\<rparr>) h;
         h = upd_iob other (\<lambda>n. n\<lparr>data' := 0, buf' := None, length' := 0, capacity' := 0,
               sharedInfo := None, kFlagMaybeShared := False,
               kFlagFreeSharedInfo := False\<rparr>) h in
     if next' oth \<noteq> other then
       bindE (iob h (next' oth)) (\<lambda>(_, h).
       bindE (iob h (prev' oth)) (\<lambda>(_, h).
       let h = set_next this (next' oth) h;
           h = set_prev (next' oth) this h;
           h = set_next other other h;
           h = set_prev this (prev' oth) h;
           h = set_next (prev' oth) this h;
           h = set_prev other other h
       in Inr ((), h)))
     else Inr ((), h))"

text \<open>The default constructor, and the move constructor into an IOBuf held by value.\<close>

definition empty_iobuf :: "nat \<Rightarrow> iobuf" where
  "empty_iobuf this = mk_iobuf None False False None 0 0 0 this"

definition move_construct :: "nat \<Rightarrow> heap \<Rightarrow> nat io" where
  "move_construct other h =
     (let (this, h) = place_iob empty_iobuf h in
      bindE (take_over this other h) (\<lambda>(_, h). Inr (this, h)))"

text \<open>\<open>operator=(IOBuf&&)\<close>.\<close>

definition move_assign :: "nat \<Rightarrow> nat \<Rightarrow> heap \<Rightarrow> unit io" where
  "move_assign this other h =
     (if this = other then Inr ((), h)
      else bindE (delete_rest (brk h) this h) (\<lambda>(_, h).
        bindE (decrementRefcount this h) (\<lambda>(_, h). take_over this other h)))"

text \<open>\<open>make_unique<IOBuf>(value)\<close>: the temporary is moved into heap storage and destroyed.\<close>

definition make_unique_move :: "nat \<Rightarrow> heap \<Rightarrow> nat io" where
  "make_unique_move v h = (case operator_new h of
     Inl (e, h) \<Rightarrow> bindE (destructor v h) (\<lambda>(_, h). Inl (e, h))
   | Inr (_, h) \<Rightarrow>
       bindE (move_construct v h) (\<lambda>(p, h).
       bindE (destructor v (h\<lparr>stors := (stors h)(p \<mapsto> kIOBufInUse)\<rparr>)) (\<lambda>(_, h). Inr (p, h))))"

section \<open>Cloning\<close>

definition cloneOneAsValue :: "nat \<Rightarrow> heap \<Rightarrow> nat io" where
  "cloneOneAsValue p h = bindE (iob h p) (\<lambda>(n, h).
     bindE (case sharedInfo n of
        None \<Rightarrow> Inr ((), h)
      | Some i \<Rightarrow> bindE (info h i) (\<lambda>(_, h).
          Inr ((), upd_info i (\<lambda>s. s\<lparr>refcount := refcount s + 1\<rparr>)
                     (upd_iob p (\<lambda>n. n\<lparr>kFlagMaybeShared := True\<rparr>) h)))) (\<lambda>(_, h).
     bindE (iob h p) (\<lambda>(n, h).
     Inr (place_iob (mk_iobuf (sharedInfo n) (kFlagMaybeShared n) (kFlagFreeSharedInfo n)
            (buf' n) (capacity' n) (data' n) (length' n)) h))))"

definition cloneOne :: "nat \<Rightarrow> heap \<Rightarrow> nat io" where
  "cloneOne p h = bindE (cloneOneAsValue p h) (\<lambda>(v, h). make_unique_move v h)"

text \<open>The loop of \<open>cloneAsValue\<close>; a throwing \<open>cloneOne\<close> destroys the partial result.\<close>

fun clone_loop :: "nat \<Rightarrow> nat list \<Rightarrow> heap \<Rightarrow> unit io" where
  "clone_loop tmp [] h = Inr ((), h)"
| "clone_loop tmp (current # ps) h = (case cloneOne current h of
     Inl (e, h) \<Rightarrow> bindE (destructor tmp h) (\<lambda>(_, h). Inl (e, h))
   | Inr (q, h) \<Rightarrow> bindE (prependChain tmp q h) (\<lambda>(_, h). clone_loop tmp ps h))"

definition cloneAsValue :: "nat \<Rightarrow> heap \<Rightarrow> nat io" where
  "cloneAsValue p h = bindE (cloneOneAsValue p h) (\<lambda>(tmp, h).
     bindE (chain h p) (\<lambda>(ps, h).
     bindE (clone_loop tmp (tl ps) h) (\<lambda>(_, h). Inr (tmp, h))))"

definition clone :: "nat \<Rightarrow> heap \<Rightarrow> nat io" where
  "clone p h = bindE (cloneAsValue p h) (\<lambda>(v, h). make_unique_move v h)"

definition cloneInto :: "nat \<Rightarrow> nat \<Rightarrow> heap \<Rightarrow> unit io" where
  "cloneInto p other h = bindE (cloneAsValue p h) (\<lambda>(v, h).
     bindE (move_assign other v h) (\<lambda>(_, h). destructor v h))"

text \<open>The copy loop of \<open>cloneCoalescedAsValue\<close> into the new IOBuf \<open>v\<close>.\<close>

fun clone_copy :: "nat \<Rightarrow> nat list \<Rightarrow> heap \<Rightarrow> unit io" where
  "clone_copy v [] h = Inr ((), h)"
| "clone_copy v (current # ps) h = bindE (iob h current) (\<lambda>(n, h).
     if length' n > 0 then
       bindE (iob h v) (\<lambda>(m, h).
       bindE (check (length' n \<le> tailroom m) h) (\<lambda>(_, h).
       bindE (blk_read (buf' n) (data' n) (length' n) h) (\<lambda>(xs, h).
       bindE (blk_write (buf' m) (data' m + length' m) xs h) (\<lambda>(_, h).
       bindE (append_buf v (length' n) h) (\<lambda>(_, h). clone_copy v ps h)))))
     else clone_copy v ps h)"

definition cloneCoalescedAsValue :: "nat \<Rightarrow> heap \<Rightarrow> nat io" where
  "cloneCoalescedAsValue p h = bindE (isChained p h) (\<lambda>(c, h).
     if \<not> c then cloneOneAsValue p h
     else bindE (computeChainDataLength p h) (\<lambda>(newLength, h).
       bindE (iob h p) (\<lambda>(n, h).
       bindE (iob h (prev' n)) (\<lambda>(l, h).
       bindE (IOBuf_CREATE (newLength + headroom n + tailroom l) h) (\<lambda>(v, h).
       bindE (advance v (headroom n) h) (\<lambda>(_, h).
       bindE (chain h p) (\<lambda>(ps, h).
       bindE (clone_copy v ps h) (\<lambda>(_, h).
       bindE (iob h v) (\<lambda>(m, h).
       bindE (check (newLength = length' m \<and> headroom n = headroom m \<and> tailroom l \<le> tailroom m) h)
         (\<lambda>(_, h). Inr (v, h)))))))))))"

definition cloneCoalesced :: "nat \<Rightarrow> heap \<Rightarrow> nat io" where
  "cloneCoalesced p h = bindE (cloneCoalescedAsValue p h) (\<lambda>(v, h). make_unique_move v h)"

section \<open>Sharing\<close>

definition isManagedOne :: "iobuf \<Rightarrow> bool" where
  "isManagedOne n \<longleftrightarrow> sharedInfo n \<noteq> None"

definition isManaged :: "nat \<Rightarrow> heap \<Rightarrow> bool io" where
  "isManaged p h = bindE (chain h p) (\<lambda>(ps, h).
     Inr (list_all (\<lambda>q. isManagedOne (node h q)) ps, h))"

definition isSharedOne :: "nat \<Rightarrow> heap \<Rightarrow> bool io" where
  "isSharedOne p h = bindE (iob h p) (\<lambda>(n, h). case sharedInfo n of
     None \<Rightarrow> Inr (True, h)
   | Some i \<Rightarrow> bindE (info h i) (\<lambda>(s, h).
       if externallyShared s then Inr (True, h)
       else if \<not> kFlagMaybeShared n then Inr (False, h)
       else
         let shared = refcount s > 1 in
         Inr (shared, if shared then h else upd_iob p (\<lambda>n. n\<lparr>kFlagMaybeShared := False\<rparr>) h)))"

text \<open>\<open>isShared\<close> stops at the first shared element; the loop of \<open>unshareChained\<close> is the same.\<close>

fun any_shared :: "nat list \<Rightarrow> heap \<Rightarrow> bool io" where
  "any_shared [] h = Inr (False, h)"
| "any_shared (p # ps) h = bindE (isSharedOne p h) (\<lambda>(b, h).
     if b then Inr (True, h) else any_shared ps h)"

definition isShared :: "nat \<Rightarrow> heap \<Rightarrow> bool io" where
  "isShared p h = bindE (chain h p) (\<lambda>(ps, h). any_shared ps h)"

definition markExternallySharedOne :: "nat \<Rightarrow> heap \<Rightarrow> unit io" where
  "markExternallySharedOne p h = bindE (iob h p) (\<lambda>(n, h). case sharedInfo n of
     None \<Rightarrow> Inr ((), h)
   | Some i \<Rightarrow> bindE (info h i) (\<lambda>(_, h).
       Inr ((), upd_info i (\<lambda>s. s\<lparr>externallyShared := True\<rparr>) h)))"

fun for_each :: "(nat \<Rightarrow> heap \<Rightarrow> unit io) \<Rightarrow> nat list \<Rightarrow> heap \<Rightarrow> unit io" where
  "for_each f [] h = Inr ((), h)"
| "for_each f (p # ps) h = bindE (f p h) (\<lambda>(_, h). for_each f ps h)"

definition markExternallyShared :: "nat \<Rightarrow> heap \<Rightarrow> unit io" where
  "markExternallyShared p h = bindE (chain h p) (\<lambda>(ps, h). for_each markExternallySharedOne ps h)"

definition unshareOneSlow :: "nat \<Rightarrow> heap \<Rightarrow> unit io" where
  "unshareOneSlow p h = bindE (iob h p) (\<lambda>(n, h).
     bindE (allocExtBuffer (capacity' n) h) (\<lambda>((b, i, actualCapacity), h).
     let headlen = headroom n in
     bindE (if length' n > 0
            then bindE (blk_read (buf' n) (data' n) (length' n) h) (\<lambda>(xs, h).
                   blk_write (Some b) headlen xs h)
            else Inr ((), h)) (\<lambda>(_, h).
     bindE (decrementRefcount p h) (\<lambda>(_, h).
     Inr ((), upd_iob p (\<lambda>n. n\<lparr>sharedInfo := Some i, kFlagMaybeShared := False,
       kFlagFreeSharedInfo := False, data' := headlen, buf' := Some b\<rparr>) h)))))"

definition unshareOne :: "nat \<Rightarrow> heap \<Rightarrow> unit io" where
  "unshareOne p h = bindE (isSharedOne p h) (\<lambda>(b, h).
     if b then unshareOneSlow p h else Inr ((), h))"

definition makeManagedOne :: "nat \<Rightarrow> heap \<Rightarrow> unit io" where
  "makeManagedOne p h = bindE (iob h p) (\<lambda>(n, h).
     if isManagedOne n then Inr ((), h) else unshareOneSlow p h)"

definition makeManaged :: "nat \<Rightarrow> heap \<Rightarrow> unit io" where
  "makeManaged p h = bindE (isChained p h) (\<lambda>(c, h).
     if c then bindE (chain h p) (\<lambda>(ps, h). for_each makeManagedOne ps h)
     else makeManagedOne p h)"

section \<open>Coalescing\<close>

text \<open>The copy loop of \<open>coalesceAndReallocate\<close>, from \<open>this\<close> up to \<open>end\<close>.\<close>

fun copy_loop :: "nat list \<Rightarrow> nat \<Rightarrow> nat \<Rightarrow> nat \<Rightarrow> heap \<Rightarrow> nat io" where
  "copy_loop [] newBuf p remaining h = Inr (remaining, h)"
| "copy_loop (current # ps) newBuf p remaining h = bindE (iob h current) (\<lambda>(n, h).
     if length' n > 0 then
       bindE (check (length' n \<le> remaining) h) (\<lambda>(_, h).
       bindE (blk_read (buf' n) (data' n) (length' n) h) (\<lambda>(xs, h).
       bindE (blk_write (Some newBuf) p xs h) (\<lambda>(_, h).
       copy_loop ps newBuf (p + length' n) (remaining - length' n) h)))
     else copy_loop ps newBuf p remaining h)"

text \<open>The elements from \<open>this\<close> up to, and without, \<open>end\<close>; all of them when \<open>end\<close> is \<open>this\<close>.\<close>

definition upto_end :: "nat \<Rightarrow> nat \<Rightarrow> nat list \<Rightarrow> nat list" where
  "upto_end this fin ps = (if fin = this then ps else takeWhile (\<lambda>q. q \<noteq> fin) ps)"

definition coalesceAndReallocate :: "nat \<Rightarrow> nat \<Rightarrow> nat \<Rightarrow> nat \<Rightarrow> nat \<Rightarrow> heap \<Rightarrow> unit io" where
  "coalesceAndReallocate this newHeadroom newLength fin newTailroom h =
     bindE (allocExtBuffer (newLength + newHeadroom + newTailroom) h)
       (\<lambda>((newBuf, newInfo, actualCapacity), h).
     bindE (chain h this) (\<lambda>(ps, h).
     bindE (copy_loop (upto_end this fin ps) newBuf newHeadroom newLength h) (\<lambda>(remaining, h).
     bindE (check (remaining = 0) h) (\<lambda>(_, h).
     bindE (decrementRefcount this h) (\<lambda>(_, h).
     let h = upd_iob this (\<lambda>n. n\<lparr>sharedInfo := Some newInfo, kFlagMaybeShared := False,
               kFlagFreeSharedInfo := False, capacity' := actualCapacity,
               buf' := Some newBuf, data' := newHeadroom, length' := newLength\<rparr>) h in
     bindE (isChained this h) (\<lambda>(chained, h).
     if chained then
       bindE (iob h this) (\<lambda>(n, h).
       bindE (iob h fin) (\<lambda>(e, h).
       bindE (separateChain this (next' n) (prev' e) h) (\<lambda>(head, h). delete_iob head h)))
     else Inr ((), h)))))))"

text \<open>The overload that keeps this headroom and the tailroom of the last element copied.\<close>

definition coalesceAndReallocate2 :: "nat \<Rightarrow> nat \<Rightarrow> nat \<Rightarrow> heap \<Rightarrow> unit io" where
  "coalesceAndReallocate2 this newLength fin h =
     bindE (iob h this) (\<lambda>(n, h).
     bindE (iob h fin) (\<lambda>(e, h).
     bindE (iob h (prev' e)) (\<lambda>(l, h).
     coalesceAndReallocate this (headroom n) newLength fin (tailroom l) h)))"

definition coalesceSlow :: "nat \<Rightarrow> heap \<Rightarrow> unit io" where
  "coalesceSlow p h = bindE (isChained p h) (\<lambda>(c, h).
     bindE (check c h) (\<lambda>(_, h).
     bindE (computeChainDataLength p h) (\<lambda>(newLength, h).
     bindE (coalesceAndReallocate2 p newLength p h) (\<lambda>(_, h).
     bindE (isChained p h) (\<lambda>(c, h). check (\<not> c) h)))))"

text \<open>The loop of \<open>coalesceSlow(maxLength)\<close>: the gathered length and the element behind it.\<close>

fun gather_loop :: "nat \<Rightarrow> nat \<Rightarrow> nat \<Rightarrow> nat list \<Rightarrow> heap \<Rightarrow> (nat \<times> nat) io" where
  "gather_loop this maxLength newLength [] h = Inl (OverflowError, h)"
| "gather_loop this maxLength newLength (q # ps) h =
     (let newLength = newLength + length' (node h q) in
      if maxLength \<le> newLength then Inr ((newLength, next' (node h q)), h)
      else gather_loop this maxLength newLength ps h)"

definition coalesceSlow_max :: "nat \<Rightarrow> nat \<Rightarrow> heap \<Rightarrow> unit io" where
  "coalesceSlow_max p maxLength h = bindE (isChained p h) (\<lambda>(c, h).
     bindE (iob h p) (\<lambda>(n, h).
     bindE (check (c \<and> length' n < maxLength) h) (\<lambda>(_, h).
     bindE (chain h p) (\<lambda>(ps, h).
     bindE (gather_loop p maxLength 0 ps h) (\<lambda>((newLength, fin), h).
     bindE (coalesceAndReallocate2 p newLength fin h) (\<lambda>(_, h).
     bindE (iob h p) (\<lambda>(n, h). check (maxLength \<le> length' n) h)))))))"

text \<open>\<open>coalesce\<close> returns the block, offset and length of the one remaining buffer.\<close>

definition coalesce :: "nat \<Rightarrow> heap \<Rightarrow> (nat option \<times> nat \<times> nat) io" where
  "coalesce p h = bindE (isChained p h) (\<lambda>(c, h).
     bindE (if c then coalesceSlow p h else Inr ((), h)) (\<lambda>(_, h).
     bindE (iob h p) (\<lambda>(n, h). Inr ((buf' n, data' n, length' n), h))))"

definition gather :: "nat \<Rightarrow> nat \<Rightarrow> heap \<Rightarrow> unit io" where
  "gather p maxLength h = bindE (isChained p h) (\<lambda>(c, h).
     bindE (iob h p) (\<lambda>(n, h).
     if \<not> c \<or> maxLength \<le> length' n then Inr ((), h) else coalesceSlow_max p maxLength h))"

definition unshareChained :: "nat \<Rightarrow> heap \<Rightarrow> unit io" where
  "unshareChained p h = bindE (chain h p) (\<lambda>(ps, h).
     bindE (any_shared ps h) (\<lambda>(b, h). if b then coalesceSlow p h else Inr ((), h)))"

definition unshare :: "nat \<Rightarrow> heap \<Rightarrow> unit io" where
  "unshare p h = bindE (isChained p h) (\<lambda>(c, h).
     if c then unshareChained p h else unshareOne p h)"

section \<open>Growing\<close>

text \<open>
  \<open>reserveSlow\<close>. The in-place branch moves the data; the \<open>realloc\<close> branch keeps the old
  headroom; otherwise the data is copied behind the requested headroom and the old buffer
  released. \<open>realloc\<close> preserves the bytes of the data part; when it moves the block, the
  old one, with a record stored in it, is gone.
\<close>

definition realloc_buf :: "iobuf \<Rightarrow> nat \<Rightarrow> sharedinfo \<Rightarrow> nat \<Rightarrow> heap \<Rightarrow> nat io" where
  "realloc_buf n i s sz h =
     (if oom h sz then Inl (BadAlloc, h)
      else bindE (blk_read (buf' n) 0 (capacity' n) h) (\<lambda>(xs, h).
        bindE (free_blk (buf' n) h) (\<lambda>(_, h).
        let h = (if separate s then h else h\<lparr>infos := (infos h)(i := None)\<rparr>) in
        bindE (malloc sz h) (\<lambda>(b, h).
        bindE (blk_write (Some b) 0 (take sz xs) h) (\<lambda>(_, h). Inr (b, h))))))"

definition reserve_realloc ::
  "iobuf \<Rightarrow> nat \<Rightarrow> sharedinfo \<Rightarrow> nat \<Rightarrow> nat \<Rightarrow> heap \<Rightarrow> (nat \<times> nat \<times> nat) io" where
  "reserve_realloc n i s minHeadroom newCapacity h =
     (let headSlack = headroom n - minHeadroom;
          sz = unat (goodExtBufferSize (of_nat (newCapacity + headSlack))) in
      bindE (realloc_buf n i s sz h) (\<lambda>(b, h). Inr ((b, sz, headroom n), h)))"

definition reserve_malloc ::
  "nat \<Rightarrow> iobuf \<Rightarrow> nat \<Rightarrow> nat \<Rightarrow> heap \<Rightarrow> (nat \<times> nat \<times> nat) io" where
  "reserve_malloc p n minHeadroom newCapacity h =
     (let sz = unat (goodExtBufferSize (of_nat newCapacity)) in
      bindE (malloc sz h) (\<lambda>(b, h).
      bindE (if length' n > 0
             then bindE (blk_read (buf' n) (data' n) (length' n) h) (\<lambda>(xs, h).
                    blk_write (Some b) minHeadroom xs h)
             else Inr ((), h)) (\<lambda>(_, h).
      bindE (freeExtBuffer p h) (\<lambda>(_, h). Inr ((b, sz, minHeadroom), h)))))"

definition reserve_grow :: "nat \<Rightarrow> iobuf \<Rightarrow> nat \<Rightarrow> nat \<Rightarrow> heap \<Rightarrow> unit io" where
  "reserve_grow p n minHeadroom newCapacity h = (case sharedInfo n of
     None \<Rightarrow> Inl (UB, h)
   | Some old \<Rightarrow> bindE (info h old) (\<lambda>(s, h).
       bindE (if freeFn s = None \<and> length' n \<noteq> 0 \<and> minHeadroom \<le> headroom n \<and>
                 (capacity' n - length' n) * 2 \<le> length' n
              then reserve_realloc n old s minHeadroom newCapacity h
              else reserve_malloc p n minHeadroom newCapacity h)
         (\<lambda>((newBuffer, newAllocatedCapacity, newHeadroom), h).
       bindE (initExtBuffer newBuffer newAllocatedCapacity h) (\<lambda>((i, cap), h).
       bindE (if kFlagFreeSharedInfo n then delete_info old h else Inr ((), h)) (\<lambda>(_, h).
       Inr ((), upd_iob p (\<lambda>n. n\<lparr>sharedInfo := Some i, kFlagMaybeShared := False,
         kFlagFreeSharedInfo := False, capacity' := cap, buf' := Some newBuffer,
         data' := newHeadroom\<rparr>) h))))))"

definition reserveSlow :: "nat \<Rightarrow> nat \<Rightarrow> nat \<Rightarrow> heap \<Rightarrow> unit io" where
  "reserveSlow p minHeadroom minTailroom h = bindE (iob h p) (\<lambda>(n, h).
     let newCapacity = length' n + minHeadroom + minTailroom in
     bindE (check (newCapacity < 2 ^ 32 - 1) h) (\<lambda>(_, h).
     bindE (isSharedOne p h) (\<lambda>(shared, h).
     bindE (check (\<not> shared) h) (\<lambda>(_, h).
     if minHeadroom + minTailroom \<le> headroom n + tailroom n then
       bindE (memmove (buf' n) minHeadroom (data' n) (length' n) h) (\<lambda>(_, h).
       Inr ((), upd_iob p (\<lambda>n. n\<lparr>data' := minHeadroom\<rparr>) h))
     else reserve_grow p n minHeadroom newCapacity h))))"

definition reserve :: "nat \<Rightarrow> nat \<Rightarrow> nat \<Rightarrow> heap \<Rightarrow> unit io" where
  "reserve p minHeadroom minTailroom h = bindE (iob h p) (\<lambda>(n, h).
     if minHeadroom \<le> headroom n \<and> minTailroom \<le> tailroom n then Inr ((), h)
     else if length' n = 0 \<and> minHeadroom + minTailroom \<le> headroom n + tailroom n
       then Inr ((), upd_iob p (\<lambda>n. n\<lparr>data' := minHeadroom\<rparr>) h)
     else reserveSlow p minHeadroom minTailroom h)"

section \<open>Extraction\<close>

text \<open>The bytes of one element and of a chain, read from its blocks.\<close>

definition node_bytes :: "heap \<Rightarrow> nat \<Rightarrow> bytes" where
  "node_bytes h p = (let n = node h p in case buf' n of
     None \<Rightarrow> []
   | Some b \<Rightarrow> take (length' n) (drop (data' n) (the (blks h b))))"

text \<open>
  The condition of \<open>moveToString\<close> for making a copy: a user-owned buffer, a custom free
  function, headroom, no room for the NUL, a shared buffer or a chain.
\<close>

definition string_needs_copy :: "nat \<Rightarrow> iobuf \<Rightarrow> heap \<Rightarrow> bool io" where
  "string_needs_copy p n h = (if sharedInfo n = None then Inr (True, h)
     else bindE (info h (the (sharedInfo n))) (\<lambda>(s, h).
       if freeFn s \<noteq> None \<or> headroom n \<noteq> 0 \<or> tailroom n = 0 then Inr (True, h)
       else bindE (isShared p h) (\<lambda>(sh, h). if sh then Inr (True, h) else isChained p h)))"

text \<open>
  \<open>moveToString\<close>: coalesce into a private, NUL-terminated buffer, construct the string from
  it, and reset the IOBuf.
\<close>

definition moveToString :: "nat \<Rightarrow> heap \<Rightarrow> bytes io" where
  "moveToString p h = bindE (iob h p) (\<lambda>(n, h).
     bindE (string_needs_copy p n h) (\<lambda>(convert, h).
     bindE (if convert
            then bindE (computeChainDataLength p h) (\<lambda>(len, h).
                   coalesceAndReallocate p 0 len p 1 h)
            else Inr ((), h)) (\<lambda>(_, h).
     bindE (iob h p) (\<lambda>(n, h).
     bindE (blk_write (buf' n) (data' n + length' n) [0] h) (\<lambda>(_, h).
     bindE (blk_read (buf' n) (data' n) (length' n) h) (\<lambda>(str, h).
     bindE (if kFlagFreeSharedInfo n then delete_info (the (sharedInfo n)) h else Inr ((), h))
       (\<lambda>(_, h).
     Inr (str, upd_iob p (\<lambda>n. n\<lparr>sharedInfo := None, kFlagMaybeShared := False,
       kFlagFreeSharedInfo := False, buf' := None, data' := 0, length' := 0\<rparr>) h))))))))"

text \<open>
  \<open>appendToIov\<close> and \<open>fillIov\<close>: the non-empty elements as block, offset and length.
  \<open>fillIov\<close> returns 0 when the vector is too short.
\<close>

definition iov_of :: "iobuf \<Rightarrow> nat option \<times> nat \<times> nat" where
  "iov_of n = (buf' n, data' n, length' n)"

definition appendToIov ::
  "nat \<Rightarrow> (nat option \<times> nat \<times> nat) list \<Rightarrow> heap \<Rightarrow> (nat option \<times> nat \<times> nat) list io" where
  "appendToIov p iov h = bindE (chain h p) (\<lambda>(ps, h).
     Inr (iov @ map iov_of (filter (\<lambda>n. length' n > 0) (map (node h) ps)), h))"

fun fillIov_loop :: "nat \<Rightarrow> iobuf list \<Rightarrow> (nat option \<times> nat \<times> nat) list \<Rightarrow>
    nat \<times> (nat option \<times> nat \<times> nat) list" where
  "fillIov_loop len [] iov = (length iov, iov)"
| "fillIov_loop len (n # ns) iov =
     (if length iov < len
      then fillIov_loop len ns (if length' n > 0 then iov @ [iov_of n] else iov)
      else (0, iov))"

definition fillIov :: "nat \<Rightarrow> nat \<Rightarrow> heap \<Rightarrow> (nat \<times> (nat option \<times> nat \<times> nat) list) io" where
  "fillIov p len h = bindE (chain h p) (\<lambda>(ps, h). Inr (fillIov_loop len (map (node h) ps) [], h))"

end
