(* ===== verification/Acc_IOBuf_Ring.thy ===== *)
theory Acc_IOBuf_Ring
  imports Acc_IOBuf
begin

text \<open>
  The circular doubly linked lists of \<open>IOBuf\<close>: rings as lists of addresses, every operation
  that changes links as a composition of one primitive, and enough fuel for the loops that
  visit a ring.
\<close>

section \<open>Edges, paths and rings\<close>

definition edge :: "heap \<Rightarrow> nat \<Rightarrow> nat \<Rightarrow> bool" where
  "edge h p q \<longleftrightarrow> iobs h p \<noteq> None \<and> iobs h q \<noteq> None \<and> next' (node h p) = q \<and> prev' (node h q) = p"

fun path :: "heap \<Rightarrow> nat list \<Rightarrow> nat \<Rightarrow> bool" where
  "path h [] z \<longleftrightarrow> True"
| "path h (p # ps) z \<longleftrightarrow> edge h p (hd (ps @ [z])) \<and> path h ps z"

definition ring :: "heap \<Rightarrow> nat list \<Rightarrow> bool" where
  "ring h ps \<longleftrightarrow> ps \<noteq> [] \<and> distinct ps \<and> path h ps (hd ps)"

definition links_ok :: "heap \<Rightarrow> bool" where
  "links_ok h \<longleftrightarrow> (\<forall>p \<in> dom (iobs h). (\<exists>q. edge h p q) \<and> (\<exists>q. edge h q p))"

lemma edge_unique:
  "edge h p q \<Longrightarrow> edge h p q' \<Longrightarrow> q = q'"
  "edge h p q \<Longrightarrow> edge h p' q \<Longrightarrow> p = p'"
  by (simp_all add: edge_def)

lemma edge_live: "edge h p q \<Longrightarrow> iobs h p \<noteq> None" "edge h p q \<Longrightarrow> iobs h q \<noteq> None"
  by (simp_all add: edge_def)

lemma path_append: "path h (xs @ ys) z \<longleftrightarrow> path h xs (hd (ys @ [z])) \<and> path h ys z"
  by (induction xs) (auto simp: hd_append split: list.splits)

lemma path_live: "path h ps z \<Longrightarrow> p \<in> set ps \<Longrightarrow> iobs h p \<noteq> None"
  by (induction ps) (auto dest: edge_live)

lemma ring_live: "ring h ps \<Longrightarrow> p \<in> set ps \<Longrightarrow> iobs h p \<noteq> None"
  by (auto simp: ring_def dest: path_live)

lemma ring_rotate: "ring h (xs @ ys) \<Longrightarrow> ring h (ys @ xs)"
  by (cases xs; cases ys) (auto simp: ring_def path_append hd_append)

lemma ring_Cons_edges:
  assumes "ring h (p # ps)"
  shows "edge h p (hd (ps @ [p]))" "edge h (last (p # ps)) p"
proof -
  show "edge h p (hd (ps @ [p]))" using assms unfolding ring_def path.simps list.sel by blast
  have "path h (p # ps) p" using assms unfolding ring_def list.sel by blast
  then have "path h (butlast (p # ps) @ [last (p # ps)]) p"
    by (simp only: append_butlast_last_id [OF list.distinct(2)])
  then show "edge h (last (p # ps)) p" by (simp add: path_append del: append_butlast_last_id)
qed

lemma ring_singleton: "ring h [p] \<longleftrightarrow> edge h p p"
  by (auto simp: ring_def)

section \<open>The linking primitive\<close>

text \<open>\<open>p->next_ = q; q->prev_ = p\<close>.\<close>

definition link :: "nat \<Rightarrow> nat \<Rightarrow> heap \<Rightarrow> heap" where
  "link p q h = set_prev q p (set_next p q h)"

lemma iobs_link:
  "iobs (link a b h) p = map_option (\<lambda>n. n\<lparr>next' := (if p = a then b else next' n),
     prev' := (if p = b then a else prev' n)\<rparr>) (iobs h p)"
  by (cases "iobs h p") (auto simp: link_def set_prev_def set_next_def upd_iob_def)

lemma iobs_link_None [simp]: "iobs (link a b h) p = None \<longleftrightarrow> iobs h p = None"
  by (simp add: iobs_link)

lemma node_link:
  "iobs h p \<noteq> None \<Longrightarrow> next' (node (link a b h) p) = (if p = a then b else next' (node h p))"
  "iobs h p \<noteq> None \<Longrightarrow> prev' (node (link a b h) p) = (if p = b then a else prev' (node h p))"
  by (auto simp: node_def iobs_link)

lemma edge_link:
  assumes "iobs h a \<noteq> None" "iobs h b \<noteq> None"
  shows "edge (link a b h) p q \<longleftrightarrow> (if p = a \<or> q = b then p = a \<and> q = b else edge h p q)"
  using assms by (auto simp: edge_def node_link)

lemma dom_iobs_link [simp]: "dom (iobs (link a b h)) = dom (iobs h)"
  by (simp add: dom_def)

lemma path_link_other:
  assumes "iobs h a \<noteq> None" "iobs h b \<noteq> None" "a \<notin> set ps" "b \<notin> set (tl (ps @ [z]))"
  shows "path (link a b h) ps z = path h ps z"
  using assms(3,4)
proof (induction ps)
  case (Cons p ps)
  then have "b \<notin> set (tl (ps @ [z]))" by (cases ps) auto
  moreover have "hd (ps @ [z]) \<noteq> b" using Cons.prems(2) by (cases ps) auto
  ultimately show ?case using Cons by (simp add: edge_link assms(1,2))
qed simp

lemma path_link_last:
  assumes "iobs h a \<noteq> None" "iobs h b \<noteq> None" "a \<notin> set ps" "b \<notin> set (tl (ps @ [a]))"
    "path h ps a"
  shows "path (link a b h) (ps @ [a]) b"
  using assms by (simp add: path_append path_link_other edge_link)

text \<open>
  Exchanging the targets of two edges: two rings become one, one ring becomes two, and
  every node keeps one predecessor and one successor.
\<close>

definition swap_edges :: "nat \<Rightarrow> nat \<Rightarrow> nat \<Rightarrow> nat \<Rightarrow> heap \<Rightarrow> heap" where
  "swap_edges a b c d h = link c b (link a d h)"

lemma links_ok_swap:
  assumes "links_ok h" "edge h a b" "edge h c d"
  shows "links_ok (swap_edges a b c d h)"
proof -
  have live: "iobs h a \<noteq> None" "iobs h b \<noteq> None" "iobs h c \<noteq> None" "iobs h d \<noteq> None"
    using assms by (auto dest: edge_live)
  have e: "edge (swap_edges a b c d h) p q \<longleftrightarrow>
     (if p = c \<or> q = b then p = c \<and> q = b else if p = a \<or> q = d then p = a \<and> q = d else edge h p q)" for p q
    using live by (simp add: swap_edges_def edge_link)
  have "(\<exists>q. edge (swap_edges a b c d h) p q) \<and> (\<exists>q. edge (swap_edges a b c d h) q p)"
    if p: "p \<in> dom (iobs h)" for p
  proof -
    obtain q r where "edge h p q" "edge h r p" using assms(1) p unfolding links_ok_def by blast
    note pq = this
    have u: "p = a" if "q = b" using pq(1) assms(2) that by (blast dest: edge_unique)
    have u2: "p = c" if "q = d" using pq(1) assms(3) that by (blast dest: edge_unique)
    have u3: "p = b" if "r = a" using pq(2) assms(2) that by (blast dest: edge_unique)
    have u4: "p = d" if "r = c" using pq(2) assms(3) that by (blast dest: edge_unique)
    have u5: "a = c \<longleftrightarrow> b = d" using assms(2,3) by (blast dest: edge_unique)
    show ?thesis unfolding e
    proof
      show "\<exists>q. if p = c \<or> q = b then p = c \<and> q = b
          else if p = a \<or> q = d then p = a \<and> q = d else edge h p q"
        using u u2 u5 pq(1) by (intro exI [of _ "if p = c then b else if p = a then d else q"]) auto
      show "\<exists>q. if q = c \<or> p = b then q = c \<and> p = b
          else if q = a \<or> p = d then q = a \<and> p = d else edge h q p"
        using u3 u4 u5 pq(2) by (intro exI [of _ "if p = b then c else if p = d then a else r"]) auto
    qed
  qed
  then show ?thesis by (simp add: links_ok_def swap_edges_def)
qed

lemma path_swap_other:
  assumes "edge h a b" "edge h c d" "a \<notin> set ps" "c \<notin> set ps" "b \<notin> set (tl (ps @ [z]))" "d \<notin> set (tl (ps @ [z]))"
  shows "path (swap_edges a b c d h) ps z = path h ps z"
proof -
  have "iobs h a \<noteq> None" "iobs h b \<noteq> None" "iobs h c \<noteq> None" "iobs h d \<noteq> None"
    using assms by (auto dest: edge_live)
  then show ?thesis using assms(3-) by (simp add: swap_edges_def path_link_other)
qed

lemma ring_last_edge: "ring h ps \<Longrightarrow> edge h (last ps) (hd ps)"
  using ring_Cons_edges(2) [of h "hd ps" "tl ps"] by (auto simp: ring_def)

text \<open>Joining two rings, splitting a ring, and a ring that is not touched.\<close>

lemma ring_join:
  assumes r: "ring h xs" "ring h ys" and disj: "set xs \<inter> set ys = {}"
  shows "ring (swap_edges (last xs) (hd xs) (last ys) (hd ys) h) (xs @ ys)"
proof -
  let ?h = "swap_edges (last xs) (hd xs) (last ys) (hd ys) h"
  have e: "edge h (last xs) (hd xs)" "edge h (last ys) (hd ys)" using r by (auto dest: ring_last_edge)
  have live: "iobs h (last xs) \<noteq> None" "iobs h (hd xs) \<noteq> None" "iobs h (last ys) \<noteq> None" "iobs h (hd ys) \<noteq> None"
    using e by (auto dest: edge_live)
  have ne: "xs \<noteq> []" "ys \<noteq> []" "distinct xs" "distinct ys" using r by (auto simp: ring_def)
  have mem: "last xs \<in> set xs" "hd xs \<in> set xs" "last ys \<in> set ys" "hd ys \<in> set ys" using ne by auto
  then have ne2: "last xs \<noteq> last ys" "hd xs \<noteq> hd ys" using disj by (metis disjoint_iff)+
  have "path ?h (butlast zs) (last zs)" if "zs = xs \<or> zs = ys" for zs
  proof -
    have z: "zs \<noteq> []" "distinct zs" "path h (butlast zs @ [last zs]) (hd zs)"
      using that r by (auto simp: ring_def)
    have nl: "last zs \<notin> set (butlast zs)" using z(1,2)
      by (metis append_butlast_last_id distinct_append disjoint_insert(1) list.set(2))
    have nh: "hd zs \<notin> set (tl (butlast zs @ [last zs]))" using z(1,2) by (cases zs) auto
    have sub: "set (butlast zs) \<subseteq> set zs" "set (tl (butlast zs @ [last zs])) \<subseteq> set zs"
      using z(1) by (auto dest: in_set_butlastD list.set_sel(2))
    have "path h (butlast zs) (last zs)" using z(3) by (simp add: path_append del: append_butlast_last_id)
    moreover have "last xs \<notin> set (butlast zs)" "last ys \<notin> set (butlast zs)"
      "hd xs \<notin> set (tl (butlast zs @ [last zs]))" "hd ys \<notin> set (tl (butlast zs @ [last zs]))"
      using that nl nh sub mem disj by blast+
    ultimately show ?thesis using path_swap_other [OF e] by blast
  qed
  then have "path ?h (butlast xs) (last xs)" "path ?h (butlast ys) (last ys)" by auto
  moreover have "edge ?h (last xs) (hd ys)" "edge ?h (last ys) (hd xs)"
    using live ne2 by (simp_all add: swap_edges_def edge_link)
  ultimately have "path ?h (butlast xs @ [last xs]) (hd ys)" "path ?h (butlast ys @ [last ys]) (hd xs)"
    by (auto simp: path_append simp del: append_butlast_last_id)
  then show ?thesis using ne disj by (simp add: ring_def path_append hd_append)
qed

lemma ring_swap_other:
  assumes "ring h zs" "edge h a b" "edge h c d" "a \<notin> set zs" "c \<notin> set zs" "b \<notin> set zs" "d \<notin> set zs"
  shows "ring (swap_edges a b c d h) zs"
proof -
  have "set (tl (zs @ [hd zs])) = set zs" using assms(1) by (cases zs) (auto simp: ring_def)
  then show ?thesis using assms by (simp add: ring_def path_swap_other)
qed


lemma path_butlast:
  assumes "path h zs z" "zs \<noteq> []"
  shows "path h (butlast zs) (last zs)"
proof -
  have "path h (butlast zs @ [last zs]) z" using assms by simp
  then show ?thesis by (simp add: path_append del: append_butlast_last_id)
qed

lemma path_butlast_iff:
  "zs \<noteq> [] \<Longrightarrow> path h zs z \<longleftrightarrow> path h (butlast zs) (last zs) \<and> edge h (last zs) z"
  using path_append [of h "butlast zs" "[last zs]" z] by simp

lemma distinct_ends:
  assumes "zs \<noteq> []" "distinct zs"
  shows "last zs \<notin> set (butlast zs)" "hd zs \<notin> set (tl (butlast zs @ [last zs]))"
  using assms distinct_append [of "butlast zs" "[last zs]"] by (auto, cases zs, auto)

lemma ring_split:
  assumes r: "ring h (xs @ ys)" and ne: "xs \<noteq> []" "ys \<noteq> []"
  defines "h' \<equiv> swap_edges (last xs) (hd ys) (last ys) (hd xs) h"
  shows "ring h' xs" "ring h' ys"
proof -
  have p: "path h xs (hd ys)" "path h ys (hd xs)" "distinct xs" "distinct ys" "set xs \<inter> set ys = {}"
    using r ne by (auto simp: ring_def path_append)
  have e: "edge h (last xs) (hd ys)" "edge h (last ys) (hd xs)"
    using p(1,2) ne by (auto simp: path_butlast_iff)
  have live: "iobs h (last xs) \<noteq> None" "iobs h (hd xs) \<noteq> None" "iobs h (last ys) \<noteq> None" "iobs h (hd ys) \<noteq> None"
    using e by (auto dest: edge_live)
  have mem: "last xs \<in> set xs" "hd xs \<in> set xs" "last ys \<in> set ys" "hd ys \<in> set ys" using ne by auto
  then have ne2: "last xs \<noteq> last ys" "hd xs \<noteq> hd ys" using p(5) by (metis disjoint_iff)+
  have inner: "path h' (butlast zs) (last zs)" if z: "zs = xs \<or> zs = ys" for zs
  proof -
    have zs: "zs \<noteq> []" "distinct zs" "path h (butlast zs) (last zs)"
      using z p ne by (auto simp: path_butlast_iff)
    have sub: "set (butlast zs) \<subseteq> set zs" "set (tl (butlast zs @ [last zs])) \<subseteq> set zs"
      using zs(1) by (auto dest: in_set_butlastD list.set_sel(2))
    have "last xs \<notin> set (butlast zs)" "last ys \<notin> set (butlast zs)"
      "hd xs \<notin> set (tl (butlast zs @ [last zs]))" "hd ys \<notin> set (tl (butlast zs @ [last zs]))"
      using z distinct_ends [OF zs(1,2)] sub mem p(5) by blast+
    then show ?thesis using path_swap_other [OF e] zs(3) by (auto simp: h'_def)
  qed
  have "edge h' (last xs) (hd xs)" "edge h' (last ys) (hd ys)"
    using live ne2 by (simp_all add: h'_def swap_edges_def edge_link)
  then show "ring h' xs" "ring h' ys" using inner [of xs] inner [of ys] p ne
    by (simp_all add: ring_def path_butlast_iff)
qed

section \<open>Operations on rings\<close>

lemma set_next_prev_commute: "set_next p q (set_prev r t h) = set_prev r t (set_next p q h)"
  by (cases "iobs h p"; cases "iobs h r")
     (auto simp: set_next_def set_prev_def upd_iob_def fun_eq_iff intro!: heap.equality)

lemma edgeE:
  assumes "edge h p q"
  obtains n m where "iobs h p = Some n" "iobs h q = Some m" "next' n = q" "prev' m = p"
proof -
  obtain n m where nm: "iobs h p = Some n" "iobs h q = Some m" using edge_live [OF assms] by blast
  have "next' (node h p) = q" "prev' (node h q) = p" using assms unfolding edge_def by blast+
  then show ?thesis using that nm unfolding node_def by (metis option.sel)
qed

lemma iobs_set_None [simp]:
  "iobs (set_next a b h) p = None \<longleftrightarrow> iobs h p = None"
  "iobs (set_prev a b h) p = None \<longleftrightarrow> iobs h p = None"
  by (auto simp: set_next_def set_prev_def upd_iob_def)

lemma prependChain_eq:
  assumes "edge h a this" "edge h c other"
  shows "prependChain this other h = Inr ((), swap_edges a this c other h)"
proof -
  obtain t oth where "iobs h this = Some t" "prev' t = a" "iobs h other = Some oth" "prev' oth = c"
    "iobs h a \<noteq> None" "iobs h c \<noteq> None"
    using assms by (elim edgeE) auto
  then show ?thesis
    by (auto simp: prependChain_def iob_def swap_edges_def link_def)
qed

lemma unlink_eq:
  assumes "edge h a this" "edge h this d"
  shows "unlink this h = Inr (this, swap_edges a this this d h)"
proof -
  obtain t where "iobs h this = Some t" "prev' t = a" "next' t = d" "iobs h a \<noteq> None" "iobs h d \<noteq> None"
    using assms by (elim edgeE) auto
  then show ?thesis
    by (auto simp: unlink_def iob_def swap_edges_def link_def set_next_prev_commute)
qed

lemma separateChain_eq:
  assumes "edge h a head" "edge h tail d" "head \<noteq> this" "tail \<noteq> this"
  shows "separateChain this head tail h = Inr (head, swap_edges a head tail d h)"
proof -
  obtain n m where "iobs h head = Some n" "prev' n = a" "iobs h tail = Some m" "next' m = d"
    "iobs h a \<noteq> None" "iobs h d \<noteq> None"
    using assms(1,2) by (elim edgeE) auto
  then show ?thesis using assms(3,4)
    by (auto simp: separateChain_def iob_def check_def swap_edges_def link_def set_next_prev_commute)
qed

lemma prependChain_ring:
  assumes "ring h (this # xs)" "ring h (other # ys)" "set (this # xs) \<inter> set (other # ys) = {}"
  obtains h' where "prependChain this other h = Inr ((), h')" "ring h' (this # xs @ other # ys)"
    "h' = swap_edges (last (this # xs)) this (last (other # ys)) other h"
proof
  show "prependChain this other h = Inr ((), swap_edges (last (this # xs)) this (last (other # ys)) other h)"
    using assms(1,2) by (intro prependChain_eq ring_Cons_edges(2))
  show "ring (swap_edges (last (this # xs)) this (last (other # ys)) other h) (this # xs @ other # ys)"
    using ring_join [OF assms] by simp
qed (rule refl)

lemma unlink_ring:
  assumes "ring h (this # xs)" "xs \<noteq> []"
  obtains h' where "unlink this h = Inr (this, h')" "ring h' [this]" "ring h' xs"
    "h' = swap_edges (last xs) this this (hd xs) h"
proof
  have r: "ring h (xs @ [this])" using ring_rotate [of h "[this]" xs] assms(1) by simp
  have "edge h (last xs) this" using ring_Cons_edges(2) [OF assms(1)] assms(2) by simp
  moreover have "edge h this (hd xs)" using ring_Cons_edges(1) [OF assms(1)] assms(2) by simp
  ultimately show "unlink this h = Inr (this, swap_edges (last xs) this this (hd xs) h)"
    by (rule unlink_eq)
  show "ring (swap_edges (last xs) this this (hd xs) h) [this]" "ring (swap_edges (last xs) this this (hd xs) h) xs"
    using ring_split [OF r assms(2)] by simp_all
qed (rule refl)

lemma separateChain_ring:
  assumes r: "ring h (xs @ ys @ zs)" and ne: "xs \<noteq> []" "ys \<noteq> []"
  obtains h' where "separateChain (hd xs) (hd ys) (last ys) h = Inr (hd ys, h')"
    "ring h' (xs @ zs)" "ring h' ys" "h' = swap_edges (last xs) (hd ys) (last ys) (hd (zs @ xs)) h"
proof
  let ?h = "swap_edges (last xs) (hd ys) (last ys) (hd (zs @ xs)) h"
  have r2: "ring h ((zs @ xs) @ ys)" using ring_rotate [of h "xs @ ys" zs] r by simp
  have p: "path h xs (hd ys)" "path h ys (hd (zs @ xs))"
    using r2 ne by (auto simp: ring_def path_append hd_append)
  have "edge h (last xs) (hd ys)" "edge h (last ys) (hd (zs @ xs))"
    using p ne by (auto simp: path_butlast_iff)
  moreover have "hd ys \<noteq> hd xs" "last ys \<noteq> hd xs"
    using r ne unfolding ring_def by (metis disjoint_iff distinct_append hd_in_set last_in_set Un_iff set_append)+
  ultimately show "separateChain (hd xs) (hd ys) (last ys) h = Inr (hd ys, ?h)" by (rule separateChain_eq)
  have "ring ?h (zs @ xs)" "ring ?h ys" using ring_split [OF r2] ne by simp_all
  then show "ring ?h (xs @ zs)" "ring ?h ys" by (auto intro: ring_rotate)
qed (rule refl)

section \<open>Visiting a ring\<close>

definition fresh :: "heap \<Rightarrow> bool" where
  "fresh h \<longleftrightarrow> dom (iobs h) \<union> dom (infos h) \<union> dom (blks h) \<union> dom (stors h) \<subseteq> {..<brk h}"

lemma walk_path:
  assumes "path h ps p" "p \<notin> set ps" "length ps < fuel"
  shows "walk fuel h p (hd (ps @ [p])) = Some ps"
  using assms
proof (induction ps arbitrary: fuel)
  case Nil
  then show ?case by (cases fuel) auto
next
  case (Cons q ps)
  obtain f where f: "fuel = Suc f" "length ps < f" using Cons.prems by (cases fuel) auto
  obtain n where n: "iobs h q = Some n" "next' n = hd (ps @ [p])"
    using Cons.prems(1) edgeE unfolding path.simps by metis
  show ?case using Cons f n by simp
qed

lemma ring_length_le:
  assumes "ring h ps" "fresh h"
  shows "length ps \<le> brk h"
proof -
  have "set ps \<subseteq> {..<brk h}" using assms ring_live unfolding fresh_def by blast
  then have "card (set ps) \<le> brk h" using card_mono [of "{..<brk h}" "set ps"] by simp
  then show ?thesis using assms(1) by (simp add: ring_def distinct_card)
qed

lemma chain_ring:
  assumes "ring h (p # ps)" "fresh h"
  shows "chain h p = Inr (p # ps, h)"
proof -
  have "length ps < brk h" using ring_length_le [OF assms] by simp
  moreover have "path h ps p" "p \<notin> set ps" using assms(1) by (auto simp: ring_def)
  ultimately have "walk (brk h) h p (hd (ps @ [p])) = Some ps" by (intro walk_path)
  moreover obtain n where "iobs h p = Some n" "next' n = hd (ps @ [p])"
    using ring_Cons_edges(1) [OF assms(1)] by (rule edgeE)
  ultimately show ?thesis by (simp add: chain_def chain_opt_def)
qed


text \<open>In a heap with sound links every live node lies on a ring.\<close>

definition succ_of :: "heap \<Rightarrow> nat \<Rightarrow> nat" where
  "succ_of h p = (if iobs h p = None then p else next' (node h p))"

lemma edge_next: "edge h p q \<Longrightarrow> next' (node h p) = q" "edge h p q \<Longrightarrow> prev' (node h q) = p"
  unfolding edge_def by blast+

lemma succ_of_edge:
  assumes "links_ok h" "iobs h p \<noteq> None"
  shows "edge h p (succ_of h p)"
proof -
  obtain q where q: "edge h p q" using assms unfolding links_ok_def by blast
  then have "succ_of h p = q" using assms(2) edge_next(1) [OF q] by (simp only: succ_of_def if_False)
  then show ?thesis using q by simp
qed

lemma inj_succ_of:
  assumes "links_ok h"
  shows "inj (succ_of h)"
proof (rule injI)
  fix p q assume eq: "succ_of h p = succ_of h q"
  have live: "iobs h (succ_of h r) \<noteq> None \<longleftrightarrow> iobs h r \<noteq> None" for r
    using succ_of_edge [OF assms, of r] edge_live(2) [of h r "succ_of h r"] by (auto simp: succ_of_def)
  show "p = q"
  proof (cases "iobs h p = None")
    case True
    then show ?thesis using live [of p] live [of q] eq by (auto simp: succ_of_def)
  next
    case False
    then have "iobs h q \<noteq> None" using live [of p] live [of q] eq by simp
    then show ?thesis using succ_of_edge [OF assms] False eq edge_unique(2) by metis
  qed
qed

lemma funpow_live:
  assumes "links_ok h" "iobs h p \<noteq> None"
  shows "iobs h ((succ_of h ^^ k) p) \<noteq> None"
proof (induction k)
  case (Suc k)
  then show ?case using edge_live(2) [OF succ_of_edge [OF assms(1) Suc.IH]] by simp
qed (use assms in simp)

lemma path_funpow:
  assumes "links_ok h" "iobs h p \<noteq> None" "k \<le> n" "(succ_of h ^^ n) p = z"
  shows "path h (map (\<lambda>k. (succ_of h ^^ k) p) [k..<n]) z"
  using assms(3)
proof (induction "n - k" arbitrary: k)
  case (Suc d)
  then have k: "k < n" by simp
  have "hd (map (\<lambda>k. (succ_of h ^^ k) p) [Suc k..<n] @ [z]) = (succ_of h ^^ Suc k) p"
    using k assms(4) by (cases "Suc k = n") (auto simp: hd_append hd_map)
  moreover have "edge h ((succ_of h ^^ k) p) ((succ_of h ^^ Suc k) p)"
    using succ_of_edge [OF assms(1) funpow_live [OF assms(1,2)], of k] by simp
  ultimately show ?case using Suc k by (simp add: upt_conv_Cons)
qed simp

lemma links_ok_ring:
  assumes "links_ok h" "finite (dom (iobs h))" "iobs h p \<noteq> None"
  obtains ps where "ring h (p # ps)"
proof -
  let ?f = "succ_of h"
  have "{y. \<exists>n. y = (?f ^^ n) p} \<subseteq> dom (iobs h)" using funpow_live [OF assms(1,3)] by auto
  then obtain n0 where "n0 > 0" "(?f ^^ n0) p = p"
    using funpow_inj_finite [OF inj_succ_of [OF assms(1)]] finite_subset assms(2) by metis
  then obtain n where n: "n > 0" "(?f ^^ n) p = p" and least: "\<And>k. 0 < k \<Longrightarrow> k < n \<Longrightarrow> (?f ^^ k) p \<noteq> p"
    using exists_least_iff [of "\<lambda>n. n > 0 \<and> (?f ^^ n) p = p"] by auto
  have inj: "inj (?f ^^ k)" for k using inj_succ_of [OF assms(1)] by (rule inj_fn)
  have ne: "(?f ^^ i) p \<noteq> (?f ^^ j) p" if "i < j" "j < n" for i j
  proof
    assume "(?f ^^ i) p = (?f ^^ j) p"
    also have "\<dots> = (?f ^^ i) ((?f ^^ (j - i)) p)" using that(1) by (simp flip: funpow_add [unfolded comp_def, THEN fun_cong])
    finally have "(?f ^^ (j - i)) p = p" using inj [of i] by (simp add: inj_eq)
    then show False using least [of "j - i"] that by simp
  qed
  let ?ps = "map (\<lambda>k. (?f ^^ k) p) [0..<n]"
  have "distinct ?ps" using ne by (auto simp: distinct_map inj_on_def) (metis linorder_neqE_nat)
  moreover have "?ps = p # map (\<lambda>k. (?f ^^ k) p) [1..<n]" using n(1) by (simp add: upt_conv_Cons)
  moreover have "path h ?ps p" using path_funpow [OF assms(1,3), of 0 n p] n by simp
  ultimately show ?thesis by (intro that [of "map (\<lambda>k. (?f ^^ k) p) [1..<n]"]) (simp add: ring_def)
qed

end
