(* ===== verification/Acc_IOBuf_Inv.thy ===== *)
theory Acc_IOBuf_Inv
  imports Acc_IOBuf_Ring
begin

text \<open>
  Reference counting and ownership of the blocks of IOBufs. \<open>mem_inv U H ow h R\<close> relates the
  memory of \<open>h\<close> to the IOBufs \<open>R\<close> that hold references: \<open>ow\<close> maps each record to the block it
  owns, \<open>U\<close> are the blocks of the user, \<open>H\<close> the heap-allocated IOBufs. One lemma per way of
  changing the set of holders: drop, share, create, move.
\<close>

definition refs :: "(nat \<Rightarrow> iobuf option) \<Rightarrow> nat \<Rightarrow> nat set" where
  "refs R i = {p. \<exists>n. R p = Some n \<and> sharedInfo n = Some i}"

definition internal :: "heap \<Rightarrow> nat set" where
  "internal h = {i. \<exists>s. infos h i = Some s \<and> freeFn s = Some FreeInternalBuf}"

definition storage_of :: "heap \<Rightarrow> nat \<Rightarrow> nat" where
  "storage_of h i = userData (the (infos h i))"

definition stor_flags :: "nat set \<Rightarrow> nat set \<Rightarrow> nat \<Rightarrow> u16 option" where
  "stor_flags H D q = (if q \<in> H \<or> q \<in> D
     then Some ((if q \<in> H then kIOBufInUse else 0) OR (if q \<in> D then kDataInUse else 0)) else None)"

definition node_ok :: "nat set \<Rightarrow> (nat \<Rightarrow> nat) \<Rightarrow> heap \<Rightarrow> iobuf \<Rightarrow> bool" where
  "node_ok U ow h n \<longleftrightarrow>
     (case buf' n of
        None \<Rightarrow> length' n = 0 \<and> data' n = 0 \<and> capacity' n = 0 \<and> sharedInfo n = None
      | Some b \<Rightarrow> data' n + length' n \<le> capacity' n \<and> 
          (\<exists>xs. blks h b = Some xs \<and> capacity' n \<le> length xs) \<and> (sharedInfo n = None \<longrightarrow> b \<in> U)) \<and>
     (\<forall>i. sharedInfo n = Some i \<longrightarrow> (\<exists>s. infos h i = Some s \<and> buf' n = Some (ow i) \<and>
        separate s = kFlagFreeSharedInfo n \<and> (kFlagMaybeShared n \<or> refcount s = 1)))"

definition info_ok :: "(nat \<Rightarrow> iobuf option) \<Rightarrow> nat \<Rightarrow> sharedinfo \<Rightarrow> bool" where
  "info_ok R i s \<longleftrightarrow> refcount s \<noteq> 0 \<and> unat (refcount s) = card (refs R i) \<and>
     (separate s \<longrightarrow> freeFn s \<noteq> Some FreeInternalBuf)"

definition mem_inv :: "nat set \<Rightarrow> nat set \<Rightarrow> (nat \<Rightarrow> nat) \<Rightarrow> heap \<Rightarrow> (nat \<Rightarrow> iobuf option) \<Rightarrow> bool" where
  "mem_inv U H ow h R \<longleftrightarrow> finite (dom R) \<and>
     (\<forall>p n. R p = Some n \<longrightarrow> node_ok U ow h n) \<and>
     (\<forall>i s. infos h i = Some s \<longrightarrow> info_ok R i s) \<and>
     inj_on ow (dom (infos h)) \<and> dom (blks h) = U \<union> ow ` dom (infos h) \<and>
     U \<inter> ow ` dom (infos h) = {} \<and>
     inj_on (storage_of h) (internal h) \<and> stors h = stor_flags H (storage_of h ` internal h)"

definition unref :: "iobuf \<Rightarrow> heap \<Rightarrow> heap" where
  "unref n h = (case sharedInfo n of None \<Rightarrow> h | Some i \<Rightarrow>
     (let s = the (infos h i) in
      if refcount s > 1 then upd_info i (\<lambda>s. s\<lparr>refcount := refcount s - 1\<rparr>) h
      else h\<lparr>infos := (infos h)(i := None), blks := (blks h)(the (buf' n) := None),
         calls := (case freeFn s of Some (FreeUser f) \<Rightarrow> (f, buf' n, userData s) # calls h | _ \<Rightarrow> calls h),
         stors := (if freeFn s = Some FreeInternalBuf
           then (stors h)(userData s := (if stors h (userData s) = Some kDataInUse then None else Some kIOBufInUse))
           else stors h)\<rparr>))"

lemma finite_refs: "finite (dom R) \<Longrightarrow> finite (refs R i)"
  by (rule finite_subset [of _ "dom R"]) (auto simp: refs_def)

lemma refs_upd_None: "refs (R(p := None)) i = refs R i - {p}"
  by (auto simp: refs_def)

lemma refs_upd_Some: "refs (R(p \<mapsto> n)) i = (if sharedInfo n = Some i then insert p (refs R i) else refs R i - {p})"
  by (auto simp: refs_def)

lemma invD:
  assumes "mem_inv U H ow h R"
  shows "finite (dom R)" "R p = Some n \<Longrightarrow> node_ok U ow h n"
    "infos h i = Some s \<Longrightarrow> info_ok R i s" "inj_on ow (dom (infos h))"
    "dom (blks h) = U \<union> ow ` dom (infos h)" "U \<inter> ow ` dom (infos h) = {}"
    "inj_on (storage_of h) (internal h)" "stors h = stor_flags H (storage_of h ` internal h)"
  using assms by (auto simp: mem_inv_def)

lemma inv_node_infoD:
  assumes "mem_inv U H ow h R" "R p = Some n" "sharedInfo n = Some i"
  obtains s where "infos h i = Some s" "buf' n = Some (ow i)" "separate s = kFlagFreeSharedInfo n"
    "kFlagMaybeShared n \<or> refcount s = 1" "blks h (ow i) \<noteq> None" "info_ok R i s"
proof -
  have "node_ok U ow h n" using assms(1,2) by (rule invD)
  then obtain s where s: "infos h i = Some s" "buf' n = Some (ow i)" "separate s = kFlagFreeSharedInfo n"
    "kFlagMaybeShared n \<or> refcount s = 1" using assms(3) by (auto simp: node_ok_def)
  moreover have "blks h (ow i) \<noteq> None" using \<open>node_ok U ow h n\<close> s by (auto simp: node_ok_def)
  moreover have "info_ok R i s" using assms(1) s(1) by (rule invD)
  ultimately show ?thesis using that by blast
qed

lemma node_ok_mono:
  assumes "node_ok U ow h n"
    and "\<And>b xs. buf' n = Some b \<Longrightarrow> blks h b = Some xs \<Longrightarrow> \<exists>ys. blks h' b = Some ys \<and> length xs \<le> length ys"
    and "\<And>i s. sharedInfo n = Some i \<Longrightarrow> infos h i = Some s \<Longrightarrow> kFlagMaybeShared n \<or> refcount s = 1 \<Longrightarrow> 
       \<exists>s'. infos h' i = Some s' \<and> ow' i = ow i \<and> separate s' = separate s \<and> (kFlagMaybeShared n \<or> refcount s' = 1)"
    and "\<And>b. sharedInfo n = None \<Longrightarrow> buf' n = Some b \<Longrightarrow> b \<in> U \<Longrightarrow> b \<in> U'"
  shows "node_ok U' ow' h' n"
  using assms unfolding node_ok_def
  by (fastforce split: option.splits)


lemma stor_flags_drop:
  "q \<in> D \<Longrightarrow> (stor_flags H D)(q := if stor_flags H D q = Some kDataInUse then None else Some kIOBufInUse)
     = stor_flags H (D - {q})"
  by (rule ext) (auto simp: stor_flags_def kIOBufInUse_def kDataInUse_def)

lemma info_ok_other: "info_ok R i s \<Longrightarrow> refs R' i = refs R i \<Longrightarrow> info_ok R' i s"
  by (simp add: info_ok_def)

lemma refcount_gt_1_iff:
  assumes "info_ok R i s"
  shows "refcount s > 1 \<longleftrightarrow> card (refs R i) > 1"
proof -
  have "card (refs R i) = unat (refcount s)" using assms by (simp add: info_ok_def)
  moreover have "refcount s > 1 \<longleftrightarrow> unat (refcount s) > 1" by (simp add: word_less_nat_alt)
  ultimately show ?thesis by simp
qed

lemma refs_single:
  assumes "info_ok R i s" "finite (dom R)" "\<not> refcount s > 1" "p \<in> refs R i"
  shows "refs R i = {p}"
proof -
  have "card (refs R i) \<le> 1" using refcount_gt_1_iff [OF assms(1)] assms(3) by simp
  then have "\<forall>q\<in>refs R i. q = p"
    using card_le_Suc0_iff_eq [OF finite_refs [OF assms(2)]] assms(4) by auto
  then show ?thesis using assms(4) by blast
qed

lemma inv_upd_info:
  assumes inv: "mem_inv U H ow h R" and f: "\<And>s. freeFn (f s) = freeFn s" "\<And>s. userData (f s) = userData s"
    and "finite (dom R')" "\<And>p n. R' p = Some n \<Longrightarrow> node_ok U ow (upd_info i f h) n"
    "\<And>j s. infos (upd_info i f h) j = Some s \<Longrightarrow> info_ok R' j s"
  shows "mem_inv U H ow (upd_info i f h) R'"
proof -
  have "dom (infos (upd_info i f h)) = dom (infos h)" "internal (upd_info i f h) = internal h"
    "blks (upd_info i f h) = blks h" "stors (upd_info i f h) = stors h"
    using f by (auto simp: upd_info_def internal_def split: if_splits)
  moreover have "storage_of (upd_info i f h) j = storage_of h j" if "j \<in> internal h" for j
    using f that by (auto simp: upd_info_def storage_of_def internal_def)
  then have "inj_on (storage_of (upd_info i f h)) (internal h) = inj_on (storage_of h) (internal h)"
    "storage_of (upd_info i f h) ` internal h = storage_of h ` internal h"
    by (auto simp: inj_on_def intro!: image_cong)
  ultimately show ?thesis using assms(4-6) invD(4-8) [OF inv] unfolding mem_inv_def by simp
qed

lemma inv_drop_count:
  assumes inv: "mem_inv U H ow h R" and p: "R p = Some n" "sharedInfo n = Some i"
    and s: "infos h i = Some s" "refcount s > 1"
  shows "mem_inv U H ow (upd_info i (\<lambda>s. s\<lparr>refcount := refcount s - 1\<rparr>) h) (R(p := None))"
proof -
  let ?h = "upd_info i (\<lambda>s. s\<lparr>refcount := refcount s - 1\<rparr>) h"
  have nodes: "node_ok U ow ?h m" if "(R(p := None)) q = Some m" for q m
  proof -
    have "node_ok U ow h m" using that inv by (auto dest: invD split: if_splits)
    then show ?thesis by (rule node_ok_mono) (use s in \<open>auto simp: upd_info_def\<close>)
  qed
  have iok: "info_ok R j t" if "infos h j = Some t" for j t using inv that by (rule invD)
  have "p \<in> refs R i" using p by (auto simp: refs_def)
  then have "card (refs R i - {p}) = card (refs R i) - 1" by simp
  moreover have "unat (refcount s - 1) = unat (refcount s) - 1"
    using s(2) by (intro unat_minus_one) auto
  moreover have "refcount s - 1 \<noteq> 0" using s(2) by auto
  ultimately have "info_ok (R(p := None)) i (s\<lparr>refcount := refcount s - 1\<rparr>)"
    using iok [OF s(1)] by (simp add: info_ok_def refs_upd_None)
  moreover have "info_ok (R(p := None)) j t" if "infos h j = Some t" "j \<noteq> i" for j t
    using iok [OF that(1)] by (rule info_ok_other) (use p that(2) in \<open>auto simp: refs_def\<close>)
  ultimately have infos: "info_ok (R(p := None)) j t" if "infos ?h j = Some t" for j t
    using that s(1) by (auto simp: upd_info_def split: if_splits)
  show ?thesis using invD(1) [OF inv] by (intro inv_upd_info [OF inv _ _ _ nodes infos]) simp_all
qed

lemma inv_drop_last:
  assumes inv: "mem_inv U H ow h R" and p: "R p = Some n" "sharedInfo n = Some i"
    and s: "infos h i = Some s" "\<not> refcount s > 1" and un: "h' = unref n h"
  shows "mem_inv U H ow h' (R(p := None))"
proof -
  have b: "buf' n = Some (ow i)" using inv p by (rule inv_node_infoD)
  have refs: "refs R i = {p}" using inv s p by (intro refs_single [of _ _ s]) (auto dest: invD simp: refs_def)
  have h': "infos h' = (infos h)(i := None)" "blks h' = (blks h)(ow i := None)"
    using p s b by (auto simp: un unref_def)
  have inj: "inj_on ow (dom (infos h))" using inv by (rule invD)
  have owD: "j = i" if "infos h j = Some t" "ow i = ow j" for j t
    using inj_onD [OF inj, of j i] that s(1) by auto
  have nodes: "node_ok U ow h' m" if q: "(R(p := None)) q = Some m" for q m
  proof -
    have m: "R q = Some m" "q \<noteq> p" using q by (auto split: if_splits)
    then have ok: "node_ok U ow h m" using inv by (auto dest: invD)
    have ne: "sharedInfo m \<noteq> Some i" using m refs by (auto simp: refs_def)
    have "ow i \<notin> U" using invD(6) [OF inv] s(1) by blast
    then have "buf' m \<noteq> Some (ow i)"
      using ok ne by (cases "sharedInfo m") (auto simp: node_ok_def dest: owD)
    then show ?thesis using ok ne by (intro node_ok_mono [OF ok]) (auto simp: h')
  qed
  have infos: "info_ok (R(p := None)) j t" if "infos h' j = Some t" for j t
    by (rule info_ok_other [of R]) (use that inv p in \<open>auto simp: h' refs_def dest: invD split: if_splits\<close>)
  have int: "internal h' = internal h - {i}" "\<And>j. j \<in> internal h' \<Longrightarrow> storage_of h' j = storage_of h j"
    by (auto simp: h' internal_def storage_of_def)
  have sinj: "inj_on (storage_of h) (internal h)" using inv by (rule invD)
  have img: "storage_of h' ` internal h' = storage_of h ` (internal h - {i})" using int by auto
  have "stors h' = stor_flags H (storage_of h' ` internal h')"
  proof (cases "freeFn s = Some FreeInternalBuf")
    case True
    then have i: "i \<in> internal h" "storage_of h i = userData s" using s(1) by (auto simp: internal_def storage_of_def)
    then have "storage_of h ` (internal h - {i}) = storage_of h ` internal h - {userData s}"
      using sinj by (auto simp: inj_on_def)
    moreover have "userData s \<in> storage_of h ` internal h" using i by force
    moreover have "stors h' = (stors h)(userData s := (if stors h (userData s) = Some kDataInUse then None else Some kIOBufInUse))"
      using True p s by (simp add: un unref_def)
    ultimately show ?thesis using invD(8) [OF inv] stor_flags_drop img by simp
  next
    case False
    then have "i \<notin> internal h" using s(1) by (auto simp: internal_def)
    moreover have "stors h' = stors h" using False p s by (simp add: un unref_def)
    ultimately show ?thesis using invD(8) [OF inv] by (simp add: img)
  qed
  moreover have "dom (blks h') = U \<union> ow ` dom (infos h')" "U \<inter> ow ` dom (infos h') = {}"
  proof -
    have "ow i \<notin> U" using invD(6) [OF inv] s(1) by blast
    moreover have "ow ` (dom (infos h) - {i}) = ow ` dom (infos h) - {ow i}"
      by (auto dest: owD)
    ultimately show "dom (blks h') = U \<union> ow ` dom (infos h')" "U \<inter> ow ` dom (infos h') = {}"
      using invD(5,6) [OF inv] by (simp_all add: h' del: fun_upd_apply) blast+
  qed
  moreover have "inj_on ow (dom (infos h'))" using inj by (auto simp: h' inj_on_def)
  moreover have "inj_on (storage_of h') (internal h')" using sinj int by (auto simp: inj_on_def)
  ultimately show ?thesis using nodes infos invD(1) [OF inv] by (auto simp: mem_inv_def)
qed

lemma inv_unref:
  assumes inv: "mem_inv U H ow h R" and p: "R p = Some n"
  shows "mem_inv U H ow (unref n h) (R(p := None))"
proof (cases "sharedInfo n")
  case None
  have "refs (R(p := None)) j = refs R j" for j using p None by (auto simp: refs_def)
  then have "info_ok (R(p := None)) j s = info_ok R j s" for j s by (simp add: info_ok_def)
  then show ?thesis using inv None by (auto simp: unref_def mem_inv_def split: if_splits)
next
  case (Some i)
  then obtain s where s: "infos h i = Some s" using inv p by (elim inv_node_infoD)
  show ?thesis
  proof (cases "refcount s > 1")
    case True
    then have "unref n h = upd_info i (\<lambda>s. s\<lparr>refcount := refcount s - 1\<rparr>) h"
      using Some s by (simp add: unref_def)
    then show ?thesis using inv_drop_count [OF inv p Some s True] by simp
  next
    case False
    then show ?thesis using inv_drop_last [OF inv p Some s False] by simp
  qed
qed


lemma inv_cong:
  "infos h' = infos h \<Longrightarrow> blks h' = blks h \<Longrightarrow> stors h' = stors h \<Longrightarrow> mem_inv U H ow h' R = mem_inv U H ow h R"
  by (simp add: mem_inv_def node_ok_def internal_def storage_of_def [abs_def] cong: option.case_cong)

lemma inv_set:
  assumes inv: "mem_inv U H ow h R" and m: "node_ok U ow h m"
    and p: "(case R p of None \<Rightarrow> None | Some n \<Rightarrow> sharedInfo n) = sharedInfo m"
  shows "mem_inv U H ow h (R(p \<mapsto> m))"
proof -
  have "refs (R(p \<mapsto> m)) i = refs R i" for i
    using p by (auto simp: refs_def split: option.splits)
  then have "info_ok (R(p \<mapsto> m)) i s = info_ok R i s" for i s by (simp add: info_ok_def)
  then show ?thesis using inv m by (auto simp: mem_inv_def)
qed

lemma inv_blk:
  assumes inv: "mem_inv U H ow h R" and b: "blks h b = Some xs" "length xs \<le> length ys"
  shows "mem_inv U H ow (h\<lparr>blks := (blks h)(b \<mapsto> ys)\<rparr>) R"
proof -
  let ?h = "h\<lparr>blks := (blks h)(b \<mapsto> ys)\<rparr>"
  have "node_ok U ow ?h n" if "R p = Some n" for p n
    using invD(2) [OF inv that] by (rule node_ok_mono) (use b in auto)
  moreover have "dom (blks ?h) = dom (blks h)" using b(1) by auto
  moreover have "internal ?h = internal h" "storage_of ?h = storage_of h"
    by (auto simp: internal_def storage_of_def)
  ultimately show ?thesis using inv unfolding mem_inv_def by simp
qed

lemma inv_new:
  assumes inv: "mem_inv U H ow h R" and q: "R q = None" and i: "infos h i = None" and b: "blks h b = None"
    and n: "buf' n = Some b" "sharedInfo n = Some i" "data' n + length' n \<le> capacity' n" "capacity' n \<le> length xs"
    and s: "refcount s = 1" "separate s = kFlagFreeSharedInfo n"
      "freeFn s = Some FreeInternalBuf \<Longrightarrow> \<not> separate s \<and> userData s \<notin> storage_of h ` internal h"
    and h': "infos h' = (infos h)(i \<mapsto> s)" "blks h' = (blks h)(b \<mapsto> xs)"
      "stors h' = stor_flags H (storage_of h ` internal h \<union> (if freeFn s = Some FreeInternalBuf then {userData s} else {}))"
  shows "mem_inv U H (ow(i := b)) h' (R(q \<mapsto> n))"
proof -
  have nob: "b \<notin> U" "b \<notin> ow ` dom (infos h)" using invD(5) [OF inv] b by (auto simp: domIff)
  have noi: "sharedInfo m \<noteq> Some i" if "R p = Some m" for p m
    using inv_node_infoD [OF inv that, of i] i by auto
  then have refs: "refs R i = {}" by (auto simp: refs_def)
  have img: "(ow(i := b)) ` dom (infos h) = ow ` dom (infos h)" using i by auto
  have "node_ok U (ow(i := b)) h' m" if m: "(R(q \<mapsto> n)) p = Some m" for p m
  proof (cases "p = q")
    case True
    then show ?thesis using m n s h' by (auto simp: node_ok_def)
  next
    case False
    then have ok: "node_ok U ow h m" "sharedInfo m \<noteq> Some i" using m inv noi by (auto dest: invD)
    show ?thesis using ok(1) by (rule node_ok_mono) (use b ok(2) in \<open>auto simp: h'\<close>)
  qed
  moreover have "info_ok (R(q \<mapsto> n)) j t" if t: "infos h' j = Some t" for j t
  proof (cases "j = i")
    case True
    then show ?thesis using t s n refs by (auto simp: h' info_ok_def refs_upd_Some)
  next
    case False
    then have "infos h j = Some t" using t by (simp add: h')
    then show ?thesis by (rule info_ok_other [OF invD(3) [OF inv]]) (use False q n in \<open>auto simp: refs_def\<close>)
  qed
  moreover have "inj_on (ow(i := b)) (dom (infos h'))"
    using invD(4) [OF inv] nob i by (simp add: h' inj_on_fun_updI) (auto simp: inj_on_def)
  moreover have "dom (blks h') = U \<union> (ow(i := b)) ` dom (infos h')" "U \<inter> (ow(i := b)) ` dom (infos h') = {}"
    using invD(5,6) [OF inv] nob img by (simp_all add: h' del: fun_upd_apply) auto
  moreover have "stors h' = stor_flags H (storage_of h' ` internal h')" "inj_on (storage_of h') (internal h')"
  proof -
    have int: "internal h' = internal h \<union> (if freeFn s = Some FreeInternalBuf then {i} else {})"
      "storage_of h' i = userData s" using i by (auto simp: internal_def storage_of_def h')
    have old: "storage_of h' j = storage_of h j" if "j \<in> internal h" for j
      using that i by (auto simp: internal_def storage_of_def h')
    then have img: "storage_of h' ` internal h = storage_of h ` internal h" by (auto intro!: image_cong)
    then show "stors h' = stor_flags H (storage_of h' ` internal h')"
      using int by (simp add: h'(3) image_Un)
    have "inj_on (storage_of h') (internal h)" using invD(7) [OF inv] old by (auto simp: inj_on_def)
    then show "inj_on (storage_of h') (internal h')"
      using int s(3) img by (auto simp: image_iff)
  qed
  ultimately show ?thesis using invD(1) [OF inv] by (simp add: mem_inv_def)
qed

lemma inv_share:
  assumes inv: "mem_inv U H ow h R" and p: "R p = Some n" "sharedInfo n = Some i" and q: "R q = None"
    and s: "infos h i = Some s" "refcount s + 1 \<noteq> 0" 
    and m: "sharedInfo m = Some i" "kFlagMaybeShared m" "kFlagFreeSharedInfo m = kFlagFreeSharedInfo n" "buf' m = buf' n"
       "data' m = data' n" "length' m = length' n" "capacity' m = capacity' n"
  shows "mem_inv U H ow (upd_info i (\<lambda>s. s\<lparr>refcount := refcount s + 1\<rparr>) h) (R(p \<mapsto> n\<lparr>kFlagMaybeShared := True\<rparr>, q \<mapsto> m))"
proof -
  let ?h = "upd_info i (\<lambda>s. s\<lparr>refcount := refcount s + 1\<rparr>) h"
  let ?R = "R(p \<mapsto> n\<lparr>kFlagMaybeShared := True\<rparr>, q \<mapsto> m)"
  have iok: "info_ok R j t" if "infos h j = Some t" for j t using inv that by (rule invD)
  have pq: "p \<noteq> q" using p q by auto
  have "node_ok U ow h n" using inv p by (auto dest: invD)
  then have np: "node_ok U ow ?h (n\<lparr>kFlagMaybeShared := True\<rparr>)" "node_ok U ow ?h m"
    using m p(2) by (auto simp: node_ok_def upd_info_def split: option.splits)
  have other: "kFlagMaybeShared n'" if "R p' = Some n'" "sharedInfo n' = Some i" "p' \<noteq> p" for p' n'
  proof -
    have "{p, p'} \<subseteq> refs R i" using that p by (auto simp: refs_def)
    then have "card (refs R i) \<ge> 2" using that(3) card_mono [OF finite_refs [OF invD(1) [OF inv]], of "{p, p'}" i] by simp
    then have "refcount s \<noteq> 1" using iok [OF s(1)] by (auto simp: info_ok_def)
    then show ?thesis using inv_node_infoD [OF inv that(1,2)] s(1) by auto
  qed
  have nodes: "node_ok U ow ?h n'" if "?R p' = Some n'" for p' n'
  proof (cases "p' = p \<or> p' = q")
    case True
    then show ?thesis using that np pq by (auto split: if_splits)
  next
    case False
    then have "R p' = Some n'" using that by auto
    then show ?thesis using False other
      by (intro node_ok_mono [OF invD(2) [OF inv]]) (auto simp: upd_info_def)
  qed
  have infos: "info_ok ?R j t" if t: "infos ?h j = Some t" for j t
  proof (cases "j = i")
    case True
    have "refs ?R i = insert q (refs R i)" using p m by (auto simp: refs_def)
    moreover have "q \<notin> refs R i" using q by (auto simp: refs_def)
    moreover have "unat (refcount s + 1) = unat (refcount s) + 1"
      using s(2) by (simp add: unatSuc add.commute)
    ultimately show ?thesis using t True s iok [OF s(1)] finite_refs [OF invD(1) [OF inv], of i]
      by (auto simp: info_ok_def upd_info_def)
  next
    case False
    then have "infos h j = Some t" using t by (simp add: upd_info_def)
    then show ?thesis by (rule info_ok_other [OF iok]) (use False p m q in \<open>auto simp: refs_def\<close>)
  qed
  show ?thesis using invD(1) [OF inv] by (intro inv_upd_info [OF inv _ _ _ nodes infos]) simp_all
qed


text \<open>The fields of a node apart from its links.\<close>

definition payload :: "iobuf \<Rightarrow> iobuf" where
  "payload n = n\<lparr>next' := 0, prev' := 0\<rparr>"

lemma payload_sel [simp]:
  "data' (payload n) = data' n" "buf' (payload n) = buf' n" "length' (payload n) = length' n"
  "capacity' (payload n) = capacity' n" "sharedInfo (payload n) = sharedInfo n"
  "kFlagMaybeShared (payload n) = kFlagMaybeShared n"
  "kFlagFreeSharedInfo (payload n) = kFlagFreeSharedInfo n"
  "payload (payload n) = payload n"
  by (simp_all add: payload_def)

lemma payload_eq_iff:
  "payload n = payload m \<longleftrightarrow> data' n = data' m \<and> buf' n = buf' m \<and> length' n = length' m \<and>
     capacity' n = capacity' m \<and> sharedInfo n = sharedInfo m \<and> kFlagMaybeShared n = kFlagMaybeShared m \<and>
     kFlagFreeSharedInfo n = kFlagFreeSharedInfo m"
  by (cases n; cases m) (auto simp: payload_def)

lemma node_ok_payload: "node_ok U ow h (payload n) = node_ok U ow h n"
  by (simp add: node_ok_def cong: option.case_cong)

lemma refs_payload: "refs (\<lambda>p. map_option payload (R p)) i = refs R i"
  by (auto simp: refs_def)

lemma inv_payload:
  assumes "\<And>p. map_option payload (R' p) = map_option payload (R p)"
  shows "mem_inv U H ow h R' = mem_inv U H ow h R"
proof -
  have norm: "mem_inv U H ow h (\<lambda>p. map_option payload (Q p)) = mem_inv U H ow h Q" for Q
  proof -
    have "dom (\<lambda>p. map_option payload (Q p)) = dom Q" by auto
    moreover have "info_ok (\<lambda>p. map_option payload (Q p)) = info_ok Q"
      by (intro ext) (simp add: info_ok_def refs_payload)
    moreover have "(\<forall>p n. map_option payload (Q p) = Some n \<longrightarrow> node_ok U ow h n) \<longleftrightarrow>
        (\<forall>p n. Q p = Some n \<longrightarrow> node_ok U ow h n)"
      using node_ok_payload by (fastforce simp: map_option_eq_Some)
    ultimately show ?thesis by (simp add: mem_inv_def)
  qed
  show ?thesis using norm [of R] norm [of R'] assms by simp
qed

lemma inv_move:
  assumes inv: "mem_inv U H ow h R" and R: "R q = Some n" "R p = None" "payload m = payload n"
  shows "mem_inv U H ow h (R(q := None, p \<mapsto> m))"
proof -
  let ?R = "R(q := None, p \<mapsto> m)"
  have n: "sharedInfo m = sharedInfo n" using R(3) by (simp add: payload_eq_iff)
  have pq: "p \<noteq> q" using R by auto
  have refs: "refs ?R i = (if sharedInfo n = Some i then insert p (refs R i - {q}) else refs R i)" for i
    using R n pq by (auto simp: refs_def)
  have "card (refs ?R i) = card (refs R i)" for i
  proof (cases "sharedInfo n = Some i")
    case True
    then have "q \<in> refs R i" "p \<notin> refs R i" using R by (auto simp: refs_def)
    moreover have fin: "finite (refs R i)" using finite_refs [OF invD(1) [OF inv]] .
    ultimately have "card (insert p (refs R i - {q})) = card (refs R i)"
      using card_Suc_Diff1 [OF fin, of q] by (subst card_insert_disjoint) auto
    then show ?thesis using True refs by simp
  qed (simp add: refs)
  then have "info_ok ?R = info_ok R" by (intro ext) (simp add: info_ok_def)
  moreover have "node_ok U ow h n'" if "?R p' = Some n'" for p' n'
    using that R(1) invD(2) [OF inv] node_ok_payload [of U ow h m] node_ok_payload [of U ow h n] R(3)
    by (auto split: if_splits)
  ultimately show ?thesis using inv by (simp add: mem_inv_def)
qed

lemma releaseStorage_data:
  assumes "stors h = stor_flags H D" "q \<in> D"
  shows "releaseStorage q kDataInUse h =
    Inr ((), h\<lparr>stors := (stors h)(q := if stors h q = Some kDataInUse then None else Some kIOBufInUse)\<rparr>)"
  using assms by (auto simp: releaseStorage_def stor_flags_def kIOBufInUse_def kDataInUse_def)

lemma decrementRefcount_eq:
  assumes inv: "mem_inv U H ow h R" and p: "R p = Some n" "iobs h p = Some n"
  shows "decrementRefcount p h = Inr ((), unref n h)"
proof (cases "sharedInfo n")
  case None
  then show ?thesis using p by (simp add: decrementRefcount_def iob_def unref_def)
next
  case (Some i)
  obtain s where s: "infos h i = Some s" "buf' n = Some (ow i)" "separate s = kFlagFreeSharedInfo n"
     "blks h (ow i) \<noteq> None" "info_ok R i s"
    using inv_node_infoD [OF inv p(1) Some] by metis
  have D: "userData s \<in> storage_of h ` internal h" if "freeFn s = Some FreeInternalBuf"
    using that s(1) by (force simp: internal_def storage_of_def)
  have rel: "releaseStorage (userData s) kDataInUse g = Inr ((), g\<lparr>stors :=
      (stors h)(userData s := if stors h (userData s) = Some kDataInUse then None else Some kIOBufInUse)\<rparr>)"
    if "freeFn s = Some FreeInternalBuf" "stors g = stors h" for g
    using releaseStorage_data [of g H "storage_of h ` internal h" "userData s"] that D invD(8) [OF inv] by simp
  show ?thesis using p Some s
    by (auto simp: decrementRefcount_def iob_def info_def unref_def freeExtBuffer_def upd_info_def
        free_blk_def Let_def delete_info_def check_def rel info_ok_def
        split: option.splits free_fn.splits)
qed

end
