(* ===== verification/Acc_IOBuf_Spec.thy ===== *)
theory Acc_IOBuf_Spec
  imports Acc_IOBuf_Inv
begin

text \<open>
  The invariant of the IOBuf heap and the effect of the operations that release, replace and
  coalesce buffers. \<open>heap_ok U H h\<close> says that the links form rings, that every reference count
  is the number of IOBufs that refer to the record, that every block is either owned by one
  record or belongs to the user (\<open>U\<close>), and that the storage flags of the heap-allocated IOBufs
  (\<open>H\<close>) are in step. \<open>frame X h h'\<close> says that an operation changed nothing outside \<open>X\<close>.
\<close>

section \<open>Invariant and frame\<close>

definition heap_ok :: "nat set \<Rightarrow> nat set \<Rightarrow> heap \<Rightarrow> bool" where
  "heap_ok U H h \<longleftrightarrow> links_ok h \<and> fresh h \<and> H \<subseteq> dom (iobs h) \<and>
     (\<exists>ow. mem_inv U H ow h (iobs h))"

definition view :: "heap \<Rightarrow> nat \<Rightarrow> (nat \<times> nat \<times> nat \<times> nat option \<times> nat option \<times> bytes) option" where
  "view h q = map_option (\<lambda>n. (data' n, length' n, capacity' n, buf' n, sharedInfo n, node_bytes h q))
     (iobs h q)"

definition frame :: "nat set \<Rightarrow> heap \<Rightarrow> heap \<Rightarrow> bool" where
  "frame X h h' \<longleftrightarrow> (\<forall>q. q \<notin> X \<longrightarrow> view h' q = view h q) \<and>
     (\<forall>zs. ring h zs \<longrightarrow> set zs \<inter> X = {} \<longrightarrow> ring h' zs)"

lemma frame_refl [simp]: "frame X h h"
  by (simp add: frame_def)

lemma frame_trans: "frame X h h' \<Longrightarrow> frame Y h' h'' \<Longrightarrow> frame (X \<union> Y) h h''"
  by (auto simp: frame_def Int_Un_distrib)

lemma frame_mono: "frame X h h' \<Longrightarrow> X \<subseteq> Y \<Longrightarrow> frame Y h h'"
  unfolding frame_def by blast

lemma frame_view: "frame X h h' \<Longrightarrow> q \<notin> X \<Longrightarrow> view h' q = view h q"
  by (simp add: frame_def)

lemma frame_ring: "frame X h h' \<Longrightarrow> ring h zs \<Longrightarrow> set zs \<inter> X = {} \<Longrightarrow> ring h' zs"
  by (simp add: frame_def)

lemma view_bytes: "view h' q = view h q \<Longrightarrow> iobs h q \<noteq> None \<Longrightarrow> node_bytes h' q = node_bytes h q"
  by (auto simp: view_def map_option_case split: option.splits)

lemma view_None: "view h q = None \<longleftrightarrow> iobs h q = None"
  by (simp add: view_def)

section \<open>Relinking\<close>

lemma link_sel [simp]:
  "infos (link a b h) = infos h" "blks (link a b h) = blks h" "stors (link a b h) = stors h"
  "brk (link a b h) = brk h" "calls (link a b h) = calls h" "oom (link a b h) = oom h" "junk (link a b h) = junk h"
  by (simp_all add: link_def set_prev_def set_next_def upd_iob_def)

lemma swap_sel [simp]:
  "infos (swap_edges a b c d h) = infos h" "blks (swap_edges a b c d h) = blks h"
  "stors (swap_edges a b c d h) = stors h" "brk (swap_edges a b c d h) = brk h"
  "calls (swap_edges a b c d h) = calls h" "oom (swap_edges a b c d h) = oom h" "junk (swap_edges a b c d h) = junk h"
  "dom (iobs (swap_edges a b c d h)) = dom (iobs h)"
  by (simp_all add: swap_edges_def)

lemma payload_swap [simp]:
  "map_option payload (iobs (swap_edges a b c d h) p) = map_option payload (iobs h p)"
  by (cases "iobs h p") (simp_all add: swap_edges_def iobs_link payload_eq_iff)

lemma iobs_swap_None [simp]: "iobs (swap_edges a b c d h) p = None \<longleftrightarrow> iobs h p = None"
  by (simp add: swap_edges_def)

lemma heap_ok_swap:
  assumes "heap_ok U H h" "edge h a b" "edge h c d"
  shows "heap_ok U H (swap_edges a b c d h)"
proof -
  let ?h = "swap_edges a b c d h"
  have "mem_inv U H ow ?h (iobs ?h) = mem_inv U H ow h (iobs h)" for ow
    by (rule trans [OF inv_payload [OF payload_swap] inv_cong]) simp_all
  then show ?thesis using assms links_ok_swap unfolding heap_ok_def by (simp add: fresh_def)
qed

lemma node_bytes_cong:
  assumes "map_option payload (iobs h' q) = map_option payload (iobs h q)"
    "\<And>b. iobs h q \<noteq> None \<Longrightarrow> buf' (node h q) = Some b \<Longrightarrow> blks h' b = blks h b" "iobs h q \<noteq> None"
  shows "node_bytes h' q = node_bytes h q"
  using assms by (cases "iobs h q"; cases "iobs h' q")
    (auto simp: node_bytes_def node_def payload_eq_iff Let_def split: option.splits)

lemma view_cong:
  assumes "map_option payload (iobs h' q) = map_option payload (iobs h q)"
    "\<And>b. iobs h q \<noteq> None \<Longrightarrow> buf' (node h q) = Some b \<Longrightarrow> blks h' b = blks h b"
  shows "view h' q = view h q"
proof (cases "iobs h q")
  case None
  then show ?thesis using assms(1) by (auto simp: view_def)
next
  case (Some n)
  then obtain m where "iobs h' q = Some m" "payload m = payload n" using assms(1) by auto
  moreover have "node_bytes h' q = node_bytes h q"
    using assms(1) by (rule node_bytes_cong) (use assms(2) Some in simp_all)
  ultimately show ?thesis using Some unfolding view_def payload_eq_iff by simp
qed

lemma view_swap [simp]: "view (swap_edges a b c d h) q = view h q"
  by (rule view_cong) simp_all

lemma frame_swap:
  assumes "edge h a b" "edge h c d" "{a, b, c, d} \<subseteq> X"
  shows "frame X h (swap_edges a b c d h)"
  unfolding frame_def using ring_swap_other [OF _ assms(1,2)] assms(3) by auto

section \<open>Releasing\<close>

lemma unref_sel [simp]:
  "iobs (unref n h) = iobs h" "brk (unref n h) = brk h" "oom (unref n h) = oom h" "junk (unref n h) = junk h"
  by (simp_all add: unref_def Let_def upd_info_def split: option.splits)

lemma unref_blks: "blks (unref n h) b = Some xs \<Longrightarrow> blks h b = Some xs"
  by (auto simp: unref_def Let_def upd_info_def split: option.splits if_splits)

lemma unref_dom:
  "dom (infos (unref n h)) \<subseteq> dom (infos h)" "dom (blks (unref n h)) \<subseteq> dom (blks h)"
  by (auto simp: unref_def Let_def upd_info_def split: option.splits if_splits)

lemma unref_stors:
  assumes "mem_inv U H ow h R" "R p = Some n"
  shows "dom (stors (unref n h)) \<subseteq> dom (stors h)"
proof (cases "sharedInfo n")
  case (Some i)
  then obtain s where s: "infos h i = Some s" using inv_node_infoD [OF assms] by metis
  have "userData s \<in> dom (stors h)" if "freeFn s = Some FreeInternalBuf"
    using that s invD(8) [OF assms(1)] by (force simp: stor_flags_def internal_def storage_of_def)
  then show ?thesis using Some s by (auto simp: unref_def Let_def upd_info_def)
qed (simp add: unref_def)

lemma fresh_mono:
  assumes "fresh h" "dom (iobs h') \<subseteq> dom (iobs h)" "dom (infos h') \<subseteq> dom (infos h)"
    "dom (blks h') \<subseteq> dom (blks h)" "dom (stors h') \<subseteq> dom (stors h)" "brk h \<le> brk h'"
  shows "fresh h'"
proof -
  have "{..<brk h} \<subseteq> {..<brk h'}" using assms(6) by auto
  then show ?thesis using assms(1-5) unfolding fresh_def Un_subset_iff by (meson subset_trans)
qed

lemma fresh_iff: "fresh h \<longleftrightarrow>
  (\<forall>q \<ge> brk h. iobs h q = None \<and> infos h q = None \<and> blks h q = None \<and> stors h q = None)"
  unfolding fresh_def subset_iff lessThan_iff Un_iff domIff by (meson not_le)

lemma ring_cong: "iobs h' = iobs h \<Longrightarrow> ring h' zs = ring h zs"
proof -
  assume "iobs h' = iobs h"
  then have "edge h' = edge h" by (auto simp: edge_def node_def fun_eq_iff)
  then have "path h' ps z = path h ps z" for ps z by (induction ps) auto
  then show ?thesis by (simp add: ring_def)
qed

lemma edge_remove:
  "q \<noteq> p \<Longrightarrow> r \<noteq> p \<Longrightarrow> edge (h\<lparr>iobs := (iobs h)(p := None)\<rparr>) q r = edge h q r"
  by (simp add: edge_def node_def)

lemma path_remove:
  "p \<notin> set ps \<Longrightarrow> z \<noteq> p \<Longrightarrow> path (h\<lparr>iobs := (iobs h)(p := None)\<rparr>) ps z = path h ps z"
proof (induction ps)
  case (Cons q ps)
  then have "hd (ps @ [z]) \<noteq> p" by (cases ps) auto
  then show ?case using Cons by (simp add: edge_remove del: fun_upd_apply)
qed simp

lemma ring_remove: "p \<notin> set zs \<Longrightarrow> ring (h\<lparr>iobs := (iobs h)(p := None)\<rparr>) zs = ring h zs"
  unfolding ring_def by (metis path_remove hd_in_set)

lemma links_ok_remove:
  assumes "links_ok h" "edge h p p"
  shows "links_ok (h\<lparr>iobs := (iobs h)(p := None)\<rparr>)"
proof -
  have "(\<exists>r. edge (h\<lparr>iobs := (iobs h)(p := None)\<rparr>) q r) \<and> (\<exists>r. edge (h\<lparr>iobs := (iobs h)(p := None)\<rparr>) r q)"
    if q: "q \<in> dom (iobs h)" "q \<noteq> p" for q
  proof -
    obtain r t where rt: "edge h q r" "edge h t q" using assms(1) q unfolding links_ok_def by blast
    then have "r \<noteq> p" "t \<noteq> p" using assms(2) q(2) edge_unique by blast+
    then show ?thesis using rt q(2) edge_remove by blast
  qed
  then show ?thesis by (auto simp: links_ok_def)
qed


definition dropped :: "nat \<Rightarrow> heap \<Rightarrow> heap" where
  "dropped p h = (unref (node h p) h)\<lparr>iobs := (iobs h)(p := None)\<rparr>"

lemma dropped_sel [simp]:
  "iobs (dropped p h) = (iobs h)(p := None)" "brk (dropped p h) = brk h" "oom (dropped p h) = oom h"
  "junk (dropped p h) = junk h"
  by (simp_all add: dropped_def)

lemma end_iob_eq:
  assumes "heap_ok U H h" "iobs h p \<noteq> None"
  shows "end_iob p h = Inr ((), dropped p h)"
proof -
  obtain n where n: "iobs h p = Some n" using assms(2) by auto
  obtain ow where inv: "mem_inv U H ow h (iobs h)" using assms(1) by (auto simp: heap_ok_def)
  show ?thesis using decrementRefcount_eq [OF inv n n] n
    by (simp add: end_iob_def dropped_def node_def)
qed

lemma inv_dropped:
  assumes "mem_inv U H ow h (iobs h)" "iobs h p \<noteq> None"
  shows "mem_inv U H ow (dropped p h) (iobs (dropped p h))"
proof -
  obtain n where n: "iobs h p = Some n" using assms(2) by auto
  have "mem_inv U H ow (unref n h) ((iobs h)(p := None))" using inv_unref [OF assms(1) n] .
  then show ?thesis using n inv_cong [of "dropped p h" "unref n h"]
    by (simp add: dropped_def node_def)
qed

lemma fresh_dropped:
  assumes "mem_inv U H ow h (iobs h)" "iobs h p \<noteq> None" "fresh h"
  shows "fresh (dropped p h)"
proof -
  obtain n where n: "iobs h p = Some n" using assms(2) by auto
  show ?thesis by (rule fresh_mono [OF assms(3)])
     (use unref_dom [of n h] unref_stors [OF assms(1) n] n in \<open>auto simp: dropped_def node_def\<close>)
qed

lemma links_ok_cong: "iobs h' = iobs h \<Longrightarrow> links_ok h' = links_ok h"
  by (simp add: links_ok_def edge_def node_def)

lemma view_dropped:
  assumes inv: "mem_inv U H ow h (iobs h)" "iobs h p \<noteq> None" "q \<noteq> p"
  shows "view (dropped p h) q = view h q"
proof (rule view_cong)
  show "map_option payload (iobs (dropped p h) q) = map_option payload (iobs h q)"
    using assms(3) by simp
  fix b assume q: "iobs h q \<noteq> None" "buf' (node h q) = Some b"
  then obtain m where m: "iobs h q = Some m" "buf' m = Some b" by (auto simp: node_def)
  then have "iobs (dropped p h) q = Some m" using assms(3) by simp
  then have "node_ok U ow (dropped p h) m" using invD(2) [OF inv_dropped [OF assms(1,2)]] by blast
  then obtain xs where xs: "blks (dropped p h) b = Some xs" using m(2) by (auto simp: node_ok_def)
  then have "blks (unref (node h p) h) b = Some xs" by (simp add: dropped_def)
  then have "blks h b = Some xs" by (rule unref_blks)
  then show "blks (dropped p h) b = blks h b" using xs by simp
qed

lemma ring_dropped: "p \<notin> set zs \<Longrightarrow> ring (dropped p h) zs = ring h zs"
  using ring_remove [of p zs h] ring_cong [of "dropped p h" "h\<lparr>iobs := (iobs h)(p := None)\<rparr>" zs] by simp

lemma frame_dropped:
  assumes "heap_ok U H h" "iobs h p \<noteq> None"
  shows "frame {p} h (dropped p h)"
  unfolding frame_def using assms view_dropped [OF _ assms(2)] ring_dropped [of p]
  by (auto simp: heap_ok_def)

text \<open>The destructor of an unchained IOBuf that is held by value.\<close>

lemma heap_ok_dropped:
  assumes "heap_ok U H h" "edge h p p" "p \<notin> H"
  shows "heap_ok U H (dropped p h)"
proof -
  obtain ow where inv: "mem_inv U H ow h (iobs h)" using assms(1) by (auto simp: heap_ok_def)
  have "links_ok (h\<lparr>iobs := (iobs h)(p := None)\<rparr>)"
    using assms by (intro links_ok_remove) (auto simp: heap_ok_def)
  then have "links_ok (dropped p h)"
    using links_ok_cong [of "dropped p h" "h\<lparr>iobs := (iobs h)(p := None)\<rparr>"] by simp
  then show ?thesis using assms inv_dropped [OF inv edge_live(1)] fresh_dropped [OF inv edge_live(1)]
    by (auto simp: heap_ok_def)
qed

lemma node_ok_cong: "infos h' = infos h \<Longrightarrow> blks h' = blks h \<Longrightarrow> node_ok U ow h' n = node_ok U ow h n"
  by (simp add: node_ok_def cong: option.case_cong)

lemma inv_release:
  assumes "mem_inv U H ow h R" "p \<in> H"
  obtains h' where "releaseStorage p kIOBufInUse h = Inr ((), h')" "mem_inv U (H - {p}) ow h' R"
    "h' = h\<lparr>stors := stor_flags (H - {p}) (storage_of h ` internal h)\<rparr>"
proof -
  let ?D = "storage_of h ` internal h"
  let ?h = "h\<lparr>stors := stor_flags (H - {p}) ?D\<rparr>"
  have st: "stors h = stor_flags H ?D" using assms(1) by (rule invD)
  have upd: "stor_flags (H - {p}) ?D = (stors h)(p := if p \<in> ?D then Some kDataInUse else None)"
    using assms(2) by (auto simp: st stor_flags_def fun_eq_iff)
  have "releaseStorage p kIOBufInUse h = Inr ((), ?h)"
    using assms(2) unfolding releaseStorage_def upd
    by (auto simp: st stor_flags_def kIOBufInUse_def kDataInUse_def)
  moreover have "mem_inv U (H - {p}) ow ?h R"
  proof -
    have "internal ?h = internal h" "storage_of ?h = storage_of h" "node_ok U ow ?h = node_ok U ow h"
      by (simp_all add: internal_def storage_of_def [abs_def] node_ok_cong fun_eq_iff)
    then show ?thesis using assms(1) by (simp add: mem_inv_def)
  qed
  ultimately show ?thesis using that by blast
qed

lemma delete_one_ok:
  assumes ok: "heap_ok U H h" and p: "edge h p p" "p \<in> H"
  obtains h' where "delete_one p h = Inr ((), h')" "heap_ok U (H - {p}) h'"
    "iobs h' = (iobs h)(p := None)" "frame {p} h h'" "brk h' = brk h" "oom h' = oom h"
proof -
  obtain ow where inv: "mem_inv U H ow h (iobs h)" using ok by (auto simp: heap_ok_def)
  have live: "iobs h p \<noteq> None" using p(1) by (rule edge_live)
  obtain h' where h': "releaseStorage p kIOBufInUse (dropped p h) = Inr ((), h')"
    "mem_inv U (H - {p}) ow h' (iobs (dropped p h))"
    "h' = (dropped p h)\<lparr>stors := stor_flags (H - {p}) (storage_of (dropped p h) ` internal (dropped p h))\<rparr>"
    using inv_release [OF inv_dropped [OF inv live] p(2)] .
  have iobs: "iobs h' = (iobs h)(p := None)" by (simp add: h'(3))
  have "links_ok (h\<lparr>iobs := (iobs h)(p := None)\<rparr>)"
    using ok p by (intro links_ok_remove) (auto simp: heap_ok_def)
  then have links: "links_ok h'" using links_ok_cong [of h' "h\<lparr>iobs := (iobs h)(p := None)\<rparr>"] iobs by simp
  have fr: "fresh h'"
  proof (rule fresh_mono [OF fresh_dropped [OF inv live]])
    have "stors (dropped p h) = stor_flags H (storage_of (dropped p h) ` internal (dropped p h))"
      using invD(8) [OF inv_dropped [OF inv live]] .
    then show "dom (stors h') \<subseteq> dom (stors (dropped p h))"
      by (auto simp: h'(3) stor_flags_def split: if_splits)
  qed (use ok in \<open>auto simp: h'(3) heap_ok_def\<close>)
  have "heap_ok U (H - {p}) h'" using links fr h'(2) ok iobs by (auto simp: heap_ok_def)
  moreover have "delete_one p h = Inr ((), h')"
    using end_iob_eq [OF ok live] h'(1) by (simp add: delete_one_def)
  moreover have "frame {p} h h'"
  proof -
    have "view h' q = view (dropped p h) q" for q by (rule view_cong) (simp_all add: h'(3))
    moreover have "ring h' zs = ring (dropped p h) zs" for zs by (rule ring_cong) (simp add: h'(3))
    ultimately show ?thesis using frame_dropped [OF ok live] by (simp add: frame_def)
  qed
  ultimately show ?thesis using that iobs by (simp add: h'(3))
qed

lemma delete_rest_ok:
  assumes "heap_ok U H h" "ring h (p # ps)" "set ps \<subseteq> H" "length ps < fuel"
  obtains h' where "delete_rest fuel p h = Inr ((), h')" "heap_ok U (H - set ps) h'" "ring h' [p]"
    "dom (iobs h') = dom (iobs h) - set ps" "frame (set (p # ps)) h h'" "view h' p = view h p"
    "map_option payload (iobs h' p) = map_option payload (iobs h p)" "brk h' = brk h" "oom h' = oom h"
  using assms
proof (induction ps arbitrary: fuel h H thesis)
  case Nil
  obtain n where "iobs h p = Some n" "next' n = p" using ring_Cons_edges(1) [OF Nil.prems(3)]
    by (auto elim: edgeE)
  then have "delete_rest fuel p h = Inr ((), h)" using Nil.prems(5) by (cases fuel) (auto simp: iob_def)
  then show ?case using Nil.prems by (intro Nil.prems(1) [of h]) auto
next
  case (Cons q ps)
  note ok = Cons.prems(2) and r = Cons.prems(3)
  obtain f where f: "fuel = Suc f" "length ps < f" using Cons.prems(5) by (cases fuel) auto
  have d: "p \<notin> set (q # ps)" "q \<notin> set ps" using r by (auto simp: ring_def)
  have r2: "ring h (q # ps @ [p])" using ring_rotate [of h "[p]" "q # ps"] r by simp
  obtain h1 where h1: "unlink q h = Inr (q, h1)" "ring h1 [q]" "ring h1 (ps @ [p])"
    "h1 = swap_edges (last (ps @ [p])) q q (hd (ps @ [p])) h"
    using unlink_ring [OF r2] by (metis Nil_is_append_conv list.distinct(1))
  have e: "edge h p q" "edge h q (hd (ps @ [p]))" using ring_Cons_edges(1) [OF r] ring_Cons_edges(1) [OF r2]
    by (cases ps; simp)+
  have ok1: "heap_ok U H h1" unfolding h1(4) using heap_ok_swap [OF ok] e by simp
  have fr1: "frame (set (p # q # ps)) h h1"
    unfolding h1(4) using e by (intro frame_swap) (auto simp: hd_append)
  obtain h2 where h2: "delete_one q h1 = Inr ((), h2)" "heap_ok U (H - {q}) h2" "iobs h2 = (iobs h1)(q := None)"
    "frame {q} h1 h2" "brk h2 = brk h1" "oom h2 = oom h1"
    using delete_one_ok [OF ok1, of q] h1(2) Cons.prems(4) by (auto simp: ring_singleton)
  have "ring h1 (p # ps)" using ring_rotate [OF h1(3)] by simp
  then have r3: "ring h2 (p # ps)" using frame_ring [OF h2(4)] d by auto
  have sub: "set ps \<subseteq> H - {q}" using Cons.prems(4) d by auto
  obtain h' where h': "delete_rest f p h2 = Inr ((), h')" "heap_ok U (H - {q} - set ps) h'" "ring h' [p]"
    "dom (iobs h') = dom (iobs h2) - set ps" "frame (set (p # ps)) h2 h'" "view h' p = view h2 p"
    "map_option payload (iobs h' p) = map_option payload (iobs h2 p)" "brk h' = brk h2" "oom h' = oom h2"
    using Cons.IH [OF _ h2(2) r3 sub f(2)] by metis
  obtain n where "iobs h p = Some n" "next' n = q" using e(1) by (auto elim: edgeE)
  then have run: "delete_rest fuel p h = Inr ((), h')"
    using f d h1(1) h2(1) h'(1) by (auto simp: iob_def)
  show ?case
  proof (rule Cons.prems(1) [OF run])
    show "heap_ok U (H - set (q # ps)) h'" using h'(2) by (simp add: set_diff_eq Collect_conj_eq Diff_insert2)
    show "dom (iobs h') = dom (iobs h) - set (q # ps)" using h'(4) h2(3) h1(4) by auto
    show "frame (set (p # q # ps)) h h'"
      using frame_trans [OF frame_trans [OF fr1 h2(4)] h'(5)] by (rule frame_mono) auto
    show "view h' p = view h p" using h'(6) frame_view [OF h2(4), of p] d by (simp add: h1(4))
    show "map_option payload (iobs h' p) = map_option payload (iobs h p)" using h'(7) h2(3) d by (simp add: h1(4))
  qed (use h'(3,8,9) h2(5,6) h1(4) in simp_all)
qed


lemma delete_iob_eq:
  "delete_iob p h = bindE (delete_rest (brk h) p h) (\<lambda>(_, h). delete_one p h)"
  unfolding delete_iob_def destructor_def delete_one_def
  by (cases "delete_rest (brk h) p h") (auto split: prod.splits)

lemma delete_iob_ok:
  assumes "heap_ok U H h" "ring h (p # ps)" "set (p # ps) \<subseteq> H"
  obtains h' where "delete_iob p h = Inr ((), h')" "heap_ok U (H - set (p # ps)) h'"
    "dom (iobs h') = dom (iobs h) - set (p # ps)" "frame (set (p # ps)) h h'" "brk h' = brk h" "oom h' = oom h"
proof -
  have "length ps < brk h" using ring_length_le [OF assms(2)] assms(1) by (auto simp: heap_ok_def)
  then obtain h1 where h1: "delete_rest (brk h) p h = Inr ((), h1)" "heap_ok U (H - set ps) h1" "ring h1 [p]"
    "dom (iobs h1) = dom (iobs h) - set ps" "frame (set (p # ps)) h h1" "brk h1 = brk h" "oom h1 = oom h"
    using delete_rest_ok [OF assms(1,2)] assms(3) by (metis set_subset_Cons subset_trans)
  have "p \<in> H - set ps" using assms(2,3) by (auto simp: ring_def)
  then obtain h2 where h2: "delete_one p h1 = Inr ((), h2)" "heap_ok U (H - set ps - {p}) h2"
    "iobs h2 = (iobs h1)(p := None)" "frame {p} h1 h2" "brk h2 = brk h1" "oom h2 = oom h1"
    using delete_one_ok [OF h1(2)] h1(3) by (auto simp: ring_singleton)
  show ?thesis
  proof (rule that)
    show "delete_iob p h = Inr ((), h2)" using h1(1) h2(1) by (simp add: delete_iob_eq)
    have "H - set ps - {p} = H - set (p # ps)" by auto
    then show "heap_ok U (H - set (p # ps)) h2" using h2(2) by simp
    show "frame (set (p # ps)) h h2" using frame_trans [OF h1(5) h2(4)] by (rule frame_mono) auto
  qed (use h1 h2 in auto)
qed

lemma destructor_ok:
  assumes "heap_ok U H h" "ring h (p # ps)" "set ps \<subseteq> H" "p \<notin> H"
  obtains h' where "destructor p h = Inr ((), h')" "heap_ok U (H - set ps) h'"
    "dom (iobs h') = dom (iobs h) - set (p # ps)" "frame (set (p # ps)) h h'" "brk h' = brk h" "oom h' = oom h"
proof -
  have "length ps < brk h" using ring_length_le [OF assms(2)] assms(1) by (auto simp: heap_ok_def)
  then obtain h1 where h1: "delete_rest (brk h) p h = Inr ((), h1)" "heap_ok U (H - set ps) h1" "ring h1 [p]"
    "dom (iobs h1) = dom (iobs h) - set ps" "frame (set (p # ps)) h h1" "brk h1 = brk h" "oom h1 = oom h"
    using delete_rest_ok [OF assms(1,2,3)] by metis
  have e: "edge h1 p p" using h1(3) by (simp add: ring_singleton)
  have ok: "heap_ok U (H - set ps) (dropped p h1)" using heap_ok_dropped [OF h1(2) e] assms(4) by simp
  have fr: "frame {p} h1 (dropped p h1)" using frame_dropped [OF h1(2) edge_live(1) [OF e]] .
  show ?thesis
  proof (rule that)
    show "destructor p h = Inr ((), dropped p h1)"
      using h1(1) end_iob_eq [OF h1(2) edge_live(1) [OF e]] by (simp add: destructor_def)
    show "frame (set (p # ps)) h (dropped p h1)" using frame_trans [OF h1(5) fr] by (rule frame_mono) auto
  qed (use h1 ok in auto)
qed

text \<open>
  No leak and no double free: once no IOBuf is left, no record, no storage and no block is
  left but the blocks that belong to the user.
\<close>

lemma heap_ok_no_leak:
  assumes "heap_ok U {} h" "iobs h = Map.empty"
  shows "infos h = Map.empty" "stors h = Map.empty" "dom (blks h) = U"
proof -
  obtain ow where inv: "mem_inv U {} ow h Map.empty" using assms by (auto simp: heap_ok_def)
  have "infos h i = None" for i
  proof (cases "infos h i")
    case (Some s)
    then have "info_ok Map.empty i s" using invD(3) [OF inv] by blast
    then have "refcount s \<noteq> 0" "unat (refcount s) = 0" by (simp_all add: info_ok_def refs_def)
    then show ?thesis by (simp add: unat_eq_zero)
  qed
  then show inf: "infos h = Map.empty" by auto
  then have "internal h = {}" by (simp add: internal_def)
  then show "stors h = Map.empty" using invD(8) [OF inv] by (simp add: stor_flags_def fun_eq_iff)
  show "dom (blks h) = U" using invD(5) [OF inv] inf by simp
qed

section \<open>External buffers\<close>

lemma unat_goodExtBufferSize:
  assumes "c + 31 < 2 ^ 64"
  shows "unat (goodExtBufferSize (of_nat c)) = 8 * ((c + 31) div 8)"
proof -
  have u: "unat (of_nat (c + 31) :: u64) = c + 31" using assms by (simp add: unat_of_nat take_bit_nat_eq_self_iff del: of_nat_add)
  have e: "goodExtBufferSize (of_nat c) = of_nat (c + 31) AND NOT 7"
    by (simp add: goodExtBufferSize_def sizeof_SharedInfo_def Let_def algebra_simps)
  have m: "(7 :: u64) = mask 3" by (simp add: mask_eq_exp_minus_1)
  have "(x :: u64) AND NOT (mask 3) = push_bit 3 (drop_bit 3 x)" for x
    by (rule bit_word_eqI) (auto simp: bit_simps)
  then have "unat (goodExtBufferSize (of_nat c)) = unat (push_bit 3 (drop_bit 3 (of_nat (c + 31) :: u64)))"
    by (simp only: e m)
  also have "\<dots> = take_bit 64 (push_bit 3 (drop_bit 3 (c + 31)))"
    using u by (simp add: unsigned_push_bit_eq unat_drop_bit_eq del: of_nat_add)
  also have "\<dots> = push_bit 3 (drop_bit 3 (c + 31))"
    using assms by (simp add: take_bit_nat_eq_self_iff push_bit_eq_mult drop_bit_eq_div)
  finally show ?thesis by (simp add: push_bit_eq_mult drop_bit_eq_div)
qed

definition ext_capacity :: "nat \<Rightarrow> nat" where
  "ext_capacity c = 8 * ((c + 31) div 8) - 24"

lemma ext_capacity_ge: "c \<le> ext_capacity c"
  by (simp add: ext_capacity_def)

definition grown :: "bytes \<Rightarrow> heap \<Rightarrow> heap" where
  "grown ys h = h\<lparr>blks := (blks h)(brk h \<mapsto> ys),
     infos := (infos h)(Suc (brk h) \<mapsto> new_SharedInfo None 0 False), brk := brk h + 2\<rparr>"

lemma grown_sel [simp]:
  "iobs (grown ys h) = iobs h" "stors (grown ys h) = stors h" "brk (grown ys h) = brk h + 2"
  "oom (grown ys h) = oom h" "junk (grown ys h) = junk h" "calls (grown ys h) = calls h"
  "blks (grown ys h) = (blks h)(brk h \<mapsto> ys)"
  "infos (grown ys h) = (infos h)(Suc (brk h) \<mapsto> new_SharedInfo None 0 False)"
  by (simp_all add: grown_def)

lemma allocExtBuffer_eq:
  assumes "c + 31 < 2 ^ 64"
  shows "allocExtBuffer c h = (if oom h (ext_capacity c + 24) then Inl (BadAlloc, h)
    else Inr ((brk h, Suc (brk h), ext_capacity c), grown (replicate (ext_capacity c) (junk h)) h))"
proof -
  have "24 \<le> 8 * ((c + 31) div 8)" by simp
  then have "unat (goodExtBufferSize (of_nat c)) = ext_capacity c + 24"
    using unat_goodExtBufferSize [OF assms] by (simp add: ext_capacity_def)
  then show ?thesis
    by (simp add: allocExtBuffer_def malloc_def initExtBuffer_def sizeof_SharedInfo_def Let_def
        alloc_info_def grown_def)
qed

lemma length_overwrite [simp]: "off + length ys \<le> length xs \<Longrightarrow> length (overwrite off ys xs) = length xs"
  by (simp add: overwrite_def)

lemma overwrite_append:
  "off + length ys + length zs \<le> length xs \<Longrightarrow>
   overwrite (off + length ys) zs (overwrite off ys xs) = overwrite off (ys @ zs) xs"
  by (simp add: overwrite_def min_absorb2 ac_simps)

lemma overwrite_Nil [simp]: "overwrite off [] xs = xs"
  by (simp add: overwrite_def)

lemma take_drop_overwrite:
  "off + length ys \<le> length xs \<Longrightarrow> take (length ys) (drop off (overwrite off ys xs)) = ys"
  by (simp add: overwrite_def min_def)

lemma blk_write_grown:
  "off + length zs \<le> length ys \<Longrightarrow>
   blk_write (Some (brk h)) off zs (grown ys h) = Inr ((), grown (overwrite off zs ys) h)"
  by (auto simp: blk_write_def grown_def)

lemma heap_ok_node:
  assumes "heap_ok U H h" "iobs h p = Some n" "0 < length' n"
  obtains b xs where "buf' n = Some b" "blks h b = Some xs" "data' n + length' n \<le> length xs" "b < brk h"
proof -
  obtain ow where inv: "mem_inv U H ow h (iobs h)" and fr: "fresh h" using assms(1) by (auto simp: heap_ok_def)
  have "node_ok U ow h n" using inv assms(2) by (rule invD)
  then obtain b xs where bx: "buf' n = Some b" "blks h b = Some xs" "data' n + length' n \<le> length xs"
    using assms(3) by (auto simp: node_ok_def split: option.splits)
  have "b \<in> dom (blks h)" using bx(2) by auto
  then have "b < brk h" using fr unfolding fresh_def by auto
  then show ?thesis using that bx by blast
qed

lemma length_node_bytes:
  assumes "heap_ok U H h" "iobs h p = Some n"
  shows "length (node_bytes h p) = length' n"
proof (cases "0 < length' n")
  case True
  then show ?thesis using heap_ok_node [OF assms] assms(2) by (force simp: node_bytes_def node_def)
next
  case False
  then show ?thesis using assms(2) by (simp add: node_bytes_def node_def split: option.split)
qed

lemma blk_read_node:
  assumes "heap_ok U H h" "iobs h p = Some n" "0 < length' n"
    "\<And>b. buf' n = Some b \<Longrightarrow> blks h' b = blks h b"
  shows "blk_read (buf' n) (data' n) (length' n) h' = Inr (node_bytes h p, h')"
proof -
  obtain b xs where "buf' n = Some b" "blks h b = Some xs" "data' n + length' n \<le> length xs"
    using heap_ok_node [OF assms(1-3)] .
  then show ?thesis using assms(2,4) by (simp add: blk_read_def node_bytes_def node_def)
qed

lemma blk_read_grown:
  assumes "heap_ok U H h" "iobs h p = Some n" "0 < length' n"
  shows "blk_read (buf' n) (data' n) (length' n) (grown ys h) = Inr (node_bytes h p, grown ys h)"
proof -
  obtain b xs where "buf' n = Some b" "b < brk h" using heap_ok_node [OF assms] .
  then show ?thesis by (intro blk_read_node [OF assms]) auto
qed

lemma copy_loop_eq:
  assumes ok: "heap_ok U H h"
  shows "\<lbrakk>\<And>q. q \<in> set ps \<Longrightarrow> iobs h q \<noteq> None; length (concat (map (node_bytes h) ps)) \<le> rem;
     off + length (concat (map (node_bytes h) ps)) \<le> length ys\<rbrakk> \<Longrightarrow>
   copy_loop ps (brk h) off rem (grown ys h) =
     Inr (rem - length (concat (map (node_bytes h) ps)), grown (overwrite off (concat (map (node_bytes h) ps)) ys) h)"
proof (induction ps arbitrary: off rem ys)
  case (Cons q ps)
  obtain n where n: "iobs h q = Some n" using Cons.prems(1) by force
  have len: "length (node_bytes h q) = length' n" using length_node_bytes [OF ok n] .
  show ?case
  proof (cases "0 < length' n")
    case True
    have "copy_loop (q # ps) (brk h) off rem (grown ys h) =
      copy_loop ps (brk h) (off + length' n) (rem - length' n) (grown (overwrite off (node_bytes h q) ys) h)"
      using True Cons.prems(2,3) blk_read_grown [OF ok n True] blk_write_grown [of off "node_bytes h q" ys h] n len
      by (simp add: iob_def check_def)
    also have "\<dots> = Inr (rem - length' n - length (concat (map (node_bytes h) ps)),
        grown (overwrite (off + length' n) (concat (map (node_bytes h) ps)) (overwrite off (node_bytes h q) ys)) h)"
      using Cons.prems len by (intro Cons.IH) auto
    finally show ?thesis using Cons.prems(3) len overwrite_append [of off "node_bytes h q" _ ys]
      by (simp add: algebra_simps)
  next
    case False
    then show ?thesis using Cons n len by (simp add: iob_def)
  qed
qed simp


section \<open>Replacing a buffer\<close>

definition links :: "iobuf \<Rightarrow> nat \<times> nat" where
  "links n = (next' n, prev' n)"

lemma edge_links:
  assumes "\<And>q. map_option links (iobs h' q) = map_option links (iobs h q)"
  shows "edge h' p q = edge h p q"
proof -
  have live: "iobs h' r = None \<longleftrightarrow> iobs h r = None" for r using assms [of r] by (metis map_option_is_None)
  moreover have "next' (node h' r) = next' (node h r) \<and> prev' (node h' r) = prev' (node h r)"
    if "iobs h r \<noteq> None" for r
    using assms [of r] that by (auto simp: node_def links_def map_option_case split: option.splits)
  ultimately show ?thesis unfolding edge_def by metis
qed

lemma ring_links:
  assumes "\<And>q. map_option links (iobs h' q) = map_option links (iobs h q)"
  shows "ring h' zs = ring h zs" "links_ok h' = links_ok h"
proof -
  have e: "edge h' = edge h" using edge_links [OF assms] by blast
  then have "path h' ps z = path h ps z" for ps z by (induction ps) auto
  then show "ring h' zs = ring h zs" by (simp add: ring_def)
  have "iobs h' q = None \<longleftrightarrow> iobs h q = None" for q using assms [of q] by (metis map_option_is_None)
  then have "dom (iobs h') = dom (iobs h)" by (simp add: dom_def)
  then show "links_ok h' = links_ok h" by (simp add: links_ok_def e)
qed

definition rebuffed :: "nat \<Rightarrow> iobuf \<Rightarrow> bytes \<Rightarrow> heap \<Rightarrow> heap" where
  "rebuffed p m ys h = (unref (node h p) (grown ys h))\<lparr>iobs := (iobs h)(p \<mapsto> m)\<rparr>"

lemma rebuffed_sel [simp]:
  "iobs (rebuffed p m ys h) = (iobs h)(p \<mapsto> m)" "brk (rebuffed p m ys h) = brk h + 2"
  "oom (rebuffed p m ys h) = oom h"
  by (simp_all add: rebuffed_def)

lemma heap_ok_fresh:
  assumes "heap_ok U H h" "brk h \<le> q"
  shows "iobs h q = None" "infos h q = None" "blks h q = None" "stors h q = None"
proof -
  have "q \<notin> dom (iobs h) \<union> dom (infos h) \<union> dom (blks h) \<union> dom (stors h)"
    using assms unfolding heap_ok_def fresh_def by (meson lessThan_iff not_le subsetD)
  then show "iobs h q = None" "infos h q = None" "blks h q = None" "stors h q = None" by auto
qed

definition replaces :: "heap \<Rightarrow> nat \<Rightarrow> iobuf \<Rightarrow> bytes \<Rightarrow> bool" where
  "replaces h p m ys \<longleftrightarrow> iobs h p \<noteq> None \<and> links m = links (node h p) \<and>
     sharedInfo m = Some (Suc (brk h)) \<and> buf' m = Some (brk h) \<and> \<not> kFlagFreeSharedInfo m \<and>
     data' m + length' m \<le> capacity' m \<and> capacity' m \<le> length ys"

lemma inv_grown:
  assumes ok: "heap_ok U H h" and m: "replaces h p m ys"
  obtains ow where "mem_inv U H ow (grown ys h) ((iobs h)(brk h \<mapsto> m))"
proof -
  obtain ow where inv: "mem_inv U H ow h (iobs h)" using ok by (auto simp: heap_ok_def)
  note fr = heap_ok_fresh [OF ok, of "brk h"] heap_ok_fresh [OF ok, of "Suc (brk h)"]
  have "mem_inv U H (ow(Suc (brk h) := brk h)) (grown ys h) ((iobs h)(brk h \<mapsto> m))"
    by (rule inv_new [OF inv, where xs = ys and s = "new_SharedInfo None 0 False"])
       (use fr m invD(8) [OF inv] in \<open>simp_all add: replaces_def new_SharedInfo_def\<close>)
  then show ?thesis by (rule that)
qed

lemma decrementRefcount_grown:
  assumes ok: "heap_ok U H h" and m: "replaces h p m ys"
  shows "decrementRefcount p (grown ys h) = Inr ((), unref (node h p) (grown ys h))"
proof -
  obtain ow where inv: "mem_inv U H ow (grown ys h) ((iobs h)(brk h \<mapsto> m))" using inv_grown [OF assms] .
  obtain n where n: "iobs h p = Some n" using m by (auto simp: replaces_def)
  have "p \<noteq> brk h" using n heap_ok_fresh [OF ok, of "brk h"] by auto
  then show ?thesis using decrementRefcount_eq [OF inv, of p n] n by (simp add: node_def)
qed

lemma inv_rebuffed:
  assumes ok: "heap_ok U H h" and m: "replaces h p m ys"
  obtains ow where "mem_inv U H ow (rebuffed p m ys h) ((iobs h)(p \<mapsto> m))"
proof -
  obtain ow where inv: "mem_inv U H ow (grown ys h) ((iobs h)(brk h \<mapsto> m))" using inv_grown [OF assms] .
  obtain n where n: "iobs h p = Some n" using m by (auto simp: replaces_def)
  have q: "iobs h (brk h) = None" using heap_ok_fresh [OF ok] by simp
  then have ne: "p \<noteq> brk h" using n by auto
  have "mem_inv U H ow (unref n (grown ys h)) ((iobs h)(brk h \<mapsto> m, p := None))"
    using inv_unref [OF inv, of p n] n ne by simp
  then have "mem_inv U H ow (unref n (grown ys h)) ((iobs h)(brk h \<mapsto> m, p := None, brk h := None, p \<mapsto> m))"
    by (rule inv_move) (use ne in simp_all)
  moreover have "(iobs h)(brk h \<mapsto> m, p := None, brk h := None, p \<mapsto> m) = (iobs h)(p \<mapsto> m)"
    using q by auto
  ultimately have "mem_inv U H ow (rebuffed p m ys h) ((iobs h)(p \<mapsto> m))"
    using inv_cong [of "rebuffed p m ys h" "unref n (grown ys h)"] n by (simp add: rebuffed_def node_def)
  then show ?thesis by (rule that)
qed

lemma links_rebuffed:
  "replaces h p m ys \<Longrightarrow> map_option links (iobs (rebuffed p m ys h) q) = map_option links (iobs h q)"
  by (auto simp: replaces_def node_def)

lemma heap_ok_rebuffed:
  assumes ok: "heap_ok U H h" and m: "replaces h p m ys"
  shows "heap_ok U H (rebuffed p m ys h)"
proof -
  obtain ow where inv: "mem_inv U H ow (rebuffed p m ys h) ((iobs h)(p \<mapsto> m))" using inv_rebuffed [OF assms] .
  have fr: "fresh h" using ok by (simp add: heap_ok_def)
  have "links_ok (rebuffed p m ys h)"
    using ring_links(2) [OF links_rebuffed [OF m]] ok by (simp add: heap_ok_def)
  moreover have "fresh (rebuffed p m ys h)"
  proof -
    obtain ow' where inv': "mem_inv U H ow' (grown ys h) ((iobs h)(brk h \<mapsto> m))" using inv_grown [OF assms] .
    obtain n where n: "iobs h p = Some n" using m by (auto simp: replaces_def)
    have "p \<noteq> brk h" using n heap_ok_fresh [OF ok, of "brk h"] by auto
    then have st: "dom (stors (unref n (grown ys h))) \<subseteq> dom (stors h)"
      using unref_stors [OF inv', of p n] n by simp
    have fg: "fresh (grown ys h)" using fr by (simp add: fresh_iff)
    have "dom (iobs (rebuffed p m ys h)) = dom (iobs h)" using n by auto
    then show ?thesis using st unref_dom [of n "grown ys h"] n
      by (intro fresh_mono [OF fg]) (simp_all add: rebuffed_def node_def)
  qed
  ultimately show ?thesis using inv ok by (auto simp: heap_ok_def)
qed

lemma view_rebuffed:
  assumes ok: "heap_ok U H h" and m: "replaces h p m ys" and q: "q \<noteq> p"
  shows "view (rebuffed p m ys h) q = view h q"
proof (rule view_cong)
  obtain ow where inv: "mem_inv U H ow (rebuffed p m ys h) ((iobs h)(p \<mapsto> m))" using inv_rebuffed [OF ok m] .
  obtain ow' where inv': "mem_inv U H ow' h (iobs h)" using ok by (auto simp: heap_ok_def)
  fix b assume "iobs h q \<noteq> None" "buf' (node h q) = Some b"
  then obtain k where k: "iobs h q = Some k" "buf' k = Some b" by (auto simp: node_def)
  have "node_ok U ow (rebuffed p m ys h) k" using invD(2) [OF inv, of q k] k q by simp
  then obtain xs where "blks (rebuffed p m ys h) b = Some xs" using k(2) by (auto simp: node_ok_def)
  moreover have "b \<noteq> brk h"
    using invD(2) [OF inv' k(1)] k(2) heap_ok_fresh(3) [OF ok, of "brk h"] by (auto simp: node_ok_def)
  ultimately show "blks (rebuffed p m ys h) b = blks h b"
    using unref_blks [of "node h p" "grown ys h" b xs] by (auto simp: rebuffed_def)
qed (use q in simp)

lemma frame_rebuffed:
  assumes ok: "heap_ok U H h" and m: "replaces h p m ys"
  shows "frame {p} h (rebuffed p m ys h)"
  unfolding frame_def using view_rebuffed [OF assms] ring_links(1) [OF links_rebuffed [OF m]] by simp

lemma blks_rebuffed:
  assumes ok: "heap_ok U H h" and m: "replaces h p m ys"
  shows "blks (rebuffed p m ys h) (brk h) = Some ys"
proof -
  obtain ow where inv: "mem_inv U H ow (rebuffed p m ys h) ((iobs h)(p \<mapsto> m))" using inv_rebuffed [OF ok m] .
  have "node_ok U ow (rebuffed p m ys h) m" using invD(2) [OF inv, of p m] by simp
  then obtain xs where xs: "blks (rebuffed p m ys h) (brk h) = Some xs" using m by (auto simp: node_ok_def replaces_def)
  then show ?thesis using unref_blks [of "node h p" "grown ys h" "brk h" xs] by (simp add: rebuffed_def)
qed

lemma node_bytes_rebuffed:
  assumes ok: "heap_ok U H h" and m: "replaces h p m ys"
  shows "node_bytes (rebuffed p m ys h) p = take (length' m) (drop (data' m) ys)"
  using blks_rebuffed [OF assms] m by (simp add: node_bytes_def node_def replaces_def)


section \<open>Coalescing\<close>

definition chain_bytes :: "heap \<Rightarrow> nat list \<Rightarrow> bytes" where
  "chain_bytes h ps = concat (map (node_bytes h) ps)"

definition coalesced :: "nat \<Rightarrow> nat \<Rightarrow> nat \<Rightarrow> heap \<Rightarrow> iobuf \<Rightarrow> iobuf" where
  "coalesced hroom len cap h n = n\<lparr>sharedInfo := Some (Suc (brk h)), kFlagMaybeShared := False,
     kFlagFreeSharedInfo := False, capacity' := cap, buf' := Some (brk h), data' := hroom, length' := len\<rparr>"

lemma iobs_upd_iob [simp]: "iobs (upd_iob p f h) = (iobs h)(p := map_option f (iobs h p))"
  by (simp add: upd_iob_def)

lemma upd_iob_unref:
  assumes "iobs h p = Some n"
  shows "upd_iob p f (unref n (grown ys h)) = rebuffed p (f n) ys h"
  using assms by (simp add: upd_iob_def rebuffed_def node_def)

lemma ring_isChained:
  assumes "ring h (p # ps)"
  shows "isChained p h = Inr (ps \<noteq> [], h)"
proof -
  obtain n where n: "iobs h p = Some n" "next' n = hd (ps @ [p])" 
    using ring_Cons_edges(1) [OF assms] by (rule edgeE)
  obtain n' where n': "iobs h p = Some n'" "prev' n' = last (p # ps)"
    using ring_Cons_edges(2) [OF assms] by (rule edgeE)
  have "p \<notin> set ps" using assms by (simp add: ring_def)
  then have "hd (ps @ [p]) = p \<longleftrightarrow> ps = []" "last (p # ps) = p \<longleftrightarrow> ps = []"
    by (cases ps; auto)+
  then show ?thesis using n n' by (simp add: isChained_def iob_def check_def del: last.simps)
qed

lemma upto_end_ring:
  assumes "distinct (p # xs @ zs)" "fin = hd (zs @ [p])"
  shows "upto_end p fin (p # xs @ zs) = p # xs"
proof (cases zs)
  case Nil
  then show ?thesis using assms by (simp add: upto_end_def)
next
  case (Cons z zs')
  have "takeWhile (\<lambda>q. q \<noteq> z) (p # xs @ z # zs') = p # xs"
    using assms Cons by (auto simp: takeWhile_append takeWhile_eq_all_conv)
  then show ?thesis using assms Cons by (auto simp: upto_end_def)
qed

lemma replaces_coalesced:
  assumes "iobs h p = Some n" "hroom + len \<le> cap" "cap \<le> length ys"
  shows "replaces h p (coalesced hroom len cap h n) ys"
  using assms by (simp add: replaces_def coalesced_def links_def node_def)

lemma coalesce_copy:
  assumes ok: "heap_ok U H h" and r: "ring h (p # xs @ zs)" and fin: "fin = hd (zs @ [p])"
    and len: "len = length (chain_bytes h (p # xs))" and cap: "len + hroom + troom + 31 < 2 ^ 64"
    and mem: "\<not> oom h (ext_capacity (len + hroom + troom) + 24)" and n: "iobs h p = Some n"
  defines "ys \<equiv> overwrite hroom (chain_bytes h (p # xs)) (replicate (ext_capacity (len + hroom + troom)) (junk h))"
  defines "h1 \<equiv> rebuffed p (coalesced hroom len (ext_capacity (len + hroom + troom)) h n) ys h"
  shows "coalesceAndReallocate p hroom len fin troom h =
    bindE (isChained p h1) (\<lambda>(chained, h).
     if chained then
       bindE (iob h p) (\<lambda>(n, h).
       bindE (iob h fin) (\<lambda>(e, h).
       bindE (separateChain p (next' n) (prev' e) h) (\<lambda>(head, h). delete_iob head h)))
     else Inr ((), h))"
    and "replaces h p (coalesced hroom len (ext_capacity (len + hroom + troom)) h n) ys"
    and "node_bytes h1 p = chain_bytes h (p # xs)"
proof -
  let ?c = "len + hroom + troom"
  let ?y0 = "replicate (ext_capacity ?c) (junk h)"
  have ge: "hroom + len \<le> ext_capacity ?c" using ext_capacity_ge [of ?c] by simp
  have yl: "length ys = ext_capacity ?c" using ge by (simp add: ys_def len)
  show rep: "replaces h p (coalesced hroom len (ext_capacity ?c) h n) ys"
    by (rule replaces_coalesced) (use n ge yl in simp_all)
  have "ring (grown ?y0 h) (p # xs @ zs)" using r ring_cong [of "grown ?y0 h" h] by simp
  moreover have "fresh (grown ?y0 h)" using ok by (simp add: heap_ok_def fresh_iff)
  ultimately have ch: "chain (grown ?y0 h) p = Inr (p # xs @ zs, grown ?y0 h)" by (rule chain_ring)
  have up: "upto_end p fin (p # xs @ zs) = p # xs"
    using upto_end_ring [OF _ fin] r by (simp add: ring_def)
  have live: "iobs h q \<noteq> None" if "q \<in> set (p # xs)" for q using ring_live [OF r, of q] that by auto
  have cp: "copy_loop (p # xs) (brk h) hroom len (grown ?y0 h) = Inr (0, grown ys h)"
    using copy_loop_eq [OF ok live, of "p # xs" len hroom ?y0] ge
    by (simp add: len chain_bytes_def ys_def)
  have dec: "decrementRefcount p (grown ys h) = Inr ((), unref n (grown ys h))"
    using decrementRefcount_grown [OF ok rep] n by (simp add: node_def)
  have upd: "upd_iob p (\<lambda>n. n\<lparr>sharedInfo := Some (Suc (brk h)), kFlagMaybeShared := False,
     kFlagFreeSharedInfo := False, capacity' := ext_capacity ?c, buf' := Some (brk h), data' := hroom, length' := len\<rparr>)
     (unref n (grown ys h)) = h1"
    using upd_iob_unref [OF n] by (simp add: h1_def coalesced_def)
  show "coalesceAndReallocate p hroom len fin troom h =
    bindE (isChained p h1) (\<lambda>(chained, h).
     if chained then
       bindE (iob h p) (\<lambda>(n, h).
       bindE (iob h fin) (\<lambda>(e, h).
       bindE (separateChain p (next' n) (prev' e) h) (\<lambda>(head, h). delete_iob head h)))
     else Inr ((), h))"
    unfolding coalesceAndReallocate_def allocExtBuffer_eq [OF cap] using mem
    by (simp add: ch up cp check_def dec upd Let_def del: copy_loop.simps)
  show "node_bytes h1 p = chain_bytes h (p # xs)"
    using node_bytes_rebuffed [OF ok rep] ge take_drop_overwrite [of hroom "chain_bytes h (p # xs)" ?y0]
    by (simp add: h1_def ys_def coalesced_def len)
qed


lemma coalesceAndReallocate_oom:
  assumes "len + hroom + troom + 31 < 2 ^ 64" "oom h (ext_capacity (len + hroom + troom) + 24)"
  shows "coalesceAndReallocate p hroom len fin troom h = Inl (BadAlloc, h)"
  using assms by (simp add: coalesceAndReallocate_def allocExtBuffer_eq)

text \<open>No other live IOBuf refers to the buffer of this one.\<close>

definition exclusive :: "heap \<Rightarrow> nat \<Rightarrow> bool" where
  "exclusive h p \<longleftrightarrow> (\<exists>i. sharedInfo (node h p) = Some i \<and> refs (iobs h) i = {p})"

lemma rebuffed_exclusive:
  assumes ok: "heap_ok U H h" and m: "replaces h p m ys"
  shows "exclusive (rebuffed p m ys h) p"
proof -
  obtain ow where inv: "mem_inv U H ow h (iobs h)" using ok by (auto simp: heap_ok_def)
  have "sharedInfo n \<noteq> Some (Suc (brk h))" if "iobs h q = Some n" for q n
    using inv_node_infoD [OF inv that] heap_ok_fresh(2) [OF ok, of "Suc (brk h)"] by fastforce
  then have "refs (iobs (rebuffed p m ys h)) (Suc (brk h)) = {p}"
    using m by (auto simp: refs_def replaces_def split: if_splits)
  then show ?thesis using m by (auto simp: exclusive_def node_def replaces_def)
qed

lemma view_sharedInfo:
  "view h' q = view h q \<Longrightarrow> map_option sharedInfo (iobs h' q) = map_option sharedInfo (iobs h q)"
  by (auto simp: view_def map_option_case split: option.splits)

lemma refs_iff: "q \<in> refs R i \<longleftrightarrow> map_option sharedInfo (R q) = Some (Some i)"
  by (auto simp: refs_def)

lemma exclusive_mono:
  assumes "exclusive h p" "view h' p = view h p" "\<And>q. q \<noteq> p \<Longrightarrow> view h' q = view h q \<or> iobs h' q = None"
  shows "exclusive h' p"
proof -
  obtain i where i: "sharedInfo (node h p) = Some i" "refs (iobs h) i = {p}" using assms(1) by (auto simp: exclusive_def)
  have sub: "q \<in> refs (iobs h) i" if q: "q \<in> refs (iobs h') i" for q
  proof -
    have "iobs h' q \<noteq> None" using q by (auto simp: refs_def)
    then have "view h' q = view h q" using assms(2) assms(3) [of q] by (cases "q = p") auto
    then show ?thesis using q view_sharedInfo refs_iff by metis
  qed
  have p: "p \<in> refs (iobs h') i" using view_sharedInfo [OF assms(2)] i(2) refs_iff by (metis singletonI)
  then have "sharedInfo (node h' p) = Some i" by (auto simp: refs_def node_def)
  moreover have "refs (iobs h') i = {p}" using sub p i(2) by blast
  ultimately show ?thesis unfolding exclusive_def by blast
qed

definition coalesce_post :: "nat set \<Rightarrow> nat set \<Rightarrow> nat \<Rightarrow> nat list \<Rightarrow> nat list \<Rightarrow> nat \<Rightarrow> nat \<Rightarrow> heap \<Rightarrow> heap \<Rightarrow> bool" where
  "coalesce_post U H p xs zs hroom troom h h' \<longleftrightarrow>
     heap_ok U (H - set xs) h' \<and> ring h' (p # zs) \<and> dom (iobs h') = dom (iobs h) - set xs \<and>
     node_bytes h' p = chain_bytes h (p # xs) \<and> exclusive h' p \<and>
     headroom (node h' p) = hroom \<and> troom \<le> tailroom (node h' p) \<and>
     (\<forall>q. q \<notin> set (p # xs) \<longrightarrow> view h' q = view h q) \<and> frame (set (p # xs @ zs)) h h'"

lemma coalesceAndReallocate_ok:
  assumes ok: "heap_ok U H h" and r: "ring h (p # xs @ zs)" and fin: "fin = hd (zs @ [p])"
    and xs: "xs \<noteq> [] \<or> zs = []" "set xs \<subseteq> H"
    and len: "len = length (chain_bytes h (p # xs))" and cap: "len + hroom + troom + 31 < 2 ^ 64"
    and mem: "\<not> oom h (ext_capacity (len + hroom + troom) + 24)"
  obtains h' where "coalesceAndReallocate p hroom len fin troom h = Inr ((), h')"
    "coalesce_post U H p xs zs hroom troom h h'"
proof -
  obtain n where n: "iobs h p = Some n" using ring_live [OF r, of p] by auto
  let ?c = "ext_capacity (len + hroom + troom)"
  let ?m = "coalesced hroom len ?c h n"
  define ys where "ys = overwrite hroom (chain_bytes h (p # xs)) (replicate ?c (junk h))"
  define h1 where "h1 = rebuffed p ?m ys h"
  note cc = coalesce_copy [OF ok r fin len cap mem n, folded ys_def, folded h1_def]
  have ok1: "heap_ok U H h1" using heap_ok_rebuffed [OF ok cc(2)] by (simp add: h1_def)
  have r1: "ring h1 ws = ring h ws" for ws using ring_links(1) [OF links_rebuffed [OF cc(2)]] by (simp add: h1_def)
  have ex: "exclusive h1 p" using rebuffed_exclusive [OF ok cc(2)] by (simp add: h1_def)
  have fr: "frame {p} h h1" using frame_rebuffed [OF ok cc(2)] by (simp add: h1_def)
  have dom1: "dom (iobs h1) = dom (iobs h)" using n by (auto simp: h1_def)
  have room: "headroom (node h1 p) = hroom" "troom \<le> tailroom (node h1 p)"
    using ext_capacity_ge [of "len + hroom + troom"]
    by (simp_all add: h1_def node_def headroom_def tailroom_def coalesced_def)
  show ?thesis
  proof (cases "xs = []")
    case True
    then have "zs = []" using xs by simp
    then have "coalesceAndReallocate p hroom len fin troom h = Inr ((), h1)"
      using cc(1) ring_isChained [of h1 p "[]"] r True r1 by simp
    moreover have "coalesce_post U H p xs zs hroom troom h h1"
      using True \<open>zs = []\<close> ok1 r r1 ex fr dom1 room cc(3) frame_view [OF fr] by (simp add: coalesce_post_def)
    ultimately show ?thesis using that by blast
  next
    case False
    have r2: "ring h1 ([p] @ xs @ zs)" using r r1 by simp
    obtain h2 where h2: "separateChain (hd [p]) (hd xs) (last xs) h1 = Inr (hd xs, h2)"
      "ring h2 ([p] @ zs)" "ring h2 xs" "h2 = swap_edges (last [p]) (hd xs) (last xs) (hd (zs @ [p])) h1"
      using separateChain_ring [OF r2 _ False] by blast
    have e: "edge h1 p (hd xs)" "edge h1 (last xs) (hd (zs @ [p]))"
    proof -
      show "edge h1 p (hd xs)" using ring_Cons_edges(1) [of h1 p "xs @ zs"] r2 False by simp
      have "path h1 xs (hd (zs @ [p]))" using r2 unfolding ring_def path_append by simp
      then show "edge h1 (last xs) (hd (zs @ [p]))" using False by (simp add: path_butlast_iff)
    qed
    have ok2: "heap_ok U H h2" unfolding h2(4) using heap_ok_swap [OF ok1] e by simp
    have sub: "set (hd xs # tl xs) \<subseteq> H" using xs False by simp
    obtain h3 where h3: "delete_iob (hd xs) h2 = Inr ((), h3)" "heap_ok U (H - set xs) h3"
      "dom (iobs h3) = dom (iobs h2) - set xs" "frame (set xs) h2 h3"
      using delete_iob_ok [OF ok2 _ sub] h2(3) False by (metis list.collapse)
    have nx: "next' (node h1 p) = hd xs" "prev' (node h1 fin) = last xs"
      using edge_next [OF e(1)] edge_next [OF e(2)] fin by simp_all
    have live: "iobs h1 p \<noteq> None" "iobs h1 fin \<noteq> None" using e fin by (auto dest: edge_live)
    have run: "coalesceAndReallocate p hroom len fin troom h = Inr ((), h3)"
      using cc(1) ring_isChained [of h1 p "xs @ zs"] r2 False live nx h2(1) h3(1)
      by (auto simp: iob_def node_def)
    have pz: "p \<notin> set xs" "set xs \<inter> set zs = {}" using r by (auto simp: ring_def)
    have v2: "view h2 q = view h1 q" for q by (simp add: h2(4))
    have vp: "view h3 p = view h1 p" using frame_view [OF h3(4), of p] pz v2 by simp
    have p1: "iobs h1 p \<noteq> None" by (simp add: h1_def)
    have nd: "headroom (node h3 p) = headroom (node h1 p)" "tailroom (node h3 p) = tailroom (node h1 p)"
      using vp p1 by (auto simp: view_def node_def headroom_def tailroom_def map_option_case split: option.splits)
    have "coalesce_post U H p xs zs hroom troom h h3"
      unfolding coalesce_post_def
    proof (intro conjI allI impI)
      show "ring h3 (p # zs)" using frame_ring [OF h3(4), of "p # zs"] h2(2) pz by auto
      show "node_bytes h3 p = chain_bytes h (p # xs)" using view_bytes [OF vp p1] cc(3) by simp
      show "exclusive h3 p"
      proof (rule exclusive_mono [OF ex vp])
        fix q assume "q \<noteq> p"
        have "iobs h3 q = None" if "q \<in> set xs" using h3(3) that by (auto simp: dom_def)
        then show "view h3 q = view h1 q \<or> iobs h3 q = None"
          using frame_view [OF h3(4), of q] v2 by (cases "q \<in> set xs") simp_all
      qed
      show "view h3 q = view h q" if "q \<notin> set (p # xs)" for q
        using that frame_view [OF h3(4), of q] v2 frame_view [OF fr, of q] by simp
      have "frame (set (p # xs @ zs)) h1 h2"
        unfolding h2(4) using e False by (intro frame_swap) (auto simp: hd_append)
      then show "frame (set (p # xs @ zs)) h h3"
        using frame_trans [OF frame_trans [OF fr] h3(4)] by (auto intro: frame_mono)
      show "dom (iobs h3) = dom (iobs h) - set xs" using h3(3) dom1 by (simp add: h2(4))
    qed (use h3(2) nd room in simp_all)
    then show ?thesis using that run by blast
  qed
qed


lemma chain_bytes_length:
  assumes ok: "heap_ok U H h" and live: "\<And>q. q \<in> set ps \<Longrightarrow> iobs h q \<noteq> None"
  shows "sum_list (map (\<lambda>q. length' (node h q)) ps) = length (chain_bytes h ps)"
  using live
proof (induction ps)
  case (Cons q ps)
  obtain n where "iobs h q = Some n" using Cons.prems by force
  then show ?case using Cons length_node_bytes [OF ok] by (simp add: chain_bytes_def node_def)
qed (simp add: chain_bytes_def)

lemma computeChainDataLength_ok:
  assumes ok: "heap_ok U H h" and r: "ring h (p # ps)"
  shows "computeChainDataLength p h = Inr (length (chain_bytes h (p # ps)), h)"
proof -
  have "chain h p = Inr (p # ps, h)" using chain_ring [OF r] ok by (simp add: heap_ok_def)
  moreover have "sum_list (map (\<lambda>q. length' (node h q)) (p # ps)) = length (chain_bytes h (p # ps))"
    by (rule chain_bytes_length [OF ok]) (rule ring_live [OF r])
  ultimately show ?thesis by (simp add: computeChainDataLength_def)
qed

lemma iob_live: "iobs h p \<noteq> None \<Longrightarrow> iob h p = Inr (node h p, h)"
  by (auto simp: iob_def node_def)

lemma coalesceAndReallocate2_eq:
  assumes r: "ring h (p # xs @ zs)" and fin: "fin = hd (zs @ [p])"
  shows "coalesceAndReallocate2 p len fin h = coalesceAndReallocate p (headroom (node h p)) len fin
    (tailroom (node h (last (p # xs)))) h"
proof -
  have r2: "ring h ((p # xs) @ zs)" using r by simp
  have "path h (p # xs) (hd (zs @ [p]))" using r2 unfolding ring_def path_append by simp
  then have e: "edge h (last (p # xs)) fin" using path_butlast_iff [of "p # xs"] fin by blast
  then have "prev' (node h fin) = last (p # xs)" by (rule edge_next)
  then show ?thesis using edge_live [OF e] ring_live [OF r, of p]
    by (simp add: coalesceAndReallocate2_def iob_live del: last.simps)
qed

definition coalesce_room :: "heap \<Rightarrow> nat \<Rightarrow> nat list \<Rightarrow> nat" where
  "coalesce_room h p xs = length (chain_bytes h (p # xs)) + headroom (node h p) + tailroom (node h (last (p # xs)))"

lemma coalesceAndReallocate2_ok:
  assumes ok: "heap_ok U H h" and r: "ring h (p # xs @ zs)" and fin: "fin = hd (zs @ [p])"
    and xs: "xs \<noteq> []" "set xs \<subseteq> H" and cap: "coalesce_room h p xs + 31 < 2 ^ 64"
    and len: "len = length (chain_bytes h (p # xs))"
  shows "if oom h (ext_capacity (coalesce_room h p xs) + 24) then coalesceAndReallocate2 p len fin h = Inl (BadAlloc, h)
    else \<exists>h'. coalesceAndReallocate2 p len fin h = Inr ((), h') \<and>
      coalesce_post U H p xs zs (headroom (node h p)) (tailroom (node h (last (p # xs)))) h h'"
proof (cases "oom h (ext_capacity (coalesce_room h p xs) + 24)")
  case True
  then show ?thesis using coalesceAndReallocate_oom [of len "headroom (node h p)" "tailroom (node h (last (p # xs)))" h] cap
    by (simp add: coalesceAndReallocate2_eq [OF r fin] len coalesce_room_def del: last.simps)
next
  case False
  then obtain h' where "coalesceAndReallocate p (headroom (node h p)) len fin (tailroom (node h (last (p # xs)))) h = Inr ((), h')"
    "coalesce_post U H p xs zs (headroom (node h p)) (tailroom (node h (last (p # xs)))) h h'"
    using coalesceAndReallocate_ok [OF ok r fin _ xs(2) len, of "headroom (node h p)" "tailroom (node h (last (p # xs)))"] cap xs(1)
    by (auto simp: len coalesce_room_def simp del: last.simps)
  then show ?thesis using False by (simp add: coalesceAndReallocate2_eq [OF r fin] del: last.simps)
qed

lemma coalesceSlow_eq:
  assumes ok: "heap_ok U H h" and r: "ring h (p # ps)" "ps \<noteq> []"
  shows "coalesceSlow p h = bindE (coalesceAndReallocate2 p (length (chain_bytes h (p # ps))) p h) (\<lambda>(_, h).
    bindE (isChained p h) (\<lambda>(c, h). check (\<not> c) h))"
  using computeChainDataLength_ok [OF ok r(1)] ring_isChained [OF r(1)] r(2)
  by (simp add: coalesceSlow_def check_def)

text \<open>The slice of \<open>coalesceSlow(maxLength)\<close>: the shortest prefix with enough bytes.\<close>

lemma gather_loop_ok:
  assumes "path h ps z" "ps \<noteq> []" "acc + sum_list (map (\<lambda>q. length' (node h q)) ps) \<ge> maxLength"
  obtains xs zs where "ps = xs @ zs" "xs \<noteq> []"
    "gather_loop p maxLength acc ps h = Inr ((acc + sum_list (map (\<lambda>q. length' (node h q)) xs), hd (zs @ [z])), h)"
    "maxLength \<le> acc + sum_list (map (\<lambda>q. length' (node h q)) xs)"
    "\<And>ys y. xs = ys @ [y] \<Longrightarrow> ys \<noteq> [] \<Longrightarrow> acc + sum_list (map (\<lambda>q. length' (node h q)) ys) < maxLength"
  using assms
proof (induction ps arbitrary: acc thesis)
  case (Cons q ps)
  have nx: "next' (node h q) = hd (ps @ [z])" using Cons.prems(2) edge_next(1) by simp
  show ?case
  proof (cases "maxLength \<le> acc + length' (node h q)")
    case True
    then show ?thesis using nx by (intro Cons.prems(1) [of "[q]" ps]) (auto simp: Cons_eq_append_conv)
  next
    case False
    then have ps: "ps \<noteq> []" using Cons.prems(4) by auto
    obtain xs zs where x: "ps = xs @ zs" "xs \<noteq> []"
      "gather_loop p maxLength (acc + length' (node h q)) ps h =
        Inr ((acc + length' (node h q) + sum_list (map (\<lambda>q. length' (node h q)) xs), hd (zs @ [z])), h)"
      "maxLength \<le> acc + length' (node h q) + sum_list (map (\<lambda>q. length' (node h q)) xs)"
      "\<And>ys y. xs = ys @ [y] \<Longrightarrow> ys \<noteq> [] \<Longrightarrow> acc + length' (node h q) + sum_list (map (\<lambda>q. length' (node h q)) ys) < maxLength"
      using Cons.IH [of "acc + length' (node h q)"] Cons.prems ps by auto
    show ?thesis
    proof (rule Cons.prems(1) [of "q # xs" zs])
      fix ys y assume y: "q # xs = ys @ [y]" "ys \<noteq> []"
      then obtain ys' where ys': "ys = q # ys'" "xs = ys' @ [y]" by (cases ys) auto
      then show "acc + sum_list (map (\<lambda>q. length' (node h q)) ys) < maxLength"
        using x(5) [OF ys'(2)] False by (cases "ys' = []") (auto simp: add.assoc)
    qed (use x False in \<open>auto simp: Let_def add.assoc\<close>)
  qed
qed simp

end
