(* ===== verification/Acc_IOBuf_Props.thy ===== *)
theory Acc_IOBuf_Props
  imports Acc_IOBuf_Spec
begin

text \<open>
  What the operations of IOBuf do to a heap that satisfies the invariant: creation and copying,
  chains of new buffers, the sharing test, unsharing and coalescing.
\<close>

section \<open>Creation\<close>

lemma inv_acquire:
  assumes "mem_inv U H ow h R" "stors h' = stor_flags (insert p H) (storage_of h ` internal h)"
    "infos h' = infos h" "blks h' = blks h"
  shows "mem_inv U (insert p H) ow h' R"
proof -
  have "internal h' = internal h" "storage_of h' = storage_of h" "node_ok U ow h' = node_ok U ow h"
    using assms(3,4) by (simp_all add: internal_def storage_of_def [abs_def] node_ok_cong fun_eq_iff)
  then show ?thesis using assms by (simp add: mem_inv_def)
qed

lemma links_ok_insert:
  assumes "links_ok h" "iobs h p = None" "links n = (p, p)" "iobs h' = (iobs h)(p \<mapsto> n)"
  shows "links_ok h'" "ring h' [p]" "p \<notin> set zs \<Longrightarrow> ring h' zs = ring h zs"
proof -
  have e: "edge h' q r = (if q = p \<or> r = p then q = p \<and> r = p else edge h q r)" for q r
    using assms(3,4) by (auto simp: edge_def node_def links_def)
  have old: "\<not> edge h q p" "\<not> edge h p q" for q using assms(2) by (auto simp: edge_def)
  show "ring h' [p]" by (simp add: ring_singleton e)
  have "(\<exists>r. edge h' q r) \<and> (\<exists>r. edge h' r q)" if "q \<in> dom (iobs h')" for q
  proof (cases "q = p")
    case False
    then have "q \<in> dom (iobs h)" using that assms(4) by auto
    then obtain r t where "edge h q r" "edge h t q" using assms(1) unfolding links_ok_def by blast
    then show ?thesis using e old False by metis
  qed (simp add: e)
  then show "links_ok h'" by (simp add: links_ok_def)
  assume p: "p \<notin> set zs"
  have "path h' zs z = path h zs z" if "z \<noteq> p" "p \<notin> set zs" for zs z
    using that
  proof (induction zs)
    case (Cons q zs)
    then have "hd (zs @ [z]) \<noteq> p" by (cases zs) auto
    then show ?case using Cons by (simp add: e)
  qed simp
  moreover have "hd zs \<noteq> p" if "zs \<noteq> []" using p that by (metis hd_in_set)
  ultimately show "ring h' zs = ring h zs" using p by (auto simp: ring_def)
qed

text \<open>
  A new IOBuf \<open>n\<close> at address \<open>p\<close>: fresh in the invariant, alone in its ring, and nothing else
  changed.
\<close>

lemma heap_ok_new:
  assumes ok: "heap_ok U H h" and p: "iobs h p = None" and n: "links n = (p, p)"
    and h': "iobs h' = (iobs h)(p \<mapsto> n)" and fr: "fresh h'"
    and inv: "mem_inv U H' ow h' (iobs h')" and H': "H' = H \<or> H' = insert p H"
    and b: "\<And>b xs. blks h b = Some xs \<Longrightarrow> blks h' b = Some xs"
  shows "heap_ok U H' h'" "ring h' [p]" "frame {p} h h'"
proof -
  have lk: "links_ok h" using ok by (simp add: heap_ok_def)
  note li = links_ok_insert [OF lk p n h']
  show "ring h' [p]" using li(2) .
  show "heap_ok U H' h'" using li(1) fr inv H' ok h' by (auto simp: heap_ok_def)
  have "view h' q = view h q" if "q \<noteq> p" for q
  proof (rule view_cong)
    obtain ow0 where i0: "mem_inv U H ow0 h (iobs h)" using ok by (auto simp: heap_ok_def)
    fix b assume "iobs h q \<noteq> None" "buf' (node h q) = Some b"
    then obtain k where k: "iobs h q = Some k" "buf' k = Some b" by (auto simp: node_def)
    then obtain xs where "blks h b = Some xs" using invD(2) [OF i0 k(1)] by (auto simp: node_ok_def)
    then show "blks h' b = blks h b" using b by simp
  qed (use that h' in simp)
  then show "frame {p} h h'" using li(3) by (auto simp: frame_def)
qed

lemma createCombined_ok:
  assumes ok: "heap_ok U H h" and c: "c \<le> 2 ^ 32" and mem: "\<not> oom h (96 + c)"
  obtains h' where "createCombined c h = Inr (brk h + 2, h')" "heap_ok U (insert (brk h + 2) H) h'"
    "ring h' [brk h + 2]" "frame {brk h + 2} h h'" "oom h' = oom h" "brk h' = brk h + 3"
    "iobs h' = (iobs h)(brk h + 2 \<mapsto> mk_iobuf (Some (brk h + 1)) False False (Some (brk h)) c 0 0 (brk h + 2))"
    "infos h' = (infos h)(brk h + 1 \<mapsto> new_SharedInfo (Some FreeInternalBuf) (brk h + 2) False)"
proof -
  let ?b = "brk h" and ?i = "brk h + 1" and ?p = "brk h + 2"
  let ?n = "mk_iobuf (Some ?i) False False (Some ?b) c 0 0 ?p"
  let ?s = "new_SharedInfo (Some FreeInternalBuf) ?p False"
  let ?x = "replicate c (junk h)"
  define h1 where "h1 = h\<lparr>blks := (blks h)(?b \<mapsto> ?x), infos := (infos h)(?i \<mapsto> ?s),
    iobs := (iobs h)(?p \<mapsto> ?n), brk := brk h + 3\<rparr>"
  define h' where "h' = h1\<lparr>stors := (stors h)(?p \<mapsto> kIOBufInUse OR kDataInUse)\<rparr>"
  define hm where "hm = h1\<lparr>stors := (stors h)(?p \<mapsto> kDataInUse)\<rparr>"
  have sz: "unat (of_nat offsetof_align + of_nat c :: u64) = 96 + c"
  proof -
    have "(of_nat offsetof_align + of_nat c :: u64) = of_nat (96 + c)" by (simp add: offsetof_align_def)
    moreover have "96 + c < 2 ^ 64" using c by simp
    ultimately show ?thesis by (simp add: unat_of_nat take_bit_nat_eq_self_iff del: of_nat_add)
  qed
  have run: "createCombined c h = Inr (?p, h')"
    unfolding createCombined_def Let_def sz using mem
    by (simp add: place_iob_def h'_def h1_def offsetof_align_def)
  obtain ow where inv: "mem_inv U H ow h (iobs h)" using ok by (auto simp: heap_ok_def)
  note fr = heap_ok_fresh [OF ok, of ?b] heap_ok_fresh [OF ok, of ?i] heap_ok_fresh [OF ok, of ?p]
  let ?D = "storage_of h ` internal h"
  have st: "stors h = stor_flags H ?D" using inv by (rule invD)
  have nm: "?p \<notin> H" "?p \<notin> ?D" using fr(12) by (auto simp: st stor_flags_def split: if_splits)
  have sm: "stors hm = stor_flags H (?D \<union> {?p})" "stors h' = stor_flags (insert ?p H) (?D \<union> {?p})"
    using nm by (auto simp: hm_def h'_def st stor_flags_def fun_eq_iff)
  have i1: "mem_inv U H (ow(?i := ?b)) hm ((iobs h)(?p \<mapsto> ?n))"
    by (rule inv_new [OF inv, where xs = ?x and s = ?s])
       (use fr nm sm(1) in \<open>simp_all add: mk_iobuf_def new_SharedInfo_def hm_def h1_def\<close>)
  have "storage_of hm ` internal hm = ?D \<union> {?p}"
  proof -
    have "internal hm = insert ?i (internal h)"
      using fr by (auto simp: internal_def hm_def h1_def new_SharedInfo_def)
    moreover have "storage_of hm j = storage_of h j" if "j \<in> internal h" for j
      using that fr by (auto simp: internal_def storage_of_def hm_def h1_def)
    moreover have "storage_of hm ?i = ?p" by (simp add: storage_of_def hm_def h1_def new_SharedInfo_def)
    ultimately show ?thesis by force
  qed
  then have i2: "mem_inv U (insert ?p H) (ow(?i := ?b)) h' (iobs h')"
    using inv_acquire [OF i1, of h' ?p] sm(2) by (simp add: h'_def hm_def h1_def)
  have "fresh h'" using ok by (simp add: heap_ok_def fresh_iff h'_def h1_def)
  note new = heap_ok_new [OF ok fr(9) _ _ this i2, of ?n]
  show ?thesis
    by (rule that [OF run new])
       (use fr in \<open>auto simp: h'_def h1_def mk_iobuf_def links_def\<close>)
qed


section \<open>Local updates\<close>

lemma heap_ok_upd_iob:
  assumes ok: "heap_ok U H h" and p: "iobs h p = Some n" and m: "links m = links n" "sharedInfo m = sharedInfo n"
    and nok: "\<And>ow. mem_inv U H ow h (iobs h) \<Longrightarrow> node_ok U ow h m" and h': "h' = h\<lparr>iobs := (iobs h)(p \<mapsto> m)\<rparr>"
  shows "heap_ok U H h'" "\<And>zs. ring h' zs = ring h zs" "frame {p} h h'"
proof -
  have lk: "map_option links (iobs h' q) = map_option links (iobs h q)" for q
    using p m by (simp add: h')
  show r: "ring h' zs = ring h zs" for zs using ring_links(1) [OF lk] .
  obtain ow where inv: "mem_inv U H ow h (iobs h)" using ok by (auto simp: heap_ok_def)
  have "mem_inv U H ow h ((iobs h)(p \<mapsto> m))" using inv_set [OF inv nok [OF inv], of p] p m by simp
  then have "mem_inv U H ow h' (iobs h')" using inv_cong [of h' h] by (simp add: h')
  moreover have "fresh h'" "H \<subseteq> dom (iobs h')" using ok p by (auto simp: heap_ok_def fresh_iff h')
  moreover have "links_ok h'" using ring_links(2) [OF lk] ok by (simp add: heap_ok_def)
  ultimately show "heap_ok U H h'" by (auto simp: heap_ok_def)
  have "view h' q = view h q" if "q \<noteq> p" for q by (rule view_cong) (use that in \<open>simp_all add: h'\<close>)
  then show "frame {p} h h'" using r by (simp add: frame_def)
qed

lemma heap_ok_write:
  assumes ok: "heap_ok U H h" and b: "blks h b = Some xs" "length ys = length xs"
    and h': "h' = h\<lparr>blks := (blks h)(b \<mapsto> ys)\<rparr>"
  shows "heap_ok U H h'" "\<And>zs. ring h' zs = ring h zs"
    "iobs h q \<noteq> None \<longrightarrow> buf' (node h q) \<noteq> Some b \<Longrightarrow> view h' q = view h q"
proof -
  show "ring h' zs = ring h zs" for zs by (rule ring_cong) (simp add: h')
  obtain ow where inv: "mem_inv U H ow h (iobs h)" using ok by (auto simp: heap_ok_def)
  have "mem_inv U H ow h' (iobs h')" using inv_blk [OF inv b(1), of ys] b(2) by (simp add: h')
  moreover have "links_ok h'" using ok links_ok_cong [of h' h] by (simp add: heap_ok_def h')
  moreover have "fresh h'" using ok b(1) by (auto simp: heap_ok_def fresh_iff h')
  ultimately show "heap_ok U H h'" using ok by (auto simp: heap_ok_def h')
  show "view h' q = view h q" if "iobs h q \<noteq> None \<longrightarrow> buf' (node h q) \<noteq> Some b"
    by (rule view_cong) (use that in \<open>auto simp: h'\<close>)
qed

lemma trim_append_ok:
  assumes ok: "heap_ok U H h" and p: "iobs h p = Some n" and b: "buf' n = Some b"
    and d: "d + l \<le> capacity' n"
  shows "heap_ok U H (upd_iob p (\<lambda>n. n\<lparr>data' := d, length' := l\<rparr>) h)"
    "ring (upd_iob p (\<lambda>n. n\<lparr>data' := d, length' := l\<rparr>) h) zs = ring h zs"
    "frame {p} h (upd_iob p (\<lambda>n. n\<lparr>data' := d, length' := l\<rparr>) h)"
proof -
  have e: "upd_iob p (\<lambda>n. n\<lparr>data' := d, length' := l\<rparr>) h = h\<lparr>iobs := (iobs h)(p \<mapsto> n\<lparr>data' := d, length' := l\<rparr>)\<rparr>"
    using p by (simp add: upd_iob_def)
  have nok: "node_ok U ow h (n\<lparr>data' := d, length' := l\<rparr>)" if "mem_inv U H ow h (iobs h)" for ow
    using invD(2) [OF that p] b d by (auto simp: node_ok_def)
  note u = heap_ok_upd_iob [OF ok p _ _ nok e]
  show "heap_ok U H (upd_iob p (\<lambda>n. n\<lparr>data' := d, length' := l\<rparr>) h)"
    "ring (upd_iob p (\<lambda>n. n\<lparr>data' := d, length' := l\<rparr>) h) zs = ring h zs"
    "frame {p} h (upd_iob p (\<lambda>n. n\<lparr>data' := d, length' := l\<rparr>) h)"
    using u by (simp_all add: links_def)
qed

lemma copyBuffer_combined:
  assumes ok: "heap_ok U H h" and c: "hroom + length xs + troom \<le> 1024" and mem: "\<not> oom h (96 + (hroom + length xs + troom))"
  obtains h' where "copyBuffer xs hroom troom h = Inr (brk h + 2, h')" "heap_ok U (insert (brk h + 2) H) h'"
    "ring h' [brk h + 2]" "node_bytes h' (brk h + 2) = xs" "frame {brk h + 2} h h'" "oom h' = oom h" "brk h' = brk h + 3"
    "headroom (node h' (brk h + 2)) = hroom" "tailroom (node h' (brk h + 2)) = troom"
proof -
  let ?c = "hroom + length xs + troom" and ?p = "brk h + 2" and ?b = "brk h"
  obtain h1 where h1: "createCombined ?c h = Inr (?p, h1)" "heap_ok U (insert ?p H) h1" "ring h1 [?p]"
    "frame {?p} h h1" "oom h1 = oom h" "brk h1 = brk h + 3"
    "iobs h1 = (iobs h)(?p \<mapsto> mk_iobuf (Some (brk h + 1)) False False (Some ?b) ?c 0 0 ?p)"
    using createCombined_ok [OF ok, of ?c] c mem by auto
  let ?n = "mk_iobuf (Some (brk h + 1)) False False (Some ?b) ?c 0 0 ?p"
  have n: "iobs h1 ?p = Some ?n" "buf' ?n = Some ?b" by (simp_all add: h1(7) mk_iobuf_def)
  obtain ow where inv: "mem_inv U (insert ?p H) ow h1 (iobs h1)" using h1(2) by (auto simp: heap_ok_def)
  obtain zs where zs: "blks h1 ?b = Some zs" "?c \<le> length zs"
    using invD(2) [OF inv n(1)] by (auto simp: node_ok_def mk_iobuf_def)
  define ys where "ys = overwrite hroom xs zs"
  have ly: "length ys = length zs" using zs(2) by (simp add: ys_def)
  define h2 where "h2 = h1\<lparr>blks := (blks h1)(?b \<mapsto> ys)\<rparr>"
  note w = heap_ok_write [OF h1(2) zs(1) ly h2_def]
  define h3 where "h3 = upd_iob ?p (\<lambda>n. n\<lparr>data' := hroom, length' := length xs\<rparr>) h2"
  have n2: "iobs h2 ?p = Some ?n" using n by (simp add: h2_def)
  note t = trim_append_ok [OF w(1) n2 n(2), of hroom "length xs", folded h3_def]
  have "hroom + length xs + troom < 2 ^ 64" using c by (rule le_less_trans) simp
  note cb = copyBuffer_unwrapped [OF this, of h]
  have run: "copyBuffer xs hroom troom h = Inr (?p, h3)"
  proof (cases "xs = []")
    case True
    then have "h2 = h1" using zs(1) by (cases h1) (simp add: h2_def ys_def fun_upd_idem)
    then show ?thesis unfolding cb using h1(1) n c True
      by (simp add: create_def kDefaultCombinedBufSize_def advance_def iob_def check_def
           tailroom_def mk_iobuf_def append_buf_def upd_iob_def h3_def)
  next
    case False
    then show ?thesis unfolding cb using h1(1) n zs c
      by (simp add: create_def kDefaultCombinedBufSize_def advance_def iob_def check_def
           tailroom_def mk_iobuf_def append_buf_def blk_write_def upd_iob_def h3_def h2_def ys_def)
  qed
  have vw: "view h2 q = view h1 q" if qp: "q \<noteq> ?p" for q
  proof (rule w(3), rule impI)
    assume "iobs h1 q \<noteq> None"
    then obtain k where k: "iobs h q = Some k" using qp h1(7) by auto
    obtain ow0 where i0: "mem_inv U H ow0 h (iobs h)" using ok by (auto simp: heap_ok_def)
    have "buf' k \<noteq> Some ?b"
      using invD(2) [OF i0 k] heap_ok_fresh(3) [OF ok, of ?b] by (auto simp: node_ok_def)
    then show "buf' (node h1 q) \<noteq> Some ?b" using k qp h1(7) by (simp add: node_def)
  qed
  have f2: "frame {?p} h1 h2" using vw w(2) by (simp add: frame_def)
  show ?thesis
  proof (rule that [OF run])
    show "frame {?p} h h3" using frame_trans [OF frame_trans [OF h1(4) f2] t(3)] c
      by (simp add: mk_iobuf_def)
    show "node_bytes h3 ?p = xs"
      using take_drop_overwrite [of hroom xs zs] zs(2) n2
      by (simp add: node_bytes_def node_def h3_def h2_def upd_iob_def mk_iobuf_def ys_def)
    show "ring h3 [?p]" using t(2) w(2) h1(3) by (simp add: mk_iobuf_def)
  qed (use t(1) h1(5,6) n2 in \<open>simp_all add: mk_iobuf_def h3_def h2_def upd_iob_def node_def headroom_def tailroom_def\<close>)
qed


section \<open>Sharing\<close>

lemma isSharedOne_ok:
  assumes ok: "heap_ok U H h" and p: "iobs h p = Some n"
  obtains b h' where "isSharedOne p h = Inr (b, h')" "heap_ok U H h'" "\<forall>q. view h' q = view h q"
    "\<forall>zs. ring h' zs = ring h zs" "dom (iobs h') = dom (iobs h)"
    "infos h' = infos h" "oom h' = oom h" "brk h' = brk h" "refs (iobs h') = refs (iobs h)"
    "b \<longleftrightarrow> (case sharedInfo n of None \<Rightarrow> True
       | Some i \<Rightarrow> externallyShared (the (infos h i)) \<or> refs (iobs h) i \<noteq> {p})"
proof (cases "sharedInfo n")
  case None
  then have "isSharedOne p h = Inr (True, h)" using p by (simp add: isSharedOne_def iob_def)
  then show ?thesis using that [of True h] ok None by simp
next
  case (Some i)
  obtain ow where inv: "mem_inv U H ow h (iobs h)" using ok by (auto simp: heap_ok_def)
  obtain s where s: "infos h i = Some s" "kFlagMaybeShared n \<or> refcount s = 1" "info_ok (iobs h) i s"
    using inv_node_infoD [OF inv p Some] by metis
  have mem: "p \<in> refs (iobs h) i" using p Some by (auto simp: refs_def)
  have cnt: "refcount s > 1 \<longleftrightarrow> refs (iobs h) i \<noteq> {p}"
    using refs_single [OF s(3) invD(1) [OF inv] _ mem] refcount_gt_1_iff [OF s(3)] by auto
  define h' where "h' = upd_iob p (\<lambda>n. n\<lparr>kFlagMaybeShared := False\<rparr>) h"
  show ?thesis
  proof (cases "externallyShared s \<or> \<not> kFlagMaybeShared n \<or> refcount s > 1")
    case True
    have "isSharedOne p h = Inr (externallyShared s \<or> refcount s > 1, h)"
      using True p Some s(1,2) by (auto simp: isSharedOne_def iob_def info_def Let_def)
    then show ?thesis using that [of _ h] ok Some s(1) cnt by simp
  next
    case False
    have one: "refcount s = 1" using False s(3) cnt by (simp add: info_ok_def word_unat_eq_iff)
    have e: "h' = h\<lparr>iobs := (iobs h)(p \<mapsto> n\<lparr>kFlagMaybeShared := False\<rparr>)\<rparr>" using p by (simp add: h'_def upd_iob_def)
    have nok: "node_ok U ow h (n\<lparr>kFlagMaybeShared := False\<rparr>)" if "mem_inv U H ow h (iobs h)" for ow
      using invD(2) [OF that p] Some s(1) one by (auto simp: node_ok_def split: option.splits)
    note u = heap_ok_upd_iob [OF ok p _ _ nok e]
    have "node_bytes h' p = node_bytes h p" using p by (simp add: node_bytes_def node_def e cong: option.case_cong)
    then have "view h' q = view h q" for q
      using u(3) p by (cases "q = p") (auto simp: frame_def links_def view_def e)
    moreover have "refs (iobs h') = refs (iobs h)" using p by (auto simp: refs_def fun_eq_iff e)
    moreover have "isSharedOne p h = Inr (False, h')"
      using False p Some s(1) by (auto simp: isSharedOne_def iob_def info_def Let_def h'_def)
    moreover have "dom (iobs h') = dom (iobs h)" using p by (auto simp: e)
    ultimately show ?thesis using that [of False h'] u(1,2) Some s(1) cnt False by (simp add: links_def e)
  qed
qed

lemma exclusive_iff: "iobs h p = Some n \<Longrightarrow> exclusive h p \<longleftrightarrow> (\<exists>i. sharedInfo n = Some i \<and> refs (iobs h) i = {p})"
  by (simp add: exclusive_def node_def)

definition unshared_post :: "nat set \<Rightarrow> nat set \<Rightarrow> nat \<Rightarrow> heap \<Rightarrow> heap \<Rightarrow> bool" where
  "unshared_post U H p h h' \<longleftrightarrow> heap_ok U H h' \<and> (\<forall>zs. ring h' zs = ring h zs) \<and> node_bytes h' p = node_bytes h p \<and>
     exclusive h' p \<and> (\<forall>q. q \<noteq> p \<longrightarrow> view h' q = view h q)"

lemma unshareOneSlow_ok:
  assumes ok: "heap_ok U H h" and p: "iobs h p = Some n" and cap: "capacity' n + 31 < 2 ^ 64"
  shows "if oom h (ext_capacity (capacity' n) + 24) then unshareOneSlow p h = Inl (BadAlloc, h)
    else \<exists>h'. unshareOneSlow p h = Inr ((), h') \<and> unshared_post U H p h h'"
proof (cases "oom h (ext_capacity (capacity' n) + 24)")
  case True
  then show ?thesis using p cap by (simp add: unshareOneSlow_def iob_def allocExtBuffer_eq)
next
  case False
  let ?y0 = "replicate (ext_capacity (capacity' n)) (junk h)"
  let ?m = "n\<lparr>sharedInfo := Some (Suc (brk h)), kFlagMaybeShared := False,
       kFlagFreeSharedInfo := False, data' := headroom n, buf' := Some (brk h)\<rparr>"
  define ys where "ys = overwrite (data' n) (node_bytes h p) ?y0"
  obtain ow where inv: "mem_inv U H ow h (iobs h)" using ok by (auto simp: heap_ok_def)
  have b: "data' n + length' n \<le> capacity' n" using invD(2) [OF inv p] by (auto simp: node_ok_def split: option.splits)
  have len: "length (node_bytes h p) = length' n" using length_node_bytes [OF ok p] .
  have ge: "data' n + length' n \<le> ext_capacity (capacity' n)" using b ext_capacity_ge [of "capacity' n"] by simp
  have rep: "replaces h p ?m ys"
    using p b ge ext_capacity_ge [of "capacity' n"] len by (simp add: replaces_def links_def node_def headroom_def ys_def)
  have cp: "(if length' n > 0 then bindE (blk_read (buf' n) (data' n) (length' n) (grown ?y0 h)) (\<lambda>(xs, h).
      blk_write (Some (brk h - 2)) (headroom n) xs h) else Inr ((), grown ?y0 h)) = Inr ((), grown ys h)"
  proof (cases "length' n > 0")
    case True
    then show ?thesis using blk_read_grown [OF ok p True] blk_write_grown [of "data' n" "node_bytes h p" ?y0 h] ge len
      by (simp add: headroom_def ys_def)
  next
    case False
    then have "node_bytes h p = []" using len by simp
    then show ?thesis using False by (simp add: ys_def)
  qed
  have "unshareOneSlow p h = Inr ((), rebuffed p ?m ys h)"
    using p cap False cp decrementRefcount_grown [OF ok rep] upd_iob_unref [OF p, of _ ys]
      blk_read_grown [OF ok p] 
    by (cases "length' n > 0") (auto simp: unshareOneSlow_def iob_def allocExtBuffer_eq node_def)
  moreover have "unshared_post U H p h (rebuffed p ?m ys h)"
    unfolding unshared_post_def
  proof (intro conjI allI impI)
    show "node_bytes (rebuffed p ?m ys h) p = node_bytes h p"
      using node_bytes_rebuffed [OF ok rep] take_drop_overwrite [of "data' n" "node_bytes h p" ?y0] len ge
      by (simp add: ys_def headroom_def)
    show "ring (rebuffed p ?m ys h) zs = ring h zs" for zs using ring_links(1) [OF links_rebuffed [OF rep]] .
  qed (use heap_ok_rebuffed [OF ok rep] rebuffed_exclusive [OF ok rep] view_rebuffed [OF ok rep] in auto)
  ultimately show ?thesis using False by auto
qed


section \<open>Creating any capacity, and chains\<close>

lemma createSeparate_ok:
  assumes ok: "heap_ok U H h" and c: "c + 31 < 2 ^ 64"
    and mem: "\<not> oom h sizeof_HeapStorage" "\<not> oom h (ext_capacity c + 24)"
  obtains h' where "createSeparate c h = Inr (brk h + 2, h')" "heap_ok U (insert (brk h + 2) H) h'"
    "ring h' [brk h + 2]" "frame {brk h + 2} h h'" "oom h' = oom h"
    "iobs h' = (iobs h)(brk h + 2 \<mapsto> mk_iobuf (Some (Suc (brk h))) False False (Some (brk h)) (ext_capacity c) 0 0 (brk h + 2))"
proof -
  let ?b = "brk h" and ?i = "Suc (brk h)" and ?p = "brk h + 2" and ?c = "ext_capacity c"
  let ?n = "mk_iobuf (Some ?i) False False (Some ?b) ?c 0 0 ?p"
  define hm where "hm = (grown (replicate ?c (junk h)) h)\<lparr>iobs := (iobs h)(?p \<mapsto> ?n), brk := brk h + 3\<rparr>"
  define h' where "h' = hm\<lparr>stors := (stors h)(?p \<mapsto> kIOBufInUse)\<rparr>"
  have run: "createSeparate c h = Inr (?p, h')"
    using mem by (simp add: createSeparate_def operator_new_def allocExtBuffer_eq [OF c] make_unique_def
        place_iob_def h'_def hm_def eval_nat_numeral)
  obtain ow where inv: "mem_inv U H ow h (iobs h)" using ok by (auto simp: heap_ok_def)
  note fr = heap_ok_fresh [OF ok, of ?b] heap_ok_fresh [OF ok, of ?i] heap_ok_fresh [OF ok, of ?p]
  let ?D = "storage_of h ` internal h"
  have st: "stors h = stor_flags H ?D" using inv by (rule invD)
  have nm: "?p \<notin> H" "?p \<notin> ?D" using fr(12) by (auto simp: st stor_flags_def split: if_splits)
  have i1: "mem_inv U H (ow(?i := ?b)) hm ((iobs h)(?p \<mapsto> ?n))"
    by (rule inv_new [OF inv, where xs = "replicate ?c (junk h)" and s = "new_SharedInfo None 0 False"])
       (use fr st in \<open>simp_all add: mk_iobuf_def new_SharedInfo_def hm_def\<close>)
  have D: "storage_of hm ` internal hm = ?D"
  proof -
    have "internal hm = internal h"
      using fr by (auto simp: internal_def hm_def new_SharedInfo_def split: if_splits)
    moreover have "storage_of hm j = storage_of h j" if "j \<in> internal h" for j
      using that fr by (auto simp: internal_def storage_of_def hm_def)
    ultimately show ?thesis by simp
  qed
  have "stors h' = stor_flags (insert ?p H) ?D"
    using nm by (auto simp: h'_def st stor_flags_def fun_eq_iff)
  then have i2: "mem_inv U (insert ?p H) (ow(?i := ?b)) h' (iobs h')"
    using inv_acquire [OF i1, of h' ?p] D by (simp add: h'_def hm_def)
  have "fresh h'" using ok by (simp add: heap_ok_def fresh_iff h'_def hm_def)
  note new = heap_ok_new [OF ok fr(9) _ _ this i2, of ?n]
  show ?thesis
    by (rule that [OF run new]) (use fr in \<open>auto simp: h'_def hm_def mk_iobuf_def links_def\<close>)
qed

lemma create_ok:
  assumes ok: "heap_ok U H h" and c: "c + 31 < 2 ^ 64" and mem: "\<And>sz. \<not> oom h sz"
  obtains p h' n where "create c h = Inr (p, h')" "heap_ok U (insert p H) h'" "ring h' [p]" "frame {p} h h'"
    "oom h' = oom h" "iobs h p = None" "iobs h' = (iobs h)(p \<mapsto> n)" "length' n = 0" "data' n = 0"
    "c \<le> capacity' n" "c \<le> 1024 \<longrightarrow> capacity' n = c"
proof (cases "c \<le> kDefaultCombinedBufSize")
  case True
  then have c2: "c \<le> 2 ^ 32" "c \<le> 1024" by (auto simp: kDefaultCombinedBufSize_def)
  obtain h' where h': "createCombined c h = Inr (brk h + 2, h')" "heap_ok U (insert (brk h + 2) H) h'"
    "ring h' [brk h + 2]" "frame {brk h + 2} h h'" "oom h' = oom h"
    "iobs h' = (iobs h)(brk h + 2 \<mapsto> mk_iobuf (Some (brk h + 1)) False False (Some (brk h)) c 0 0 (brk h + 2))"
    using createCombined_ok [OF ok c2(1) mem] by metis
  have "create c h = Inr (brk h + 2, h')" using h'(1) True by (simp add: create_def)
  from that [OF this h'(2-5) heap_ok_fresh(1) [OF ok] h'(6)] show ?thesis by (simp add: mk_iobuf_def)
next
  case False
  then have c2: "\<not> c \<le> 1024" by (simp add: kDefaultCombinedBufSize_def)
  obtain h' where h': "createSeparate c h = Inr (brk h + 2, h')" "heap_ok U (insert (brk h + 2) H) h'"
    "ring h' [brk h + 2]" "frame {brk h + 2} h h'" "oom h' = oom h"
    "iobs h' = (iobs h)(brk h + 2 \<mapsto> mk_iobuf (Some (Suc (brk h))) False False (Some (brk h)) (ext_capacity c) 0 0 (brk h + 2))"
    using createSeparate_ok [OF ok c mem mem] by metis
  have "create c h = Inr (brk h + 2, h')" using h'(1) False by (simp add: create_def)
  from that [OF this h'(2-5) heap_ok_fresh(1) [OF ok] h'(6)] show ?thesis
    using c2 ext_capacity_ge [of c] by (simp add: mk_iobuf_def)
qed

lemma ring_join_frame:
  assumes ok: "heap_ok U H h" and r: "ring h (p # ps)" "ring h [q]" "q \<notin> set (p # ps)"
  obtains h' where "prependChain p q h = Inr ((), h')" "heap_ok U H h'" "ring h' (p # ps @ [q])"
    "frame (set (p # q # ps)) h h'" "oom h' = oom h" "\<And>z. view h' z = view h z" "dom (iobs h') = dom (iobs h)"
proof -
  obtain h' where h': "prependChain p q h = Inr ((), h')" "ring h' (p # ps @ [q])"
    "h' = swap_edges (last (p # ps)) p (last [q]) q h"
    using prependChain_ring [OF r(1,2)] r(3) by auto
  have e: "edge h (last (p # ps)) p" "edge h q q" using ring_Cons_edges(2) r(1) r(2) by (auto simp: ring_singleton)
  show ?thesis
  proof (rule that [OF h'(1) _ h'(2)])
    show "heap_ok U H h'" unfolding h'(3) using heap_ok_swap [OF ok e(1) e(2)] by simp
    show "frame (set (p # q # ps)) h h'" unfolding h'(3) using frame_swap [OF e] by auto
  qed (simp_all add: h'(3))
qed

lemma createChain_loop_returns:
  assumes "heap_ok U H h" "\<And>sz. \<not> oom h sz" "0 < m" "m + 31 < 2 ^ 64" "ring h (out # ps)"
    "tot - alloc < fuel"
  obtains h' qs where "createChain_loop fuel out alloc tot m h = Some (Inr ((), h'))"
    "heap_ok U (H \<union> set qs) h'" "ring h' (out # ps @ qs)" "frame (set (out # ps @ qs)) h h'"
    "tot \<le> alloc + (\<Sum>q\<leftarrow>qs. capacity' (node h' q))" "\<And>q. q \<in> set (out # ps) \<Longrightarrow> view h' q = view h q"
    "\<forall>q\<in>set qs. length' (node h' q) = 0"
  using assms
proof (induction fuel arbitrary: alloc h H ps thesis)
  case 0
  then show ?case by simp
next
  case (Suc fuel)
  note ok = Suc.prems(2) and mem = Suc.prems(3) and r = Suc.prems(6)
  show ?case
  proof (cases "alloc < tot")
    case False
    then show ?thesis using Suc.prems(1) [of h "[]"] ok r by simp
  next
    case True
    have c: "min (tot - alloc) m + 31 < 2 ^ 64" using Suc.prems(5) by auto
    obtain q h1 n where h1: "create (min (tot - alloc) m) h = Inr (q, h1)" "heap_ok U (insert q H) h1" "ring h1 [q]"
      "frame {q} h h1" "oom h1 = oom h" "iobs h q = None" "iobs h1 = (iobs h)(q \<mapsto> n)" "length' n = 0" "data' n = 0"
      "min (tot - alloc) m \<le> capacity' n"
      using create_ok [OF ok c mem] by metis
    have q: "q \<notin> set (out # ps)" using ring_live [OF r, of q] h1(6) by auto
    have r1: "ring h1 (out # ps)" using frame_ring [OF h1(4) r] q by auto
    obtain h2 where h2: "prependChain out q h1 = Inr ((), h2)" "heap_ok U (insert q H) h2" "ring h2 (out # ps @ [q])"
      "frame (set (out # q # ps)) h1 h2" "oom h2 = oom h1" "\<And>z. view h2 z = view h1 z"
      using ring_join_frame [OF h1(2) r1 h1(3) q] by metis
    have fuel: "tot - (alloc + capacity' n) < fuel" using Suc.prems(7) h1(10) True Suc.prems(4) by linarith
    obtain h' qs where h': "createChain_loop fuel out (alloc + capacity' n) tot m h2 = Some (Inr ((), h'))"
      "heap_ok U (insert q H \<union> set qs) h'" "ring h' (out # (ps @ [q]) @ qs)" "frame (set (out # (ps @ [q]) @ qs)) h2 h'"
      "tot \<le> alloc + capacity' n + (\<Sum>q\<leftarrow>qs. capacity' (node h' q))"
      "\<And>z. z \<in> set (out # ps @ [q]) \<Longrightarrow> view h' z = view h2 z" "\<forall>q\<in>set qs. length' (node h' q) = 0"
      using Suc.IH [OF _ h2(2) _ Suc.prems(4,5) h2(3) fuel] mem h1(5) h2(5) by metis
    have vq: "view h' q = view h1 q" using h'(6) [of q] h2(6) by simp
    then have nq: "capacity' (node h' q) = capacity' n" "length' (node h' q) = 0"
      using h1(7,8) by (auto simp: view_def node_def map_option_case split: option.splits)
    show ?thesis
    proof (rule Suc.prems(1) [of h' "q # qs"])
      show "createChain_loop (Suc fuel) out alloc tot m h = Some (Inr ((), h'))"
        using True h1(1,7) h2(1) h'(1) by simp
      show "frame (set (out # ps @ q # qs)) h h'"
        using frame_trans [OF frame_trans [OF h1(4) h2(4)] h'(4)] by (rule frame_mono) auto
      show "view h' z = view h z" if "z \<in> set (out # ps)" for z
      proof -
        have "z \<noteq> q" using that q by auto
        then show ?thesis using h'(6) [of z] h2(6) [of z] frame_view [OF h1(4), of z] that by simp
      qed
    qed (use h'(2,3,5,7) nq in \<open>auto simp: add.assoc\<close>)
  qed
qed


section \<open>Unsharing, gathering and extraction\<close>

lemma any_shared_ok:
  assumes "heap_ok U H h" "\<And>q. q \<in> set ps \<Longrightarrow> iobs h q \<noteq> None"
  obtains b h' where "any_shared ps h = Inr (b, h')" "heap_ok U H h'" "\<forall>q. view h' q = view h q"
    "\<forall>zs. ring h' zs = ring h zs" "oom h' = oom h" "brk h' = brk h" "refs (iobs h') = refs (iobs h)"
    "\<not> b \<Longrightarrow> \<forall>q\<in>set ps. exclusive h q"
  using assms
proof (induction ps arbitrary: h thesis)
  case Nil
  then show ?case using Nil.prems(1) [of False h] by simp
next
  case (Cons p ps)
  note ok = Cons.prems(2)
  obtain n where n: "iobs h p = Some n" using Cons.prems(3) by force
  obtain b h1 where h1: "isSharedOne p h = Inr (b, h1)" "heap_ok U H h1" "\<forall>q. view h1 q = view h q"
    "\<forall>zs. ring h1 zs = ring h zs" "dom (iobs h1) = dom (iobs h)" "infos h1 = infos h" "oom h1 = oom h" "brk h1 = brk h"
    "refs (iobs h1) = refs (iobs h)"
    "b \<longleftrightarrow> (case sharedInfo n of None \<Rightarrow> True
       | Some i \<Rightarrow> externallyShared (the (infos h i)) \<or> refs (iobs h) i \<noteq> {p})"
    using isSharedOne_ok [OF ok n] .
  show ?case
  proof (cases b)
    case True
    then show ?thesis using Cons.prems(1) [of True h1] h1 by simp
  next
    case False
    have ex: "exclusive h p" using False h1(10) n by (auto simp: exclusive_iff split: option.splits)
    have live: "iobs h1 q \<noteq> None" if "q \<in> set ps" for q
      using Cons.prems(3) [of q] that h1(5) by (metis domIff list.set_intros(2))
    obtain b' h' where h': "any_shared ps h1 = Inr (b', h')" "heap_ok U H h'" "\<forall>q. view h' q = view h1 q"
      "\<forall>zs. ring h' zs = ring h1 zs" "oom h' = oom h1" "brk h' = brk h1" "refs (iobs h') = refs (iobs h1)"
      "\<not> b' \<Longrightarrow> \<forall>q\<in>set ps. exclusive h1 q"
      using Cons.IH [OF _ h1(2) live] by blast
    have "exclusive h q" if "exclusive h1 q" for q
    proof -
      have "view h r = view h1 r" for r using h1(3) by simp
      then show ?thesis using exclusive_mono [OF that] by blast
    qed
    then show ?thesis using Cons.prems(1) [of b' h'] h1 h' False ex by auto
  qed
qed

lemma gather_loop_overflow:
  "acc + sum_list (map (\<lambda>q. length' (node h q)) ps) < maxLength \<Longrightarrow>
   gather_loop p maxLength acc ps h = Inl (OverflowError, h)"
  by (induction ps arbitrary: acc) (auto simp: Let_def)

lemma chain_bytes_append [simp]: "chain_bytes h (xs @ ys) = chain_bytes h xs @ chain_bytes h ys"
  by (simp add: chain_bytes_def)

lemma chain_bytes_cong: "(\<And>q. q \<in> set ps \<Longrightarrow> node_bytes h' q = node_bytes h q) \<Longrightarrow> chain_bytes h' ps = chain_bytes h ps"
  by (simp add: chain_bytes_def cong: map_cong)

text \<open>An exclusive buffer belongs to no other IOBuf and not to the user.\<close>

lemma exclusive_block:
  assumes ok: "heap_ok U H h" and p: "iobs h p = Some n" and ex: "exclusive h p"
  obtains b xs where "buf' n = Some b" "blks h b = Some xs" "b \<notin> U" "capacity' n \<le> length xs"
    "data' n + length' n \<le> capacity' n"
    "\<And>q m. iobs h q = Some m \<Longrightarrow> q \<noteq> p \<Longrightarrow> buf' m \<noteq> Some b"
proof -
  obtain ow where inv: "mem_inv U H ow h (iobs h)" using ok by (auto simp: heap_ok_def)
  obtain i where i: "sharedInfo n = Some i" "refs (iobs h) i = {p}" using ex p by (auto simp: exclusive_iff)
  obtain s where s: "infos h i = Some s" "buf' n = Some (ow i)" using inv_node_infoD [OF inv p i(1)] by metis
  have owU: "ow i \<notin> U" using invD(6) [OF inv] s(1) by blast
  have other: "buf' m \<noteq> Some (ow i)" if m: "iobs h q = Some m" "q \<noteq> p" for q m
  proof
    assume b: "buf' m = Some (ow i)"
    show False
    proof (cases "sharedInfo m")
      case None
      then show False using invD(2) [OF inv m(1)] b owU by (simp add: node_ok_def)
    next
      case (Some j)
      obtain t where t: "infos h j = Some t" "buf' m = Some (ow j)" using inv_node_infoD [OF inv m(1) Some] by metis
      then have "j = i" using inj_onD [OF invD(4) [OF inv], of j i] b s(1) by auto
      then have "q \<in> refs (iobs h) i" using m(1) Some by (auto simp: refs_def)
      then show False using i(2) m(2) by simp
    qed
  qed
  obtain xs where xs: "blks h (ow i) = Some xs" "capacity' n \<le> length xs" "data' n + length' n \<le> capacity' n"
    using invD(2) [OF inv p] s(2) by (auto simp: node_ok_def)
  show ?thesis by (rule that [OF s(2) xs(1) owU xs(2,3)]) (rule other)
qed


lemma unshareOne_ok:
  assumes ok: "heap_ok U H h" and p: "iobs h p = Some n" and cap: "capacity' n + 31 < 2 ^ 64"
    and mem: "\<And>sz. \<not> oom h sz"
  shows "\<exists>h'. unshareOne p h = Inr ((), h') \<and> unshared_post U H p h h'"
proof -
  obtain b h1 where h1: "isSharedOne p h = Inr (b, h1)" "heap_ok U H h1" "\<forall>q. view h1 q = view h q"
    "\<forall>zs. ring h1 zs = ring h zs" "dom (iobs h1) = dom (iobs h)" "infos h1 = infos h" "oom h1 = oom h" "brk h1 = brk h"
    "refs (iobs h1) = refs (iobs h)"
    "b \<longleftrightarrow> (case sharedInfo n of None \<Rightarrow> True
       | Some i \<Rightarrow> externallyShared (the (infos h i)) \<or> refs (iobs h) i \<noteq> {p})"
    using isSharedOne_ok [OF ok p] .
  have nb: "node_bytes h1 p = node_bytes h p" using view_bytes [of h1 p h] h1(3) p by simp
  obtain n1 where n1: "iobs h1 p = Some n1" "capacity' n1 = capacity' n" "sharedInfo n1 = sharedInfo n"
    using h1(3) [rule_format, of p] p by (auto simp: view_def)
  show ?thesis
  proof (cases b)
    case True
    obtain h' where "unshareOneSlow p h1 = Inr ((), h')" "unshared_post U H p h1 h'"
      using unshareOneSlow_ok [OF h1(2) n1(1)] cap n1(2) mem h1(7) by auto
    then show ?thesis using h1(1,3,4) nb True by (auto simp: unshareOne_def unshared_post_def)
  next
    case False
    then have "exclusive h1 p" using h1(9,10) n1 by (auto simp: exclusive_iff split: option.splits)
    then have "unshared_post U H p h h1" using h1(2,3,4) nb by (simp add: unshared_post_def)
    then show ?thesis using h1(1) False by (auto simp: unshareOne_def)
  qed
qed

lemma coalesce_room_view:
  assumes "\<forall>q. view h' q = view h q" "\<And>q. q \<in> set (p # ps) \<Longrightarrow> iobs h q \<noteq> None"
  shows "coalesce_room h' p ps = coalesce_room h p ps" "chain_bytes h' (p # ps) = chain_bytes h (p # ps)"
proof -
  have nb: "node_bytes h' q = node_bytes h q" if "q \<in> set (p # ps)" for q
    using view_bytes [of h' q h] assms(1) assms(2) [OF that] by simp
  then show c: "chain_bytes h' (p # ps) = chain_bytes h (p # ps)" by (rule chain_bytes_cong)
  have nd: "headroom (node h' q) = headroom (node h q)" "tailroom (node h' q) = tailroom (node h q)"
    if "q \<in> set (p # ps)" for q
    using assms(1) [rule_format, of q] assms(2) [OF that]
    by (auto simp: view_def node_def headroom_def tailroom_def map_option_case split: option.splits)
  show "coalesce_room h' p ps = coalesce_room h p ps"
    using c nd [of p] nd [of "last (p # ps)"] last_in_set [of "p # ps"]
    by (simp add: coalesce_room_def del: last.simps)
qed

lemma coalesceSlow_ok:
  assumes ok: "heap_ok U H h" and r: "ring h (p # ps)" "ps \<noteq> []" "set ps \<subseteq> H"
    and cap: "coalesce_room h p ps + 31 < 2 ^ 64"
  shows "if oom h (ext_capacity (coalesce_room h p ps) + 24) then coalesceSlow p h = Inl (BadAlloc, h)
    else \<exists>h'. coalesceSlow p h = Inr ((), h') \<and>
      coalesce_post U H p ps [] (headroom (node h p)) (tailroom (node h (last (p # ps)))) h h'"
proof -
  note step = coalesceAndReallocate2_ok [OF ok, of p ps "[]" p] coalesceSlow_eq [OF ok r(1,2)]
  show ?thesis
  proof (cases "oom h (ext_capacity (coalesce_room h p ps) + 24)")
    case True
    then show ?thesis using step r cap by simp
  next
    case False
    then obtain h' where h': "coalesceAndReallocate2 p (length (chain_bytes h (p # ps))) p h = Inr ((), h')"
      "coalesce_post U H p ps [] (headroom (node h p)) (tailroom (node h (last (p # ps)))) h h'"
      using step(1) r cap by (auto simp del: last.simps)
    then have "isChained p h' = Inr (False, h')"
      using ring_isChained [of h' p "[]"] by (simp add: coalesce_post_def)
    then show ?thesis using False h' step(2) by (simp add: check_def del: last.simps)
  qed
qed

lemma coalesce_ok:
  assumes ok: "heap_ok U H h" and r: "ring h (p # ps)" "set ps \<subseteq> H"
    and cap: "coalesce_room h p ps + 31 < 2 ^ 64" and mem: "\<And>sz. \<not> oom h sz"
  obtains h' n where "coalesce p h = Inr ((buf' n, data' n, length' n), h')" "iobs h' p = Some n"
    "heap_ok U (H - set ps) h'" "ring h' [p]" "node_bytes h' p = chain_bytes h (p # ps)"
    "frame (set (p # ps)) h h'" "dom (iobs h') = dom (iobs h) - set ps"
proof (cases "ps = []")
  case True
  obtain n where "iobs h p = Some n" using ring_live [OF r(1), of p] by auto
  then show ?thesis using that [of n h] ok r True ring_isChained [OF r(1)]
    by (simp add: coalesce_def iob_def chain_bytes_def)
next
  case False
  obtain h' where h': "coalesceSlow p h = Inr ((), h')"
    "coalesce_post U H p ps [] (headroom (node h p)) (tailroom (node h (last (p # ps)))) h h'"
    using coalesceSlow_ok [OF ok r(1) False r(2) cap] mem by auto
  obtain n where n: "iobs h' p = Some n"
    using ring_live [of h' "[p]" p] h'(2) by (auto simp: coalesce_post_def)
  then show ?thesis using that [of n h'] h' False ring_isChained [OF r(1)]
    by (simp add: coalesce_def iob_def coalesce_post_def)
qed

lemma unshare_ok:
  assumes ok: "heap_ok U H h" and r: "ring h (p # ps)" "set ps \<subseteq> H"
    and cap: "coalesce_room h p ps + 31 < 2 ^ 64" "capacity' (node h p) + 31 < 2 ^ 64" and mem: "\<And>sz. \<not> oom h sz"
  obtains h' qs where "unshare p h = Inr ((), h')" "heap_ok U (H - (set ps - set qs)) h'" "ring h' (p # qs)"
    "chain_bytes h' (p # qs) = chain_bytes h (p # ps)" "\<forall>q\<in>set (p # qs). exclusive h' q"
    "frame (set (p # ps)) h h'"
proof (cases "ps = []")
  case True
  obtain n where n: "iobs h p = Some n" using ring_live [OF r(1), of p] by auto
  obtain h' where h': "unshareOne p h = Inr ((), h')" "unshared_post U H p h h'"
    using unshareOne_ok [OF ok n _ mem] cap(2) n by (auto simp: node_def)
  have "unshare p h = Inr ((), h')" using ring_isChained [OF r(1)] True h'(1) by (simp add: unshare_def)
  then show ?thesis by (rule that [of h' "[]"])
    (use h'(2) r(1) True in \<open>auto simp: unshared_post_def chain_bytes_def frame_def\<close>)
next
  case False
  have ch: "chain h p = Inr (p # ps, h)" using chain_ring [OF r(1)] ok by (simp add: heap_ok_def)
  obtain b h1 where h1: "any_shared (p # ps) h = Inr (b, h1)" "heap_ok U H h1" "\<forall>q. view h1 q = view h q"
    "\<forall>zs. ring h1 zs = ring h zs" "oom h1 = oom h" "brk h1 = brk h" "refs (iobs h1) = refs (iobs h)"
    "\<not> b \<Longrightarrow> \<forall>q\<in>set (p # ps). exclusive h q"
    using any_shared_ok [OF ok ring_live [OF r(1)]] by blast
  note cr = coalesce_room_view [OF h1(3) ring_live [OF r(1)]]
  have fr1: "frame X h h1" for X using h1(3,4) by (simp add: frame_def)
  have run: "unshare p h = (if b then coalesceSlow p h1 else Inr ((), h1))"
    using ring_isChained [OF r(1)] False ch h1(1) by (simp add: unshare_def unshareChained_def)
  show ?thesis
  proof (cases b)
    case True
    have r1: "ring h1 (p # ps)" using h1(4) r(1) by simp
    have "coalesce_room h1 p ps + 31 < 2 ^ 64" using cap(1) cr(1) by simp
    then obtain h' where h': "coalesceSlow p h1 = Inr ((), h')"
      "coalesce_post U H p ps [] (headroom (node h1 p)) (tailroom (node h1 (last (p # ps)))) h1 h'"
      using coalesceSlow_ok [OF h1(2) r1 False r(2)] mem h1(5) by auto
    have fr: "frame (set (p # ps)) h1 h'" using h'(2) by (simp add: coalesce_post_def)
    have "unshare p h = Inr ((), h')" using run True h'(1) by simp
    then show ?thesis
    proof (rule that [of h' "[]"])
      show "frame (set (p # ps)) h h'" using frame_trans [OF fr1 fr, of "set (p # ps)"] by simp
      show "chain_bytes h' [p] = chain_bytes h (p # ps)"
        using h'(2) cr(2) by (simp add: coalesce_post_def chain_bytes_def)
    qed (use h'(2) in \<open>simp_all add: coalesce_post_def\<close>)
  next
    case no: False
    have "unshare p h = Inr ((), h1)" using run no by simp
    then show ?thesis
    proof (rule that [of h1 ps])
      have "exclusive h1 q" if "exclusive h q" for q
        using exclusive_mono [OF that, of h1] h1(3) by simp
      then show "\<forall>q\<in>set (p # ps). exclusive h1 q" using h1(8) no by blast
    qed (use h1 r cr fr1 in simp_all)
  qed
qed

end
