(* ===== verification/Acc_IOBuf_Correct.thy ===== *)
theory Acc_IOBuf_Correct
  imports Acc_IOBuf_Props "HOL-Library.Sublist"
begin

text \<open>
  The correctness properties of IOBuf, and a small heap on which they are instantiated.
\<close>

section \<open>A heap with two chained buffers\<close>

definition empty_heap :: heap where
  "empty_heap = \<lparr>iobs = Map.empty, infos = Map.empty, blks = Map.empty, stors = Map.empty, brk = 0,
     calls = [], oom = (\<lambda>_. False), junk = 0xA5\<rparr>"

definition heap_of :: "'a io \<Rightarrow> heap" where
  "heap_of r = (case r of Inl (_, h) \<Rightarrow> h | Inr (_, h) \<Rightarrow> h)"

definition one_buf :: heap where
  "one_buf = heap_of (copyBuffer [1, 2, 3] 0 2 empty_heap)"

definition two_bufs :: heap where
  "two_bufs = heap_of (copyBuffer [4, 5] 1 1 one_buf)"

definition chain_of_two :: heap where
  "chain_of_two = heap_of (prependChain 2 5 two_bufs)"

lemma empty_heap_ok: "heap_ok {} {} empty_heap"
  by (auto simp: heap_ok_def links_ok_def fresh_def mem_inv_def empty_heap_def internal_def stor_flags_def)

lemma one_buf_ok:
  "heap_ok {} {2} one_buf" "ring one_buf [2]" "node_bytes one_buf 2 = [1, 2, 3]" "oom one_buf = (\<lambda>_. False)"
  "brk one_buf = 3" "headroom (node one_buf 2) = 0" "tailroom (node one_buf 2) = 2"
proof -
  obtain h' where h': "copyBuffer [1, 2, 3] 0 2 empty_heap = Inr (brk empty_heap + 2, h')"
    "heap_ok {} (insert (brk empty_heap + 2) {}) h'"
    "ring h' [brk empty_heap + 2]" "node_bytes h' (brk empty_heap + 2) = [1, 2, 3]"
    "frame {brk empty_heap + 2} empty_heap h'" "oom h' = oom empty_heap" "brk h' = brk empty_heap + 3"
    "headroom (node h' (brk empty_heap + 2)) = 0" "tailroom (node h' (brk empty_heap + 2)) = 2"
    by (rule copyBuffer_combined [OF empty_heap_ok, of 0 "[1, 2, 3]" 2]) (simp_all add: empty_heap_def)
  then have "one_buf = h'" by (simp add: one_buf_def heap_of_def)
  then show "heap_ok {} {2} one_buf" "ring one_buf [2]" "node_bytes one_buf 2 = [1, 2, 3]" "oom one_buf = (\<lambda>_. False)"
    "brk one_buf = 3" "headroom (node one_buf 2) = 0" "tailroom (node one_buf 2) = 2"
    using h' by (simp_all add: empty_heap_def numeral_2_eq_2)
qed

lemma two_bufs_ok:
  "heap_ok {} {2, 5} two_bufs" "ring two_bufs [2]" "ring two_bufs [5]" "node_bytes two_bufs 2 = [1, 2, 3]"
  "node_bytes two_bufs 5 = [4, 5]" "oom two_bufs = (\<lambda>_. False)" "headroom (node two_bufs 2) = 0"
  "tailroom (node two_bufs 5) = 1"
proof -
  obtain h' where h': "copyBuffer [4, 5] 1 1 one_buf = Inr (brk one_buf + 2, h')"
    "heap_ok {} (insert (brk one_buf + 2) {2}) h'"
    "ring h' [brk one_buf + 2]" "node_bytes h' (brk one_buf + 2) = [4, 5]"
    "frame {brk one_buf + 2} one_buf h'" "oom h' = oom one_buf" "brk h' = brk one_buf + 3"
    "headroom (node h' (brk one_buf + 2)) = 1" "tailroom (node h' (brk one_buf + 2)) = 1"
    by (rule copyBuffer_combined [OF one_buf_ok(1), of 1 "[4, 5]" 1]) (simp_all add: one_buf_ok)
  then have e: "two_bufs = h'" by (simp add: two_bufs_def heap_of_def)
  have v: "view h' 2 = view one_buf 2" using frame_view [OF h'(5), of 2] by (simp add: one_buf_ok)
  have live: "iobs one_buf 2 \<noteq> None" using ring_live [OF one_buf_ok(2)] by simp
  have "headroom (node h' 2) = headroom (node one_buf 2)"
    using v live by (auto simp: view_def node_def headroom_def map_option_case split: option.splits)
  then show "heap_ok {} {2, 5} two_bufs" "ring two_bufs [2]" "ring two_bufs [5]" "node_bytes two_bufs 2 = [1, 2, 3]"
    "node_bytes two_bufs 5 = [4, 5]" "oom two_bufs = (\<lambda>_. False)" "headroom (node two_bufs 2) = 0"
    "tailroom (node two_bufs 5) = 1"
    using h' frame_ring [OF h'(5) one_buf_ok(2)] view_bytes [OF v live]
    by (simp_all add: e one_buf_ok insert_commute)
qed

lemma chain_of_two_ok:
  "heap_ok {} {2, 5} chain_of_two" "ring chain_of_two [2, 5]" "oom chain_of_two = (\<lambda>_. False)"
  "\<forall>z. view chain_of_two z = view two_bufs z"
proof -
  obtain h' where h': "prependChain 2 5 two_bufs = Inr ((), h')" "heap_ok {} {2, 5} h'" "ring h' (2 # [] @ [5])"
    "frame (set [2, 5]) two_bufs h'" "oom h' = oom two_bufs" "\<And>z. view h' z = view two_bufs z"
    by (rule ring_join_frame [OF two_bufs_ok(1,2,3)]) simp_all
  then have e: "chain_of_two = h'" by (simp add: chain_of_two_def heap_of_def)
  show "heap_ok {} {2, 5} chain_of_two" "ring chain_of_two [2, 5]" "oom chain_of_two = (\<lambda>_. False)"
    "\<forall>z. view chain_of_two z = view two_bufs z"
    using h' by (simp_all add: e two_bufs_ok)
qed

lemma chain_of_two_eval:
  "chain_bytes chain_of_two [2, 5] = [1, 2, 3, 4, 5]" "coalesce_room chain_of_two 2 [5] = 6"
  "capacity' (node chain_of_two 2) = 5"
  by code_simp+


section \<open>Helper facts\<close>

lemma coalesce_oom_ok:
  assumes ok: "heap_ok U H h" and r: "ring h (p # ps)" "ps \<noteq> []" "set ps \<subseteq> H"
    and cap: "coalesce_room h p ps + 31 < 2 ^ 64" and mem: "oom h (ext_capacity (coalesce_room h p ps) + 24)"
  shows "coalesce p h = Inl (BadAlloc, h)"
  using coalesceSlow_ok [OF ok r cap] mem ring_isChained [OF r(1)] r(2) by (simp add: coalesce_def)



lemma moveToString_tail:
  assumes ok: "heap_ok U H h" and r: "ring h [p]" and ex: "exclusive h p" and room: "1 \<le> tailroom (node h p)"
    and n: "iobs h p = Some n"
  obtains h' b where
    "bindE (blk_write (buf' n) (data' n + length' n) [0] h) (\<lambda>(_, h).
     bindE (blk_read (buf' n) (data' n) (length' n) h) (\<lambda>(str, h).
     bindE (if kFlagFreeSharedInfo n then delete_info (the (sharedInfo n)) h else Inr ((), h)) (\<lambda>(_, h).
     Inr (str, upd_iob p (\<lambda>n. n\<lparr>sharedInfo := None, kFlagMaybeShared := False,
       kFlagFreeSharedInfo := False, buf' := None, data' := 0, length' := 0\<rparr>) h)))) = Inr (node_bytes h p, h')"
    "b \<notin> U" "blks h' b \<noteq> None" "\<forall>q m. iobs h' q = Some m \<longrightarrow> buf' m \<noteq> Some b"
    "buf' (node h' p) = None" "capacity' (node h' p) = capacity' n"
proof -
  obtain b xs where b: "buf' n = Some b" "blks h b = Some xs" "b \<notin> U" "capacity' n \<le> length xs"
    "data' n + length' n \<le> capacity' n" "\<And>q m. iobs h q = Some m \<Longrightarrow> q \<noteq> p \<Longrightarrow> buf' m \<noteq> Some b"
    using exclusive_block [OF ok n ex] by metis
  obtain ow where inv: "mem_inv U H ow h (iobs h)" using ok by (auto simp: heap_ok_def)
  obtain i where i: "sharedInfo n = Some i" using ex n by (auto simp: exclusive_iff)
  obtain s where s: "infos h i = Some s" "separate s = kFlagFreeSharedInfo n"
    using inv_node_infoD [OF inv n i] by metis
  have le: "data' n + length' n + 1 \<le> length xs" using room b(4,5) n by (simp add: tailroom_def node_def)
  let ?ys = "overwrite (data' n + length' n) [0] xs"
  define h1 where "h1 = h\<lparr>blks := (blks h)(b \<mapsto> ?ys)\<rparr>"
  define h2 where "h2 = (if kFlagFreeSharedInfo n then h1\<lparr>infos := (infos h)(i := None)\<rparr> else h1)"
  define h' where "h' = upd_iob p (\<lambda>n. n\<lparr>sharedInfo := None, kFlagMaybeShared := False,
       kFlagFreeSharedInfo := False, buf' := None, data' := 0, length' := 0\<rparr>) h2"
  have rd: "take (length' n) (drop (data' n) ?ys) = node_bytes h p"
    using b(1,2) n le by (auto simp: overwrite_def node_bytes_def node_def drop_take min_def)
  have "blk_write (buf' n) (data' n + length' n) [0] h = Inr ((), h1)"
    using b(1,2) le by (simp add: blk_write_def h1_def)
  moreover have "blk_read (buf' n) (data' n) (length' n) h1 = Inr (node_bytes h p, h1)"
    using b(1) le rd by (simp add: blk_read_def h1_def)
  moreover have "(if kFlagFreeSharedInfo n then delete_info (the (sharedInfo n)) h1 else Inr ((), h1)) = Inr ((), h2)"
    using i s by (simp add: delete_info_def info_def check_def h1_def h2_def)
  ultimately show ?thesis
    by (intro that [of h' b]) (use b n in \<open>auto simp: h'_def h2_def h1_def upd_iob_def node_def\<close>)
qed


lemma string_needs_copy_ok:
  assumes ok: "heap_ok U H h" and r: "ring h (p # ps)" and n: "iobs h p = Some n"
  obtains c h1 where "string_needs_copy p n h = Inr (c, h1)" "heap_ok U H h1" "\<forall>q. view h1 q = view h q"
    "\<forall>zs. ring h1 zs = ring h zs" "oom h1 = oom h" "\<not> c \<longrightarrow> ps = [] \<and> exclusive h1 p \<and> 1 \<le> tailroom n"
proof -
  note obt = that
  have same: thesis if "string_needs_copy p n h = Inr (True, h)"
    using \<open>string_needs_copy p n h = Inr (True, h)\<close> ok by (intro obt [of True h]) simp_all
  show thesis
  proof (cases "sharedInfo n")
    case None
    then show thesis by (intro same) (simp add: string_needs_copy_def)
  next
    case (Some i)
    obtain ow where inv: "mem_inv U H ow h (iobs h)" using ok by (auto simp: heap_ok_def)
    obtain s where s: "infos h i = Some s" using inv_node_infoD [OF inv n Some] by metis
    have ch: "chain h p = Inr (p # ps, h)" using chain_ring [OF r] ok by (simp add: heap_ok_def)
    obtain b h1 where h1: "any_shared (p # ps) h = Inr (b, h1)" "heap_ok U H h1" "\<forall>q. view h1 q = view h q"
      "\<forall>zs. ring h1 zs = ring h zs" "oom h1 = oom h" "brk h1 = brk h" "refs (iobs h1) = refs (iobs h)"
      "\<not> b \<Longrightarrow> \<forall>q\<in>set (p # ps). exclusive h q"
      using any_shared_ok [OF ok ring_live [OF r]] by blast
    have ex: "exclusive h1 p" if "\<not> b" using exclusive_mono [of h p h1] h1(3,8) that by simp
    have chd: "isChained p h1 = Inr (ps \<noteq> [], h1)" using ring_isChained h1(4) r by blast
    have run: "string_needs_copy p n h = (if freeFn s \<noteq> None \<or> headroom n \<noteq> 0 \<or> tailroom n = 0 then Inr (True, h)
      else Inr (b \<or> ps \<noteq> [], h1))"
      using Some s ch h1(1) chd by (simp add: string_needs_copy_def info_def isShared_def del: any_shared.simps)
    show thesis
    proof (cases "freeFn s \<noteq> None \<or> headroom n \<noteq> 0 \<or> tailroom n = 0")
      case True
      then show thesis using run by (intro same) simp
    next
      case False
      then show thesis using run h1(2-5) ex by (intro obt [of "b \<or> ps \<noteq> []" h1]) simp_all
    qed
  qed
qed

lemma moveToString_ok:
  assumes ok: "heap_ok U H h" and r: "ring h (p # ps)" "set ps \<subseteq> H"
    and cap: "length (chain_bytes h (p # ps)) + 32 < 2 ^ 64" and mem: "\<And>sz. \<not> oom h sz"
  obtains h' b where "moveToString p h = Inr (chain_bytes h (p # ps), h')"
    "b \<notin> U" "blks h' b \<noteq> None" "\<forall>q m. iobs h' q = Some m \<longrightarrow> buf' m \<noteq> Some b" "buf' (node h' p) = None"
proof -
  obtain n where n: "iobs h p = Some n" using ring_live [OF r(1), of p] by auto
  obtain c h1 where h1: "string_needs_copy p n h = Inr (c, h1)" "heap_ok U H h1" "\<forall>q. view h1 q = view h q"
    "\<forall>zs. ring h1 zs = ring h zs" "oom h1 = oom h" "\<not> c \<longrightarrow> ps = [] \<and> exclusive h1 p \<and> 1 \<le> tailroom n"
    using string_needs_copy_ok [OF ok r(1) n] .
  have cb: "chain_bytes h1 (p # ps) = chain_bytes h (p # ps)"
    using coalesce_room_view(2) [OF h1(3) ring_live [OF r(1)]] .
  have r1: "ring h1 (p # ps)" using h1(4) r(1) by simp
  obtain h2 where h2: "(if c then bindE (computeChainDataLength p h1) (\<lambda>(len, h). coalesceAndReallocate p 0 len p 1 h)
      else Inr ((), h1)) = Inr ((), h2)" "heap_ok U (H - set ps) h2" "ring h2 [p]" "exclusive h2 p"
      "1 \<le> tailroom (node h2 p)" "node_bytes h2 p = chain_bytes h (p # ps)"
  proof (cases c)
    case True
    obtain h2 where h2: "coalesceAndReallocate p 0 (length (chain_bytes h1 (p # ps))) p 1 h1 = Inr ((), h2)"
      "coalesce_post U H p ps [] 0 1 h1 h2"
      using coalesceAndReallocate_ok [OF h1(2), of p ps "[]" p "length (chain_bytes h1 (p # ps))" 0 1]
        r1 r(2) cap cb mem h1(5) by auto
    show ?thesis
      by (rule that [of h2]) (use True h2 computeChainDataLength_ok [OF h1(2) r1] cb in
        \<open>simp_all add: coalesce_post_def\<close>)
  next
    case False
    then have ps: "ps = []" "exclusive h1 p" "1 \<le> tailroom n" using h1(6) by auto
    have "tailroom (node h1 p) = tailroom n"
      using h1(3) [rule_format, of p] n by (auto simp: view_def node_def tailroom_def)
    then show ?thesis
      by (intro that [of h1]) (use False ps h1(2) r1 cb in \<open>simp_all add: chain_bytes_def\<close>)
  qed
  obtain n2 where n2: "iobs h2 p = Some n2" using ring_live [OF h2(3), of p] by auto
  show ?thesis
  proof (rule moveToString_tail [OF h2(2-5) n2])
    fix h' b
    assume *: "bindE (blk_write (buf' n2) (data' n2 + length' n2) [0] h2) (\<lambda>(_, h).
     bindE (blk_read (buf' n2) (data' n2) (length' n2) h) (\<lambda>(str, h).
     bindE (if kFlagFreeSharedInfo n2 then delete_info (the (sharedInfo n2)) h else Inr ((), h)) (\<lambda>(_, h).
     Inr (str, upd_iob p (\<lambda>n. n\<lparr>sharedInfo := None, kFlagMaybeShared := False,
       kFlagFreeSharedInfo := False, buf' := None, data' := 0, length' := 0\<rparr>) h)))) = Inr (node_bytes h2 p, h')"
      "b \<notin> U" "blks h' b \<noteq> None" "\<forall>q m. iobs h' q = Some m \<longrightarrow> buf' m \<noteq> Some b" "buf' (node h' p) = None"
    have "moveToString p h = Inr (chain_bytes h (p # ps), h')"
      using n h1(1) h2(1,6) n2 *(1) by (simp add: moveToString_def iob_def)
    then show ?thesis using that *(2-5) by blast
  qed
qed


lemma createChain_loop_diverges:
  assumes "heap_ok U H h" "\<And>sz. \<not> oom h sz" "ring h (out # ps)" "alloc < tot"
  shows "createChain_loop fuel out alloc tot 0 h = None"
  using assms
proof (induction fuel arbitrary: h H ps)
  case (Suc fuel)
  note ok = Suc.prems(1) and mem = Suc.prems(2) and r = Suc.prems(3)
  obtain q h1 n where h1: "create 0 h = Inr (q, h1)" "heap_ok U (insert q H) h1" "ring h1 [q]" "frame {q} h h1"
    "oom h1 = oom h" "iobs h q = None" "iobs h1 = (iobs h)(q \<mapsto> n)" "capacity' n = 0"
    by (rule create_ok [OF ok, of 0]) (simp_all add: mem)
  have q: "q \<notin> set (out # ps)" using ring_live [OF r, of q] h1(6) by auto
  have r1: "ring h1 (out # ps)" using frame_ring [OF h1(4) r] q by auto
  obtain h2 where h2: "prependChain out q h1 = Inr ((), h2)" "heap_ok U (insert q H) h2" "ring h2 (out # ps @ [q])"
    "oom h2 = oom h1"
    using ring_join_frame [OF h1(2) r1 h1(3) q] by metis
  have "createChain_loop fuel out alloc tot 0 h2 = None"
    using Suc.IH [OF h2(2) _ h2(3) Suc.prems(4)] mem h1(5) h2(4) by simp
  then show ?case using h1(1,7,8) h2(1) Suc.prems(4) by simp
qed simp

lemma createChain_diverges:
  assumes ok: "heap_ok U H h" and mem: "\<And>sz. \<not> oom h sz" and tot: "0 < tot"
  shows "createChain fuel tot 0 h = None"
proof -
  obtain q h1 n where h1: "create 0 h = Inr (q, h1)" "heap_ok U (insert q H) h1" "ring h1 [q]"
    "oom h1 = oom h" "iobs h1 = (iobs h)(q \<mapsto> n)" "capacity' n = 0"
    by (rule create_ok [OF ok, of 0]) (simp_all add: mem)
  have "createChain_loop fuel q 0 tot 0 h1 = None"
    by (rule createChain_loop_diverges [OF h1(2) _ h1(3) tot]) (simp add: h1(4) mem)
  then show ?thesis using h1(1,5,6) by (simp add: createChain_def)
qed

lemma createChain_ok:
  assumes ok: "heap_ok U H h" and mem: "\<And>sz. \<not> oom h sz" and m: "0 < m" "m + 31 < 2 ^ 64"
  obtains h' p qs where "createChain (Suc tot) tot m h = Some (Inr (p, h'))" "heap_ok U (H \<union> set (p # qs)) h'"
    "ring h' (p # qs)" "tot \<le> (\<Sum>q\<leftarrow>p # qs. capacity' (node h' q))" "\<forall>q\<in>set (p # qs). length' (node h' q) = 0"
proof -
  have c: "min tot m + 31 < 2 ^ 64" using m by auto
  obtain q h1 n where h1: "create (min tot m) h = Inr (q, h1)" "heap_ok U (insert q H) h1" "ring h1 [q]"
    "oom h1 = oom h" "iobs h1 = (iobs h)(q \<mapsto> n)" "length' n = 0"
    using create_ok [OF ok c mem] by metis
  obtain h' qs where h': "createChain_loop (Suc tot) q (capacity' n) tot m h1 = Some (Inr ((), h'))"
    "heap_ok U (insert q H \<union> set qs) h'" "ring h' (q # [] @ qs)" "frame (set (q # [] @ qs)) h1 h'"
    "tot \<le> capacity' n + (\<Sum>q\<leftarrow>qs. capacity' (node h' q))" "\<And>z. z \<in> set [q] \<Longrightarrow> view h' z = view h1 z"
    "\<forall>q\<in>set qs. length' (node h' q) = 0"
    by (rule createChain_loop_returns [OF h1(2) _ m h1(3), of tot "capacity' n" "Suc tot"]) (simp_all add: h1(4) mem)
  have "capacity' (node h' q) = capacity' n" "length' (node h' q) = 0"
    using h'(6) [of q] h1(5,6) by (auto simp: view_def node_def map_option_case split: option.splits)
  then show ?thesis using h' h1(1,5) that [of q h' qs] by (simp add: createChain_def)
qed

lemma splice_ok:
  assumes ok: "heap_ok U H h" and r: "ring h (p # xs)" "ring h (q # ys)" "set (p # xs) \<inter> set (q # ys) = {}"
  obtains h1 h2 where "prependChain p q h = Inr ((), h1)" "heap_ok U H h1" "ring h1 (p # xs @ q # ys)"
    "\<forall>z. view h1 z = view h z"
    "separateChain p q (last (q # ys)) h1 = Inr (q, h2)" "heap_ok U H h2" "ring h2 (p # xs)" "ring h2 (q # ys)"
    "\<forall>z. view h2 z = view h z"
proof -
  obtain h1 where h1: "prependChain p q h = Inr ((), h1)" "ring h1 (p # xs @ q # ys)"
    "h1 = swap_edges (last (p # xs)) p (last (q # ys)) q h"
    using prependChain_ring [OF r] .
  have ok1: "heap_ok U H h1" unfolding h1(3)
    using heap_ok_swap [OF ok ring_Cons_edges(2) [OF r(1)] ring_Cons_edges(2) [OF r(2)]] .
  have r1: "ring h1 ((p # xs) @ (q # ys) @ [])" using h1(2) by simp
  obtain h2 where h2: "separateChain (hd (p # xs)) (hd (q # ys)) (last (q # ys)) h1 = Inr (hd (q # ys), h2)"
    "ring h2 ((p # xs) @ [])" "ring h2 (q # ys)"
    "h2 = swap_edges (last (p # xs)) (hd (q # ys)) (last (q # ys)) (hd ([] @ p # xs)) h1"
    using separateChain_ring [OF r1 list.distinct(2) list.distinct(2)] .
  have p: "path h1 (p # xs) q" "path h1 (q # ys) p" using h1(2) unfolding ring_def append.simps(2) [symmetric] path_append by simp_all
  then have "edge h1 (last (p # xs)) q" "edge h1 (last (q # ys)) p"
    using path_butlast_iff [of "p # xs"] path_butlast_iff [of "q # ys"] by blast+
  then have "heap_ok U H h2" unfolding h2(4) using heap_ok_swap [OF ok1] by simp
  then show ?thesis using that [of h1 h2] h1 h2 ok1 by simp
qed

lemma delete_all_ok:
  assumes "heap_ok U (set (p # ps)) h" "ring h (p # ps)" "dom (iobs h) = set (p # ps)"
  obtains h' where "delete_iob p h = Inr ((), h')" "iobs h' = Map.empty" "infos h' = Map.empty"
    "stors h' = Map.empty" "dom (blks h') = U"
proof -
  obtain h' where h': "delete_iob p h = Inr ((), h')" "heap_ok U (set (p # ps) - set (p # ps)) h'"
    "dom (iobs h') = dom (iobs h) - set (p # ps)" "frame (set (p # ps)) h h'" "brk h' = brk h" "oom h' = oom h"
    using delete_iob_ok [OF assms(1,2) subset_refl] .
  have "dom (iobs h') = {}" using h'(3) assms(3) by simp
  then have "iobs h' = Map.empty" by simp
  then show ?thesis using heap_ok_no_leak [of U h'] h'(1,2) that by simp
qed


section \<open>Properties\<close>

text \<open>
  C1: \<open>coalesce()\<close> on a chain of heap-allocated elements. When \<open>malloc\<close> fails it throws
  \<open>bad_alloc\<close> and the heap is untouched. Otherwise the head alone remains, it holds exactly the
  bytes of the whole chain in order, the returned range describes them, the other elements
  are destroyed, every reference count is again the number of holders (\<open>heap_ok\<close>), and no IOBuf
  outside the chain changed.
\<close>

theorem iobuf_coalesce:
  assumes "heap_ok U H h" "ring h (p # ps)" "ps \<noteq> []" "set ps \<subseteq> H" "coalesce_room h p ps + 31 < 2 ^ 64"
  shows "(oom h (ext_capacity (coalesce_room h p ps) + 24) \<longrightarrow> coalesce p h = Inl (BadAlloc, h)) \<and>
    ((\<forall>sz. \<not> oom h sz) \<longrightarrow> (\<exists>h' n. coalesce p h = Inr ((buf' n, data' n, length' n), h') \<and> iobs h' p = Some n \<and>
      heap_ok U (H - set ps) h' \<and> ring h' [p] \<and> node_bytes h' p = chain_bytes h (p # ps) \<and>
      frame (set (p # ps)) h h' \<and> dom (iobs h') = dom (iobs h) - set ps))"
proof (intro conjI impI)
  show "coalesce p h = Inl (BadAlloc, h)" if "oom h (ext_capacity (coalesce_room h p ps) + 24)"
    using coalesce_oom_ok [OF assms that] .
  assume "\<forall>sz. \<not> oom h sz"
  then have "\<And>sz. \<not> oom h sz" by blast
  from coalesce_ok [OF assms(1,2,4,5) this] show "\<exists>h' n. coalesce p h = Inr ((buf' n, data' n, length' n), h') \<and> iobs h' p = Some n \<and>
      heap_ok U (H - set ps) h' \<and> ring h' [p] \<and> node_bytes h' p = chain_bytes h (p # ps) \<and>
      frame (set (p # ps)) h h' \<and> dom (iobs h') = dom (iobs h) - set ps" by metis
qed

theorem iobuf_coalesce_witness:
  "heap_ok {} {2, 5} chain_of_two \<and> ring chain_of_two [2, 5] \<and>
   (\<exists>h' n. coalesce 2 chain_of_two = Inr ((buf' n, data' n, length' n), h') \<and> iobs h' 2 = Some n \<and>
      node_bytes h' 2 = [1, 2, 3, 4, 5])"
proof -
  have "\<exists>h' n. coalesce 2 chain_of_two = Inr ((buf' n, data' n, length' n), h') \<and> iobs h' 2 = Some n \<and>
      heap_ok {} ({2, 5} - set [5]) h' \<and> ring h' [2] \<and> node_bytes h' 2 = chain_bytes chain_of_two (2 # [5]) \<and>
      frame (set (2 # [5])) chain_of_two h' \<and> dom (iobs h') = dom (iobs chain_of_two) - set [5]"
    using iobuf_coalesce [of "{}" "{2, 5}" chain_of_two 2 "[5]"] chain_of_two_ok(1-3) chain_of_two_eval(2) by simp
  then show ?thesis using chain_of_two_ok(1,2) chain_of_two_eval(1) by metis
qed



text \<open>
  C8: \<open>isSharedOne()\<close> never fails on a live IOBuf and answers exactly: the buffer is unmanaged,
  or marked as externally shared, or some other live IOBuf refers to it. The flag it may clear
  is only the hint: bytes, chains and reference counts are unchanged.
\<close>

theorem iobuf_isSharedOne_exact:
  assumes "heap_ok U H h" "iobs h p = Some n"
  shows "\<exists>h'. isSharedOne p h = Inr (case sharedInfo n of None \<Rightarrow> True
       | Some i \<Rightarrow> externallyShared (the (infos h i)) \<or> (\<exists>q m. q \<noteq> p \<and> iobs h q = Some m \<and> sharedInfo m = Some i), h') \<and>
     heap_ok U H h' \<and> frame {} h h' \<and> infos h' = infos h"
proof -
  have "refs (iobs h) i \<noteq> {p} \<longleftrightarrow> (\<exists>q m. q \<noteq> p \<and> iobs h q = Some m \<and> sharedInfo m = Some i)"
    if "sharedInfo n = Some i" for i
    using assms(2) that by (auto simp: refs_def)
  note other = this
  obtain b h' where h': "isSharedOne p h = Inr (b, h')" "heap_ok U H h'" "\<forall>q. view h' q = view h q"
    "\<forall>zs. ring h' zs = ring h zs" "dom (iobs h') = dom (iobs h)" "infos h' = infos h" "oom h' = oom h" "brk h' = brk h"
    "refs (iobs h') = refs (iobs h)"
    "b \<longleftrightarrow> (case sharedInfo n of None \<Rightarrow> True
       | Some i \<Rightarrow> externallyShared (the (infos h i)) \<or> refs (iobs h) i \<noteq> {p})"
    using isSharedOne_ok [OF assms] .
  have "b = (case sharedInfo n of None \<Rightarrow> True
       | Some i \<Rightarrow> externallyShared (the (infos h i)) \<or> (\<exists>q m. q \<noteq> p \<and> iobs h q = Some m \<and> sharedInfo m = Some i))"
    unfolding h'(10) by (cases "sharedInfo n") (simp_all only: option.case other)
  moreover have "frame {} h h'" using h'(3,4) by (simp add: frame_def)
  ultimately show ?thesis using h'(1,2,6) by blast
qed

theorem iobuf_isSharedOne_exact_witness:
  "\<exists>h'. isSharedOne 2 chain_of_two = Inr (False, h') \<and> heap_ok {} {2, 5} h'"
proof -
  have e: "iobs chain_of_two 2 = Some (node chain_of_two 2)"
    using ring_live [OF chain_of_two_ok(2), of 2] by (auto simp: node_def)
  have i: "case isSharedOne 2 chain_of_two of Inr (b, _) \<Rightarrow> \<not> b | Inl _ \<Rightarrow> False" by code_simp
  from iobuf_isSharedOne_exact [OF chain_of_two_ok(1) e] i show ?thesis by auto
qed


text \<open>
  C14: \<open>unshare()\<close> on a single IOBuf or on a chain: afterwards no buffer of the chain is
  referred to by any other IOBuf, so it may be written; the bytes of the chain are unchanged,
  and so is every IOBuf outside it.
\<close>

theorem iobuf_unshare:
  assumes "heap_ok U H h" "ring h (p # ps)" "set ps \<subseteq> H" "coalesce_room h p ps + 31 < 2 ^ 64"
    "capacity' (node h p) + 31 < 2 ^ 64" "\<forall>sz. \<not> oom h sz"
  shows "\<exists>h' qs. unshare p h = Inr ((), h') \<and> heap_ok U (H - (set ps - set qs)) h' \<and> ring h' (p # qs) \<and>
    chain_bytes h' (p # qs) = chain_bytes h (p # ps) \<and> (\<forall>q\<in>set (p # qs). exclusive h' q) \<and>
    frame (set (p # ps)) h h'"
proof -
  have mem: "\<And>sz. \<not> oom h sz" using assms(6) by blast
  show ?thesis by (rule unshare_ok [OF assms(1-5) mem]) blast
qed

theorem iobuf_unshare_witness:
  "\<exists>h' qs. unshare 2 chain_of_two = Inr ((), h') \<and> ring h' (2 # qs) \<and>
     chain_bytes h' (2 # qs) = [1, 2, 3, 4, 5] \<and> exclusive h' 2"
proof -
  have "\<exists>h' qs. unshare 2 chain_of_two = Inr ((), h') \<and> heap_ok {} ({2, 5} - (set [5] - set qs)) h' \<and> ring h' (2 # qs) \<and>
    chain_bytes h' (2 # qs) = chain_bytes chain_of_two (2 # [5]) \<and> (\<forall>q\<in>set (2 # qs). exclusive h' q) \<and>
    frame (set (2 # [5])) chain_of_two h'"
    by (rule iobuf_unshare) (simp_all add: chain_of_two_ok(1-3) chain_of_two_eval)
  then show ?thesis using chain_of_two_eval(1) by auto
qed

text \<open>
  C22: \<open>prependChain()\<close> joins two separate chains into one: the elements of the argument follow
  those of this chain, in order. \<open>separateChain()\<close> on the joined part undoes it and restores
  both chains. No element's buffer, range or bytes change.
\<close>

theorem iobuf_splice:
  assumes "heap_ok U H h" "ring h (p # xs)" "ring h (q # ys)" "set (p # xs) \<inter> set (q # ys) = {}"
  shows "\<exists>h1 h2. prependChain p q h = Inr ((), h1) \<and> heap_ok U H h1 \<and> ring h1 (p # xs @ q # ys) \<and>
    (\<forall>z. view h1 z = view h z) \<and>
    separateChain p q (last (q # ys)) h1 = Inr (q, h2) \<and> heap_ok U H h2 \<and> ring h2 (p # xs) \<and> ring h2 (q # ys) \<and>
    (\<forall>z. view h2 z = view h z)"
  by (rule splice_ok [OF assms]) blast

theorem iobuf_splice_witness:
  "\<exists>h1 h2. prependChain 2 5 two_bufs = Inr ((), h1) \<and> ring h1 [2, 5] \<and>
     separateChain 2 5 5 h1 = Inr (5, h2) \<and> ring h2 [2] \<and> ring h2 [5]"
  using iobuf_splice [of "{}" "{2, 5}" two_bufs 2 "[]" 5 "[]"] two_bufs_ok(1-3) by auto

text \<open>
  C21: Destroying the head of the only chain releases everything: no IOBuf, no reference-count
  record and no storage is left, and the only blocks left are those of the user. Nothing is
  freed twice, since a second release is an error and none occurs.
\<close>

theorem iobuf_delete_releases_all:
  assumes "heap_ok U (set (p # ps)) h" "ring h (p # ps)" "dom (iobs h) = set (p # ps)"
  shows "\<exists>h'. delete_iob p h = Inr ((), h') \<and> iobs h' = Map.empty \<and> infos h' = Map.empty \<and>
    stors h' = Map.empty \<and> dom (blks h') = U"
  by (rule delete_all_ok [OF assms]) blast

theorem iobuf_delete_releases_all_witness:
  "\<exists>h'. delete_iob 2 one_buf = Inr ((), h') \<and> iobs h' = Map.empty \<and> infos h' = Map.empty \<and>
    stors h' = Map.empty \<and> dom (blks h') = {}"
proof -
  have "iobs one_buf = [2 \<mapsto> node one_buf 2]"
    by (simp add: one_buf_def heap_of_def copyBuffer_unwrapped create_def kDefaultCombinedBufSize_def createCombined_def
        offsetof_align_def empty_heap_def place_iob_def advance_def iob_def check_def tailroom_def mk_iobuf_def
        append_buf_def blk_write_def upd_iob_def node_def fun_eq_iff)
  then have "dom (iobs one_buf) = set [2]" by (metis dom_empty dom_fun_upd list.set(1) list.simps(15) option.distinct(1))
  then show ?thesis using iobuf_delete_releases_all [of "{}" 2 "[]" one_buf] one_buf_ok(1,2) by simp
qed

text \<open>
  C23: \<open>createChain(total, max)\<close> with a positive \<open>max\<close> returns after at most \<open>total + 1\<close> rounds of
  its loop: a chain of empty buffers whose capacities add up to at least \<open>total\<close>.
\<close>

theorem iobuf_createChain_returns:
  assumes "heap_ok U H h" "\<forall>sz. \<not> oom h sz" "0 < m" "m + 31 < 2 ^ 64"
  shows "\<exists>h' p qs. createChain (Suc tot) tot m h = Some (Inr (p, h')) \<and> heap_ok U (H \<union> set (p # qs)) h' \<and>
    ring h' (p # qs) \<and> tot \<le> (\<Sum>q\<leftarrow>p # qs. capacity' (node h' q)) \<and> (\<forall>q\<in>set (p # qs). length' (node h' q) = 0)"
proof -
  have mem: "\<And>sz. \<not> oom h sz" using assms(2) by blast
  show ?thesis by (rule createChain_ok [OF assms(1) mem assms(3,4)]) blast
qed

theorem iobuf_createChain_returns_witness:
  "\<exists>h' p qs. createChain 11 10 4 empty_heap = Some (Inr (p, h')) \<and> ring h' (p # qs) \<and>
     10 \<le> (\<Sum>q\<leftarrow>p # qs. capacity' (node h' q))"
proof -
  have "\<exists>h' p qs. createChain (Suc 10) 10 4 empty_heap = Some (Inr (p, h')) \<and> heap_ok {} ({} \<union> set (p # qs)) h' \<and>
    ring h' (p # qs) \<and> 10 \<le> (\<Sum>q\<leftarrow>p # qs. capacity' (node h' q)) \<and> (\<forall>q\<in>set (p # qs). length' (node h' q) = 0)"
    by (rule iobuf_createChain_returns [OF empty_heap_ok]) (simp_all add: empty_heap_def)
  moreover have "Suc 10 = 11" by simp
  ultimately show ?thesis by metis
qed

text \<open>
  C24: \<open>createChain(total, 0)\<close> with a positive total never returns: every round adds an empty
  buffer and no capacity.
\<close>

theorem iobuf_createChain_zero_diverges:
  assumes "heap_ok U H h" "\<forall>sz. \<not> oom h sz" "0 < tot"
  shows "createChain fuel tot 0 h = None"
proof -
  have mem: "\<And>sz. \<not> oom h sz" using assms(2) by blast
  show ?thesis by (rule createChain_diverges [OF assms(1) mem assms(3)])
qed

theorem iobuf_createChain_zero_diverges_witness: "createChain 1000 1 0 empty_heap = None"
  using iobuf_createChain_zero_diverges [OF empty_heap_ok, of 1 1000] by (simp add: empty_heap_def)

text \<open>
  C25: \<open>moveToString()\<close> returns the bytes of the chain, but the block they were copied from is
  leaked: it is still allocated, it is not the user's, and no IOBuf refers to it any more.
\<close>

theorem iobuf_moveToString_leaks:
  assumes "heap_ok U H h" "ring h (p # ps)" "set ps \<subseteq> H" "length (chain_bytes h (p # ps)) + 32 < 2 ^ 64"
    "\<forall>sz. \<not> oom h sz"
  shows "\<exists>h' b. moveToString p h = Inr (chain_bytes h (p # ps), h') \<and> b \<notin> U \<and> blks h' b \<noteq> None \<and>
    (\<forall>q m. iobs h' q = Some m \<longrightarrow> buf' m \<noteq> Some b) \<and> buf' (node h' p) = None"
proof -
  have mem: "\<And>sz. \<not> oom h sz" using assms(5) by blast
  show ?thesis by (rule moveToString_ok [OF assms(1-4) mem]) blast
qed

theorem iobuf_moveToString_leaks_witness:
  "\<exists>h' b. moveToString 2 chain_of_two = Inr ([1, 2, 3, 4, 5], h') \<and> blks h' b \<noteq> None \<and>
    (\<forall>q m. iobs h' q = Some m \<longrightarrow> buf' m \<noteq> Some b)"
proof -
  have "\<exists>h' b. moveToString 2 chain_of_two = Inr (chain_bytes chain_of_two (2 # [5]), h') \<and> b \<notin> {} \<and> blks h' b \<noteq> None \<and>
    (\<forall>q m. iobs h' q = Some m \<longrightarrow> buf' m \<noteq> Some b) \<and> buf' (node h' 2) = None"
    by (rule iobuf_moveToString_leaks [OF chain_of_two_ok(1)]) (simp_all add: chain_of_two_ok(2,3) chain_of_two_eval)
  then show ?thesis unfolding chain_of_two_eval(1) by blast
qed

text \<open>
  C26: \<open>goodExtBufferSize\<close> returns a multiple of eight with room for the requested bytes and the
  24-byte record, and wastes at most seven, as long as the sum does not wrap around 64 bits.
\<close>

theorem iobuf_goodExtBufferSize_bounds:
  assumes "c + 31 < 2 ^ 64"
  shows "c + 24 \<le> unat (goodExtBufferSize (of_nat c)) \<and> unat (goodExtBufferSize (of_nat c)) \<le> c + 31 \<and>
    8 dvd unat (goodExtBufferSize (of_nat c))"
  unfolding unat_goodExtBufferSize [OF assms] by auto

theorem iobuf_goodExtBufferSize_bounds_witness:
  "unat (goodExtBufferSize (of_nat 100)) \<ge> 124 \<and> goodExtBufferSize (2 ^ 64 - 1) = 24"
  using iobuf_goodExtBufferSize_bounds [of 100] by (simp add: goodExtBufferSize_def sizeof_SharedInfo_def)

end
