(* ===== verification/Acc_Spooky.thy ===== *)
theory Acc_Spooky
  imports Acc_Prelude
begin

text \<open>
  SpookyHash V2 (\<open>src/accelerator/SpookyHashV2.h\<close> and \<open>SpookyHashV2.cpp\<close>): the one-shot hash
  \<open>Hash128\<close>, the incremental interface \<open>Init\<close>, \<open>Update\<close>, \<open>Final\<close>, and the proof that both
  compute the same hash however the message is cut into fragments. Messages are byte lists;
  64-bit reads are little-endian and may be unaligned (\<open>ALLOW_UNALIGNED_READS\<close>). Lengths are
  natural numbers: a message has fewer than 2^64 bytes.
\<close>

section \<open>Reading words\<close>

text \<open>The little-endian value of at most eight bytes, and the \<open>i\<close>-th 64- and 32-bit word.\<close>

definition load_le :: "bytes \<Rightarrow> u64" where
  "load_le xs = horner_sum ucast (push_bit 8 1) xs"

definition word64 :: "bytes \<Rightarrow> nat \<Rightarrow> u64" where
  "word64 xs i = load_le (take 8 (drop (8 * i) xs))"

definition word32 :: "bytes \<Rightarrow> nat \<Rightarrow> u64" where
  "word32 xs i = load_le (take 4 (drop (4 * i) xs))"

definition byte_at :: "bytes \<Rightarrow> nat \<Rightarrow> u64" where
  "byte_at xs i = ucast (xs ! i)"

section \<open>Mixing\<close>

type_synonym vars = "u64 \<times> u64 \<times> u64 \<times> u64 \<times> u64 \<times> u64 \<times> u64 \<times> u64 \<times> u64 \<times> u64 \<times> u64 \<times> u64"

definition Rot64 :: "u64 \<Rightarrow> nat \<Rightarrow> u64" where
  "Rot64 x k = push_bit k x OR drop_bit (64 - k) x"

definition Mix :: "bytes \<Rightarrow> vars \<Rightarrow> vars" where
  "Mix data = (\<lambda>(s0, s1, s2, s3, s4, s5, s6, s7, s8, s9, s10, s11).
     (let
      s0 = s0 + word64 data 0; s2 = s2 XOR s10; s11 = s11 XOR s0; s0 = Rot64 s0 11; s11 = s11 + s1;
      s1 = s1 + word64 data 1; s3 = s3 XOR s11; s0 = s0 XOR s1; s1 = Rot64 s1 32; s0 = s0 + s2;
      s2 = s2 + word64 data 2; s4 = s4 XOR s0; s1 = s1 XOR s2; s2 = Rot64 s2 43; s1 = s1 + s3;
      s3 = s3 + word64 data 3; s5 = s5 XOR s1; s2 = s2 XOR s3; s3 = Rot64 s3 31; s2 = s2 + s4;
      s4 = s4 + word64 data 4; s6 = s6 XOR s2; s3 = s3 XOR s4; s4 = Rot64 s4 17; s3 = s3 + s5;
      s5 = s5 + word64 data 5; s7 = s7 XOR s3; s4 = s4 XOR s5; s5 = Rot64 s5 28; s4 = s4 + s6;
      s6 = s6 + word64 data 6; s8 = s8 XOR s4; s5 = s5 XOR s6; s6 = Rot64 s6 39; s5 = s5 + s7;
      s7 = s7 + word64 data 7; s9 = s9 XOR s5; s6 = s6 XOR s7; s7 = Rot64 s7 57; s6 = s6 + s8;
      s8 = s8 + word64 data 8; s10 = s10 XOR s6; s7 = s7 XOR s8; s8 = Rot64 s8 55; s7 = s7 + s9;
      s9 = s9 + word64 data 9; s11 = s11 XOR s7; s8 = s8 XOR s9; s9 = Rot64 s9 54; s8 = s8 + s10;
      s10 = s10 + word64 data 10; s0 = s0 XOR s8; s9 = s9 XOR s10; s10 = Rot64 s10 22; s9 = s9 + s11;
      s11 = s11 + word64 data 11; s1 = s1 XOR s9; s10 = s10 XOR s11; s11 = Rot64 s11 46; s10 = s10 + s0
      in (s0, s1, s2, s3, s4, s5, s6, s7, s8, s9, s10, s11)))"

definition EndPartial :: "vars \<Rightarrow> vars" where
  "EndPartial = (\<lambda>(h0, h1, h2, h3, h4, h5, h6, h7, h8, h9, h10, h11).
     (let
      h11 = h11 + h1; h2 = h2 XOR h11; h1 = Rot64 h1 44;
      h0 = h0 + h2; h3 = h3 XOR h0; h2 = Rot64 h2 15;
      h1 = h1 + h3; h4 = h4 XOR h1; h3 = Rot64 h3 34;
      h2 = h2 + h4; h5 = h5 XOR h2; h4 = Rot64 h4 21;
      h3 = h3 + h5; h6 = h6 XOR h3; h5 = Rot64 h5 38;
      h4 = h4 + h6; h7 = h7 XOR h4; h6 = Rot64 h6 33;
      h5 = h5 + h7; h8 = h8 XOR h5; h7 = Rot64 h7 10;
      h6 = h6 + h8; h9 = h9 XOR h6; h8 = Rot64 h8 13;
      h7 = h7 + h9; h10 = h10 XOR h7; h9 = Rot64 h9 38;
      h8 = h8 + h10; h11 = h11 XOR h8; h10 = Rot64 h10 53;
      h9 = h9 + h11; h0 = h0 XOR h9; h11 = Rot64 h11 42;
      h10 = h10 + h0; h1 = h1 XOR h10; h0 = Rot64 h0 54
      in (h0, h1, h2, h3, h4, h5, h6, h7, h8, h9, h10, h11)))"

definition End :: "bytes \<Rightarrow> vars \<Rightarrow> vars" where
  "End data = (\<lambda>(h0, h1, h2, h3, h4, h5, h6, h7, h8, h9, h10, h11).
     (let
      h0 = h0 + word64 data 0; h1 = h1 + word64 data 1; h2 = h2 + word64 data 2; h3 = h3 + word64 data 3;
      h4 = h4 + word64 data 4; h5 = h5 + word64 data 5; h6 = h6 + word64 data 6; h7 = h7 + word64 data 7;
      h8 = h8 + word64 data 8; h9 = h9 + word64 data 9; h10 = h10 + word64 data 10; h11 = h11 + word64 data 11
      in EndPartial (EndPartial (EndPartial (h0, h1, h2, h3, h4, h5, h6, h7, h8, h9, h10, h11)))))"

type_synonym short_vars = "u64 \<times> u64 \<times> u64 \<times> u64"

definition ShortMix :: "short_vars \<Rightarrow> short_vars" where
  "ShortMix = (\<lambda>(h0, h1, h2, h3).
     (let
      h2 = Rot64 h2 50; h2 = h2 + h3; h0 = h0 XOR h2;
      h3 = Rot64 h3 52; h3 = h3 + h0; h1 = h1 XOR h3;
      h0 = Rot64 h0 30; h0 = h0 + h1; h2 = h2 XOR h0;
      h1 = Rot64 h1 41; h1 = h1 + h2; h3 = h3 XOR h1;
      h2 = Rot64 h2 54; h2 = h2 + h3; h0 = h0 XOR h2;
      h3 = Rot64 h3 48; h3 = h3 + h0; h1 = h1 XOR h3;
      h0 = Rot64 h0 38; h0 = h0 + h1; h2 = h2 XOR h0;
      h1 = Rot64 h1 37; h1 = h1 + h2; h3 = h3 XOR h1;
      h2 = Rot64 h2 62; h2 = h2 + h3; h0 = h0 XOR h2;
      h3 = Rot64 h3 34; h3 = h3 + h0; h1 = h1 XOR h3;
      h0 = Rot64 h0 5; h0 = h0 + h1; h2 = h2 XOR h0;
      h1 = Rot64 h1 36; h1 = h1 + h2; h3 = h3 XOR h1
      in (h0, h1, h2, h3)))"

definition ShortEnd :: "short_vars \<Rightarrow> short_vars" where
  "ShortEnd = (\<lambda>(h0, h1, h2, h3).
     (let
      h3 = h3 XOR h2; h2 = Rot64 h2 15; h3 = h3 + h2;
      h0 = h0 XOR h3; h3 = Rot64 h3 52; h0 = h0 + h3;
      h1 = h1 XOR h0; h0 = Rot64 h0 26; h1 = h1 + h0;
      h2 = h2 XOR h1; h1 = Rot64 h1 51; h2 = h2 + h1;
      h3 = h3 XOR h2; h2 = Rot64 h2 28; h3 = h3 + h2;
      h0 = h0 XOR h3; h3 = Rot64 h3 9; h0 = h0 + h3;
      h1 = h1 XOR h0; h0 = Rot64 h0 47; h1 = h1 + h0;
      h2 = h2 XOR h1; h1 = Rot64 h1 54; h2 = h2 + h1;
      h3 = h3 XOR h2; h2 = Rot64 h2 32; h3 = h3 + h2;
      h0 = h0 XOR h3; h3 = Rot64 h3 25; h0 = h0 + h3;
      h1 = h1 XOR h0; h0 = Rot64 h0 63; h1 = h1 + h0
      in (h0, h1, h2, h3)))"


section \<open>Short messages\<close>

definition sc_numVars :: nat where
  "sc_numVars = 12"

definition sc_blockSize :: nat where
  "sc_blockSize = sc_numVars * 8"

definition sc_bufSize :: nat where
  "sc_bufSize = 2 * sc_blockSize"

definition sc_const :: u64 where
  "sc_const = 0xdeadbeefdeadbeef"

text \<open>The loop over complete sets of 32 bytes; the rest of the message is returned.\<close>

fun short_loop :: "nat \<Rightarrow> bytes \<Rightarrow> short_vars \<Rightarrow> bytes \<times> short_vars" where
  "short_loop 0 xs st = (xs, st)"
| "short_loop (Suc n) xs (a, b, c, d) =
     (let c = c + word64 xs 0;
          d = d + word64 xs 1;
          (a, b, c, d) = ShortMix (a, b, c, d);
          a = a + word64 xs 2;
          b = b + word64 xs 3
      in short_loop n (drop 32 xs) (a, b, c, d))"

text \<open>The \<open>switch\<close> on the last 0 to 15 bytes: \<open>c\<close> and \<open>d\<close> after the case that is entered.\<close>

definition short_tail :: "nat \<Rightarrow> bytes \<Rightarrow> u64 \<Rightarrow> u64 \<Rightarrow> u64 \<times> u64" where
  "short_tail remainder xs c d =
     (if remainder \<ge> 12 then
        let d = (if remainder \<ge> 15 then d + push_bit 48 (byte_at xs 14) else d);
            d = (if remainder \<ge> 14 then d + push_bit 40 (byte_at xs 13) else d);
            d = (if remainder \<ge> 13 then d + push_bit 32 (byte_at xs 12) else d)
        in (c + word64 xs 0, d + word32 xs 2)
      else if remainder \<ge> 8 then
        let d = (if remainder \<ge> 11 then d + push_bit 16 (byte_at xs 10) else d);
            d = (if remainder \<ge> 10 then d + push_bit 8 (byte_at xs 9) else d);
            d = (if remainder \<ge> 9 then d + byte_at xs 8 else d)
        in (c + word64 xs 0, d)
      else if remainder \<ge> 4 then
        let c = (if remainder \<ge> 7 then c + push_bit 48 (byte_at xs 6) else c);
            c = (if remainder \<ge> 6 then c + push_bit 40 (byte_at xs 5) else c);
            c = (if remainder \<ge> 5 then c + push_bit 32 (byte_at xs 4) else c)
        in (c + word32 xs 0, d)
      else if remainder \<ge> 1 then
        let c = (if remainder \<ge> 3 then c + push_bit 16 (byte_at xs 2) else c);
            c = (if remainder \<ge> 2 then c + push_bit 8 (byte_at xs 1) else c)
        in (c + byte_at xs 0, d)
      else (c + sc_const, d + sc_const))"

definition Short :: "bytes \<Rightarrow> nat \<Rightarrow> u64 \<Rightarrow> u64 \<Rightarrow> u64 \<times> u64" where
  "Short message len hash1 hash2 =
     (let remainder = len mod 32;
          st = (hash1, hash2, sc_const, sc_const);
          (xs, (a, b, c, d), remainder) =
            (if len > 15 then
               let (xs, (a, b, c, d)) = short_loop (len div 32) message st in
               if remainder \<ge> 16
               then (drop 16 xs, ShortMix (a, b, c + word64 xs 0, d + word64 xs 1), remainder - 16)
               else (xs, (a, b, c, d), remainder)
             else (message, st, remainder));
          d = d + push_bit 56 (of_nat len);
          (c, d) = short_tail remainder xs c d;
          (a, b, c, d) = ShortEnd (a, b, c, d)
      in (a, b))"

section \<open>The whole hash in one call\<close>

definition init_vars :: "u64 \<Rightarrow> u64 \<Rightarrow> vars" where
  "init_vars hash1 hash2 = (hash1, hash2, sc_const, hash1, hash2, sc_const,
     hash1, hash2, sc_const, hash1, hash2, sc_const)"

text \<open>The loop over whole blocks: \<open>n\<close> blocks are mixed, the rest of the message is returned.\<close>

fun mix_loop :: "nat \<Rightarrow> bytes \<Rightarrow> vars \<Rightarrow> bytes \<times> vars" where
  "mix_loop 0 xs st = (xs, st)"
| "mix_loop (Suc n) xs st = mix_loop n (drop sc_blockSize xs) (Mix (take sc_blockSize xs) st)"

text \<open>The last partial block: zero padding, and its length in the last byte.\<close>

definition pad_block :: "bytes \<Rightarrow> bytes" where
  "pad_block xs = (xs @ replicate (sc_blockSize - length xs) 0)[sc_blockSize - 1 := of_nat (length xs)]"

definition first_two :: "vars \<Rightarrow> u64 \<times> u64" where
  "first_two = (\<lambda>(h0, h1, _). (h0, h1))"

definition Hash128 :: "bytes \<Rightarrow> u64 \<Rightarrow> u64 \<Rightarrow> u64 \<times> u64" where
  "Hash128 message hash1 hash2 =
     (if length message < sc_bufSize then Short message (length message) hash1 hash2
      else
        let (rest, st) = mix_loop (length message div sc_blockSize) message (init_vars hash1 hash2)
        in first_two (End (pad_block rest) st))"

definition Hash64 :: "bytes \<Rightarrow> u64 \<Rightarrow> u64" where
  "Hash64 message seed = fst (Hash128 message seed seed)"

definition Hash32 :: "bytes \<Rightarrow> u32 \<Rightarrow> u32" where
  "Hash32 message seed = ucast (fst (Hash128 message (ucast seed) (ucast seed)))"

section \<open>The incremental hash\<close>

text \<open>\<open>m_data\<close> holds \<open>sc_bufSize\<close> bytes; those from \<open>m_remainder\<close> on are scratch space.\<close>

record spooky =
  m_data :: bytes
  m_state :: vars
  m_length :: nat
  m_remainder :: nat

definition Init :: "u64 \<Rightarrow> u64 \<Rightarrow> spooky \<Rightarrow> spooky" where
  "Init seed1 seed2 c = c\<lparr>m_length := 0, m_remainder := 0,
     m_state := (case m_state c of (_, _, rest) \<Rightarrow> (seed1, seed2, rest))\<rparr>"

text \<open>\<open>memcpy\<close> into \<open>m_data\<close> at an offset.\<close>

definition store_bytes :: "nat \<Rightarrow> bytes \<Rightarrow> bytes \<Rightarrow> bytes" where
  "store_bytes off ys xs = take off xs @ ys @ drop (off + length ys) xs"

definition Update :: "bytes \<Rightarrow> spooky \<Rightarrow> spooky" where
  "Update message c =
     (let newLength = length message + m_remainder c in
      if newLength < sc_bufSize then
        c\<lparr>m_data := store_bytes (m_remainder c) message (m_data c),
          m_length := length message + m_length c, m_remainder := newLength\<rparr>
      else
        let st = (if m_length c < sc_bufSize
                  then case m_state c of (s0, s1, _) \<Rightarrow> init_vars s0 s1 else m_state c);
            c = c\<lparr>m_length := length message + m_length c\<rparr>;
            (xs, data, st) =
              (if m_remainder c \<noteq> 0 then
                 let prefix = sc_bufSize - m_remainder c;
                     data = store_bytes (m_remainder c) (take prefix message) (m_data c);
                     st = Mix (take sc_blockSize data) st;
                     st = Mix (take sc_blockSize (drop sc_blockSize data)) st
                 in (drop prefix message, data, st)
               else (message, m_data c, st));
            (rest, st) = mix_loop (length xs div sc_blockSize) xs st
        in c\<lparr>m_remainder := length rest, m_data := store_bytes 0 rest data, m_state := st\<rparr>)"

text \<open>
  \<open>Final\<close> pads the last partial block inside \<open>m_data\<close>; it returns the hash and the context it
  leaves behind.
\<close>

definition Final :: "spooky \<Rightarrow> (u64 \<times> u64) \<times> spooky" where
  "Final c =
     (if m_length c < sc_bufSize then
        (case m_state c of (s0, s1, _) \<Rightarrow> (Short (m_data c) (m_length c) s0 s1, c))
      else
        let (off, st) = (if m_remainder c \<ge> sc_blockSize
              then (sc_blockSize, Mix (take sc_blockSize (m_data c)) (m_state c))
              else (0, m_state c));
            block = pad_block (take (m_remainder c - off) (drop off (m_data c)))
        in (first_two (End block st), c\<lparr>m_data := store_bytes off block (m_data c)\<rparr>))"

section \<open>Short messages read only their own bytes\<close>

lemma word64_take: "8 * i + 8 \<le> n \<Longrightarrow> word64 (take n xs) i = word64 xs i"
  by (simp add: word64_def drop_take min_absorb1)

lemma word32_take: "4 * i + 4 \<le> n \<Longrightarrow> word32 (take n xs) i = word32 xs i"
  by (simp add: word32_def drop_take min_absorb1)

lemma byte_at_take: "i < n \<Longrightarrow> byte_at (take n xs) i = byte_at xs i"
  by (simp add: byte_at_def)

lemma short_loop_take:
  "32 * n \<le> m \<Longrightarrow>
   short_loop n (take m xs) st = (take (m - 32 * n) (fst (short_loop n xs st)), snd (short_loop n xs st))"
proof (induction n xs st arbitrary: m rule: short_loop.induct)
  case (2 n xs a b c d)
  have "drop 32 (take m xs) = take (m - 32) (drop 32 xs)" by (simp add: drop_take)
  moreover have "m - 32 - 32 * n = m - 32 * Suc n" "32 * n \<le> m - 32" using "2.prems" by simp_all
  ultimately show ?case using 2 by (simp add: word64_take Let_def split: prod.split)
qed simp

lemma short_tail_take: "short_tail r (take r xs) c d = short_tail r xs c d"
  by (simp add: short_tail_def word64_take word32_take byte_at_take Let_def)

lemma Short_take: "Short (take len xs) len h1 h2 = Short xs len h1 h2"
proof (cases "len > 15")
  case True
  obtain ys a b c d where l: "short_loop (len div 32) xs (h1, h2, sc_const, sc_const) = (ys, a, b, c, d)"
    by (cases "short_loop (len div 32) xs (h1, h2, sc_const, sc_const)") auto
  have "short_loop (len div 32) (take len xs) (h1, h2, sc_const, sc_const) = (take (len mod 32) ys, a, b, c, d)"
    using short_loop_take [of "len div 32" len xs] l by (simp add: minus_mult_div_eq_mod)
  then show ?thesis using True l
    by (simp add: Short_def Let_def word64_take short_tail_take drop_take split: prod.split)
next
  case False
  then have "len mod 32 = len" by simp
  then show ?thesis using False by (simp add: Short_def Let_def short_tail_take)
qed

section \<open>Blocks\<close>

lemma mix_loop_fst: "fst (mix_loop n xs st) = drop (sc_blockSize * n) xs"
  by (induction n xs st rule: mix_loop.induct) (simp_all add: add.commute)

lemma mix_loop_append:
  "length xs = sc_blockSize * n \<Longrightarrow> mix_loop (n + m) (xs @ ys) st = mix_loop m ys (snd (mix_loop n xs st))"
  by (induction n arbitrary: xs st) simp_all

definition mixed :: "bytes \<Rightarrow> vars \<Rightarrow> vars" where
  "mixed xs st = snd (mix_loop (length xs div sc_blockSize) xs st)"

lemma block_pos [simp]: "0 < sc_blockSize" "sc_blockSize \<noteq> 0"
  by (simp_all add: sc_blockSize_def sc_numVars_def)

lemma mixed_Nil [simp]: "mixed [] st = st"
  by (simp add: mixed_def)

lemma mixed_append:
  assumes "sc_blockSize dvd length xs" "sc_blockSize dvd length ys"
  shows "mixed (xs @ ys) st = mixed ys (mixed xs st)"
proof -
  obtain n m where "length xs = sc_blockSize * n" "length ys = sc_blockSize * m" using assms by (elim dvdE)
  then show ?thesis using mix_loop_append [of xs n m ys st] by (simp add: mixed_def flip: distrib_left)
qed

lemma mixed_block: "length xs = sc_blockSize \<Longrightarrow> mixed xs st = Mix xs st"
  by (simp add: mixed_def)

lemma mix_loop_mixed:
  "mix_loop (length xs div sc_blockSize) xs st =
   (drop (sc_blockSize * (length xs div sc_blockSize)) xs,
    mixed (take (sc_blockSize * (length xs div sc_blockSize)) xs) st)"
proof -
  let ?n = "length xs div sc_blockSize" and ?k = "sc_blockSize * (length xs div sc_blockSize)"
  have "length (take ?k xs) = ?k" by (simp add: min_absorb2)
  then have "mix_loop (?n + 0) (take ?k xs @ drop ?k xs) st = (drop ?k xs, mixed (take ?k xs) st)"
    by (subst mix_loop_append) (simp_all add: mixed_def)
  then show ?thesis by simp
qed

lemma mix_loop_split:
  assumes "sc_blockSize dvd length front" "length rest < sc_blockSize"
  shows "mix_loop (length (front @ rest) div sc_blockSize) (front @ rest) st = (rest, mixed front st)"
proof -
  obtain n where n: "length front = sc_blockSize * n" using assms(1) by (elim dvdE)
  have "length (front @ rest) div sc_blockSize = n" using n assms(2) by simp
  then show ?thesis using mix_loop_append [OF n, of 0 rest st] n by (simp add: mixed_def)
qed

section \<open>The incremental hash equals the one-shot hash\<close>

text \<open>\<open>absorbed c msg s1 s2\<close>: the context has absorbed the message \<open>msg\<close> with the given seeds.\<close>

definition absorbed :: "spooky \<Rightarrow> bytes \<Rightarrow> u64 \<Rightarrow> u64 \<Rightarrow> bool" where
  "absorbed c msg s1 s2 \<longleftrightarrow> length (m_data c) = sc_bufSize \<and> m_length c = length msg \<and> m_remainder c < sc_bufSize \<and>
     (if length msg < sc_bufSize
      then m_remainder c = length msg \<and> take (length msg) (m_data c) = msg \<and> (\<exists>r. m_state c = (s1, s2, r))
      else \<exists>front. msg = front @ take (m_remainder c) (m_data c) \<and> sc_blockSize dvd length front \<and>
             m_state c = mixed front (init_vars s1 s2))"

lemma buf_two_blocks: "sc_bufSize = sc_blockSize + sc_blockSize"
  by (simp add: sc_bufSize_def)

lemma absorbed_Init: "length (m_data c) = sc_bufSize \<Longrightarrow> absorbed (Init s1 s2 c) [] s1 s2"
  by (auto simp: absorbed_def Init_def buf_two_blocks split: prod.split)

lemma length_store_bytes [simp]: "off + length ys \<le> length xs \<Longrightarrow> length (store_bytes off ys xs) = length xs"
  by (simp add: store_bytes_def)

lemma take_store_bytes: "off + length ys \<le> length xs \<Longrightarrow> take (off + length ys) (store_bytes off ys xs) = take off xs @ ys"
  by (simp add: store_bytes_def)

text \<open>The variables on entry of the long branch, and what they have absorbed.\<close>

lemma absorbed_vars:
  assumes "absorbed c msg s1 s2"
  obtains front where "msg = front @ take (m_remainder c) (m_data c)" "sc_blockSize dvd length front"
    "(if m_length c < sc_bufSize then case m_state c of (s0, s1, _) \<Rightarrow> init_vars s0 s1 else m_state c)
       = mixed front (init_vars s1 s2)"
proof (cases "length msg < sc_bufSize")
  case True
  then show ?thesis using assms that [of "[]"] by (auto simp: absorbed_def)
next
  case False
  then show ?thesis using assms that by (auto simp: absorbed_def)
qed

lemma absorbed_Update_short:
  assumes a: "absorbed c msg s1 s2" and short: "length xs + m_remainder c < sc_bufSize"
  shows "absorbed (Update xs c) (msg @ xs) s1 s2"
proof -
  have data: "take (m_remainder c + length xs) (store_bytes (m_remainder c) xs (m_data c)) = take (m_remainder c) (m_data c) @ xs"
    using a short by (intro take_store_bytes) (auto simp: absorbed_def)
  have len: "length (store_bytes (m_remainder c) xs (m_data c)) = sc_bufSize"
    using a short by (simp add: absorbed_def)
  show ?thesis
  proof (cases "length msg < sc_bufSize")
    case True
    then show ?thesis using a short data len
      by (auto simp: absorbed_def Update_def Let_def add.commute)
  next
    case False
    then obtain front where "msg = front @ take (m_remainder c) (m_data c)" "sc_blockSize dvd length front"
      "m_state c = mixed front (init_vars s1 s2)" using a by (auto simp: absorbed_def)
    then show ?thesis using a short data len False
      by (auto simp: absorbed_def Update_def Let_def add.commute intro!: exI [of _ front])
  qed
qed

lemma absorbed_Update_long:
  assumes a: "absorbed c msg s1 s2" and long: "\<not> length xs + m_remainder c < sc_bufSize"
  shows "absorbed (Update xs c) (msg @ xs) s1 s2"
proof -
  obtain front where front: "msg = front @ take (m_remainder c) (m_data c)" "sc_blockSize dvd length front"
    "(if m_length c < sc_bufSize then case m_state c of (s0, s1, _) \<Rightarrow> init_vars s0 s1 else m_state c)
       = mixed front (init_vars s1 s2)"
    using absorbed_vars [OF a] .
  let ?r = "m_remainder c" and ?p = "sc_bufSize - m_remainder c"
  have r: "?r < sc_bufSize" "length (m_data c) = sc_bufSize" using a by (auto simp: absorbed_def)
  define fill where "fill = (if ?r \<noteq> 0 then take ?r (m_data c) @ take ?p xs else [])"
  define data where "data = (if ?r \<noteq> 0 then store_bytes ?r (take ?p xs) (m_data c) else m_data c)"
  define ys where "ys = (if ?r \<noteq> 0 then drop ?p xs else xs)"
  have dl: "length data = sc_bufSize" using r long by (auto simp: data_def)
  have fl: "sc_blockSize dvd length fill" using r long by (auto simp: fill_def buf_two_blocks)
  have df: "data = fill" if "?r \<noteq> 0"
    using that r long by (simp add: data_def fill_def store_bytes_def)
  have step: "(if ?r \<noteq> 0 then Mix (take sc_blockSize (drop sc_blockSize data)) (Mix (take sc_blockSize data) st) else st)
      = mixed fill st" for st
  proof (cases "?r = 0")
    case False
    have "fill = take sc_blockSize data @ take sc_blockSize (drop sc_blockSize data)"
      using df [OF False] dl by (simp add: buf_two_blocks)
    moreover have "length (take sc_blockSize data) = sc_blockSize"
      "length (take sc_blockSize (drop sc_blockSize data)) = sc_blockSize"
      using dl by (simp_all add: buf_two_blocks)
    ultimately show ?thesis using False by (simp add: mixed_append mixed_block)
  qed (simp add: fill_def)
  let ?k = "sc_blockSize * (length ys div sc_blockSize)"
  have kl: "?k \<le> length ys" by simp
  have rest: "length (drop ?k ys) < sc_blockSize" by (simp add: minus_mult_div_eq_mod)
  have upd: "Update xs c = c\<lparr>m_length := length xs + m_length c, m_remainder := length (drop ?k ys),
    m_data := store_bytes 0 (drop ?k ys) data,
    m_state := mixed (take ?k ys) (mixed fill (mixed front (init_vars s1 s2)))\<rparr>"
  proof -
    have "Update xs c = (let st = mixed front (init_vars s1 s2);
         (ys, data, st) = (ys, data, mixed fill st);
         (rest, st) = mix_loop (length ys div sc_blockSize) ys st
       in c\<lparr>m_length := length xs + m_length c, m_remainder := length rest, m_data := store_bytes 0 rest data, m_state := st\<rparr>)"
    proof (cases "?r = 0")
      case True
      then have "fill = []" by (simp add: fill_def)
      then show ?thesis unfolding Update_def Let_def using long front(3) True by (simp add: ys_def data_def)
    next
      case False
      then show ?thesis unfolding Update_def Let_def
        using long front(3) step [of "mixed front (init_vars s1 s2)"] by (simp add: ys_def data_def)
    qed
    then show ?thesis by (simp add: mix_loop_mixed)
  qed
  have whole: "msg @ xs = (front @ fill @ take ?k ys) @ drop ?k ys"
    using front(1) r long by (auto simp: fill_def ys_def)
  have dvd: "sc_blockSize dvd length (front @ fill @ take ?k ys)"
    using front(2) fl kl by (simp add: min_absorb2 dvd_add)
  have "mixed (front @ fill @ take ?k ys) (init_vars s1 s2) = mixed (take ?k ys) (mixed fill (mixed front (init_vars s1 s2)))"
    using front(2) fl kl by (simp add: mixed_append min_absorb2 dvd_add)
  moreover have "take (length (drop ?k ys)) (store_bytes 0 (drop ?k ys) data) = drop ?k ys"
    using take_store_bytes [of 0 "drop ?k ys" data] rest dl by (simp add: buf_two_blocks)
  moreover have "\<not> length (msg @ xs) < sc_bufSize" using long a
    by (cases "length msg < sc_bufSize") (auto simp: absorbed_def)
  moreover have "length (store_bytes 0 (drop ?k ys) data) = sc_bufSize"
    using rest dl by (simp add: buf_two_blocks)
  moreover have "length xs + length msg = length front + (length fill + length ys)"
    using arg_cong [OF whole, of length] by simp
  ultimately show ?thesis using whole dvd rest a
    unfolding upd absorbed_def by (auto simp: buf_two_blocks intro!: exI [of _ "front @ fill @ take ?k ys"])
qed


lemma absorbed_Update: "absorbed c msg s1 s2 \<Longrightarrow> absorbed (Update xs c) (msg @ xs) s1 s2"
  by (cases "length xs + m_remainder c < sc_bufSize") (rule absorbed_Update_short absorbed_Update_long, assumption+)+

lemma Final_hash:
  assumes a: "absorbed c msg s1 s2"
  shows "fst (Final c) = Hash128 msg s1 s2"
proof (cases "length msg < sc_bufSize")
  case True
  then obtain q where q: "m_state c = (s1, s2, q)" "m_length c = length msg" "take (length msg) (m_data c) = msg"
    using a by (auto simp: absorbed_def)
  then show ?thesis using True Short_take [of "length msg" "m_data c"] by (simp add: Final_def Hash128_def)
next
  case False
  let ?r = "m_remainder c"
  obtain front where front: "msg = front @ take ?r (m_data c)" "sc_blockSize dvd length front"
    "m_state c = mixed front (init_vars s1 s2)" using a False by (auto simp: absorbed_def)
  have len: "length (m_data c) = sc_bufSize" "?r < sc_bufSize" "m_length c = length msg" using a by (auto simp: absorbed_def)
  define off where "off = (if ?r \<ge> sc_blockSize then sc_blockSize else 0)"
  define front' where "front' = front @ take off (m_data c)"
  define rest where "rest = take (?r - off) (drop off (m_data c))"
  have m: "msg = front' @ rest" using front(1) by (simp add: front'_def rest_def off_def flip: take_add)
  have d: "sc_blockSize dvd length front'" using front(2) len by (simp add: front'_def off_def buf_two_blocks)
  have rl: "length rest < sc_blockSize" using len by (auto simp: rest_def off_def buf_two_blocks)
  have st: "(if ?r \<ge> sc_blockSize then Mix (take sc_blockSize (m_data c)) (m_state c) else m_state c)
     = mixed front' (init_vars s1 s2)"
  proof (cases "?r \<ge> sc_blockSize")
    case True
    have l: "length (take sc_blockSize (m_data c)) = sc_blockSize" using len by (simp add: buf_two_blocks)
    then have "mixed front' (init_vars s1 s2) = Mix (take sc_blockSize (m_data c)) (m_state c)"
      using True front(2,3) by (simp add: front'_def off_def mixed_append mixed_block)
    then show ?thesis using True by simp
  qed (simp add: front'_def off_def front(3))
  have "fst (Final c) = first_two (End (pad_block rest) (mixed front' (init_vars s1 s2)))"
    using False len st by (auto simp: Final_def rest_def off_def Let_def)
  moreover have "Hash128 msg s1 s2 = first_two (End (pad_block rest) (mixed front' (init_vars s1 s2)))"
    using False m mix_loop_split [OF d rl, of "init_vars s1 s2"] by (simp add: Hash128_def)
  ultimately show ?thesis by simp
qed

lemma length_pad_block: "length xs < sc_blockSize \<Longrightarrow> length (pad_block xs) = sc_blockSize"
  by (simp add: pad_block_def)

lemma take_pad_block: "length xs < sc_blockSize \<Longrightarrow> take (length xs) (pad_block xs) = xs"
  by (simp add: pad_block_def take_update_cancel)

text \<open>\<open>Final\<close> overwrites only scratch bytes, so the context still holds the message.\<close>

lemma absorbed_Final:
  assumes a: "absorbed c msg s1 s2"
  shows "absorbed (snd (Final c)) msg s1 s2"
proof (cases "length msg < sc_bufSize")
  case True
  then show ?thesis using a by (auto simp: Final_def absorbed_def split: prod.split)
next
  case False
  let ?r = "m_remainder c"
  have len: "length (m_data c) = sc_bufSize" "?r < sc_bufSize" "m_length c = length msg" using a by (auto simp: absorbed_def)
  define off where "off = (if ?r \<ge> sc_blockSize then sc_blockSize else 0)"
  define rest where "rest = take (?r - off) (drop off (m_data c))"
  let ?d = "store_bytes off (pad_block rest) (m_data c)"
  have rl: "length rest = ?r - off" "?r - off < sc_blockSize" "off \<le> ?r" "off + sc_blockSize \<le> sc_bufSize"
    using len by (auto simp: rest_def off_def buf_two_blocks)
  have fin: "snd (Final c) = c\<lparr>m_data := ?d\<rparr>"
    using False len by (auto simp: Final_def rest_def off_def Let_def)
  have "take ?r ?d = take off (m_data c) @ take (?r - off) (pad_block rest)"
    using rl len length_pad_block [of rest] by (simp add: store_bytes_def take_append)
  also have "\<dots> = take off (m_data c) @ rest" using take_pad_block [of rest] rl by simp
  also have "\<dots> = take ?r (m_data c)" using rl(3) by (simp add: rest_def flip: take_add)
  finally have "take ?r ?d = take ?r (m_data c)" .
  moreover have "length ?d = sc_bufSize" using rl len length_pad_block [of rest] by simp
  ultimately show ?thesis using a False unfolding fin absorbed_def by auto
qed

lemma absorbed_fold: "absorbed c msg s1 s2 \<Longrightarrow> absorbed (fold Update frags c) (msg @ concat frags) s1 s2"
proof (induction frags arbitrary: c msg)
  case (Cons xs frags)
  have "absorbed (fold Update frags (Update xs c)) ((msg @ xs) @ concat frags) s1 s2"
    using Cons.IH [OF absorbed_Update [OF Cons.prems]] .
  then show ?case by simp
qed simp

section \<open>Properties\<close>

text \<open>
  C2: The incremental hash of a message is its one-shot hash, however the message is cut into
  fragments (empty ones included) and whatever the context held before \<open>Init\<close>. \<open>Final\<close> may be
  called in between: the hash of the message so far is returned, and the final result is not
  disturbed.
\<close>

theorem spooky_incremental:
  assumes "length (m_data c) = sc_bufSize"
  shows "let c1 = fold Update frags1 (Init seed1 seed2 c); (h, c2) = Final c1 in
    h = Hash128 (concat frags1) seed1 seed2 \<and>
    fst (Final (fold Update frags2 c2)) = Hash128 (concat (frags1 @ frags2)) seed1 seed2"
proof -
  let ?c1 = "fold Update frags1 (Init seed1 seed2 c)"
  have a: "absorbed ?c1 (concat frags1) seed1 seed2" using absorbed_fold [OF absorbed_Init [OF assms]] by simp
  have b: "absorbed (fold Update frags2 (snd (Final ?c1))) (concat frags1 @ concat frags2) seed1 seed2"
    using absorbed_fold [OF absorbed_Final [OF a]] .
  obtain h c2 where "Final ?c1 = (h, c2)" by (cases "Final ?c1")
  then show ?thesis using Final_hash [OF a] Final_hash [OF b] by simp
qed

theorem spooky_incremental_witness:
  "length (replicate sc_bufSize (0xFF :: byte)) = sc_bufSize \<and>
   fst (Final (fold Update [[1, 2, 3], replicate 300 7]
     (Init 5 6 \<lparr>m_data = replicate sc_bufSize 0xFF, m_state = init_vars 1 2, m_length = 9, m_remainder = 9\<rparr>)))
   = Hash128 (1 # 2 # 3 # replicate 300 7) 5 6"
  using spooky_incremental [of "\<lparr>m_data = replicate sc_bufSize 0xFF, m_state = init_vars 1 2, m_length = 9, m_remainder = 9\<rparr>"
    "[[1, 2, 3], replicate 300 7]" 5 6 "[]"]
  by (simp add: Let_def split: prod.splits)

end
