(* ===== verification/Acc_Hash.thy ===== *)
theory Acc_Hash
  imports Acc_Spooky
begin

text \<open>
  The integer and string hashes of \<open>src/accelerator/Hash.h\<close>. The two mixers come with inverse
  functions; both directions of the round trip are proved for all keys.
\<close>

section \<open>Combining hashes\<close>

definition hash_128_to_64 :: "u64 \<Rightarrow> u64 \<Rightarrow> u64" where
  "hash_128_to_64 upper lower =
     (let kMul = 0x9ddfea08eb382d69;
          a = (lower XOR upper) * kMul;
          a = a XOR drop_bit 47 a;
          b = (upper XOR a) * kMul;
          b = b XOR drop_bit 47 b;
          b = b * kMul
      in b)"

primrec hash_range :: "('a \<Rightarrow> u64) \<Rightarrow> 'a list \<Rightarrow> u64 \<Rightarrow> u64" where
  "hash_range hasher [] hash = hash"
| "hash_range hasher (x # xs) hash = hash_range hasher xs (hash_128_to_64 hash (hasher x))"

text \<open>\<open>hash_combine_generic\<close> on a 64-bit platform, over the hashes of its arguments.\<close>

fun hash_combine_generic :: "u64 list \<Rightarrow> u64" where
  "hash_combine_generic [] = 0"
| "hash_combine_generic [t] = t"
| "hash_combine_generic (t # ts) = hash_128_to_64 t (hash_combine_generic ts)"

section \<open>Mixers\<close>

definition twang_mix64 :: "u64 \<Rightarrow> u64" where
  "twang_mix64 key =
     (let key = NOT key + push_bit 21 key;
          key = key XOR drop_bit 24 key;
          key = key + push_bit 3 key + push_bit 8 key;
          key = key XOR drop_bit 14 key;
          key = key + push_bit 2 key + push_bit 4 key;
          key = key XOR drop_bit 28 key;
          key = key + push_bit 31 key
      in key)"

definition twang_unmix64 :: "u64 \<Rightarrow> u64" where
  "twang_unmix64 key =
     (let key = key * 4611686016279904257;
          key = key XOR (drop_bit 28 key XOR drop_bit 56 key);
          key = key * 14933078535860113213;
          key = key XOR (drop_bit 14 key XOR drop_bit 28 key XOR drop_bit 42 key XOR drop_bit 56 key);
          key = key * 15244667743933553977;
          key = key XOR (drop_bit 24 key XOR drop_bit 48 key);
          key = (key + 1) * 9223367638806167551
      in key)"

definition twang_32from64 :: "u64 \<Rightarrow> u32" where
  "twang_32from64 key =
     (let key = NOT key + push_bit 18 key;
          key = key XOR drop_bit 31 key;
          key = key * 21;
          key = key XOR drop_bit 11 key;
          key = key + push_bit 6 key;
          key = key XOR drop_bit 22 key
      in ucast key)"

definition jenkins_rev_mix32 :: "u32 \<Rightarrow> u32" where
  "jenkins_rev_mix32 key =
     (let key = key + push_bit 12 key;
          key = key XOR drop_bit 22 key;
          key = key + push_bit 4 key;
          key = key XOR drop_bit 9 key;
          key = key + push_bit 10 key;
          key = key XOR drop_bit 2 key;
          key = key + push_bit 7 key;
          key = key + push_bit 12 key
      in key)"

definition jenkins_rev_unmix32 :: "u32 \<Rightarrow> u32" where
  "jenkins_rev_unmix32 key =
     (let key = key * 2364026753;
          key = key XOR
            (drop_bit 2 key XOR drop_bit 4 key XOR drop_bit 6 key XOR drop_bit 8 key XOR
             drop_bit 10 key XOR drop_bit 12 key XOR drop_bit 14 key XOR drop_bit 16 key XOR
             drop_bit 18 key XOR drop_bit 20 key XOR drop_bit 22 key XOR drop_bit 24 key XOR
             drop_bit 26 key XOR drop_bit 28 key XOR drop_bit 30 key);
          key = key * 3222273025;
          key = key XOR (drop_bit 9 key XOR drop_bit 18 key XOR drop_bit 27 key);
          key = key * 4042322161;
          key = key XOR drop_bit 22 key;
          key = key * 16773121
      in key)"

section \<open>FNV\<close>

definition FNV_32_HASH_START :: u32 where
  "FNV_32_HASH_START = 2166136261"

definition FNV_64_HASH_START :: u64 where
  "FNV_64_HASH_START = 14695981039346656037"

definition FNVA_64_HASH_START :: u64 where
  "FNVA_64_HASH_START = 14695981039346656037"

definition fnv32_step :: "u32 \<Rightarrow> u32" where
  "fnv32_step hash = hash + (push_bit 1 hash + push_bit 4 hash + push_bit 7 hash +
     push_bit 8 hash + push_bit 24 hash)"

definition fnv64_step :: "u64 \<Rightarrow> u64" where
  "fnv64_step hash = hash + (push_bit 1 hash + push_bit 4 hash + push_bit 5 hash + push_bit 7 hash +
     push_bit 8 hash + push_bit 40 hash)"

text \<open>The characters are signed: \<open>scast\<close>. The C string versions stop at the NUL.\<close>

primrec fnv32_buf :: "bytes \<Rightarrow> u32 \<Rightarrow> u32" where
  "fnv32_buf [] hash = hash"
| "fnv32_buf (c # buf) hash = fnv32_buf buf (fnv32_step hash XOR scast c)"

primrec fnv32 :: "bytes \<Rightarrow> u32 \<Rightarrow> u32" where
  "fnv32 [] hash = hash"
| "fnv32 (c # s) hash = (if c = 0 then hash else fnv32 s (fnv32_step hash XOR scast c))"

primrec fnv64_buf :: "bytes \<Rightarrow> u64 \<Rightarrow> u64" where
  "fnv64_buf [] hash = hash"
| "fnv64_buf (c # buf) hash = fnv64_buf buf (fnv64_step hash XOR scast c)"

primrec fnv64 :: "bytes \<Rightarrow> u64 \<Rightarrow> u64" where
  "fnv64 [] hash = hash"
| "fnv64 (c # s) hash = (if c = 0 then hash else fnv64 s (fnv64_step hash XOR scast c))"

primrec fnva64_buf :: "bytes \<Rightarrow> u64 \<Rightarrow> u64" where
  "fnva64_buf [] hash = hash"
| "fnva64_buf (c # buf) hash = fnva64_buf buf (fnv64_step (hash XOR ucast c))"

section \<open>Hsieh\<close>

definition get16bits :: "byte \<Rightarrow> byte \<Rightarrow> u32" where
  "get16bits c0 c1 = ucast c0 OR push_bit 8 (ucast c1)"

fun hsieh_loop :: "nat \<Rightarrow> bytes \<Rightarrow> u32 \<Rightarrow> bytes \<times> u32" where
  "hsieh_loop (Suc len) (c0 # c1 # c2 # c3 # s) hash =
     (let hash = hash + get16bits c0 c1;
          tmp = push_bit 11 (get16bits c2 c3) XOR hash;
          hash = push_bit 16 hash XOR tmp;
          hash = hash + drop_bit 11 hash
      in hsieh_loop len s hash)"
| "hsieh_loop len s hash = (s, hash)"

text \<open>The \<open>switch\<close> on the zero to three bytes left.\<close>

definition hsieh_tail :: "bytes \<Rightarrow> u32 \<Rightarrow> u32" where
  "hsieh_tail s hash = (case s of
     [c0, c1, c2] \<Rightarrow>
       let hash = hash + get16bits c0 c1;
           hash = hash XOR push_bit 16 hash;
           hash = hash XOR push_bit 18 (ucast c2)
       in hash + drop_bit 11 hash
   | [c0, c1] \<Rightarrow>
       let hash = hash + get16bits c0 c1;
           hash = hash XOR push_bit 11 hash
       in hash + drop_bit 17 hash
   | [c0] \<Rightarrow>
       let hash = hash + ucast c0;
           hash = hash XOR push_bit 10 hash
       in hash + drop_bit 1 hash
   | _ \<Rightarrow> hash)"

definition hsieh_hash32_buf :: "bytes \<Rightarrow> u32" where
  "hsieh_hash32_buf buf =
     (if buf = [] then 0
      else
        let (s, hash) = hsieh_loop (length buf div 4) buf (of_nat (length buf));
            hash = hsieh_tail s hash;
            hash = hash XOR push_bit 3 hash;
            hash = hash + drop_bit 5 hash;
            hash = hash XOR push_bit 4 hash;
            hash = hash + drop_bit 17 hash;
            hash = hash XOR push_bit 25 hash;
            hash = hash + drop_bit 6 hash
        in hash)"

section \<open>The hasher of the standard types\<close>

definition integral_hasher32 :: "u32 \<Rightarrow> u64" where
  "integral_hasher32 i = ucast (jenkins_rev_mix32 i)"

definition integral_hasher64 :: "u64 \<Rightarrow> u64" where
  "integral_hasher64 i = twang_mix64 i"

definition hasher_bool :: "bool \<Rightarrow> u64" where
  "hasher_bool key = (if key then NOT 0 else 0)"

definition hasher_string :: "bytes \<Rightarrow> u64" where
  "hasher_string key = Hash64 key 0"

definition hasher_pair :: "('a \<Rightarrow> u64) \<Rightarrow> ('b \<Rightarrow> u64) \<Rightarrow> 'a \<times> 'b \<Rightarrow> u64" where
  "hasher_pair h1 h2 key = hash_128_to_64 (h1 (fst key)) (h2 (snd key))"

section \<open>Shift-and-xor and its inverse\<close>

lemma drop_bit_64 [simp]: "64 \<le> n \<Longrightarrow> drop_bit n (x :: u64) = 0"
  by (rule bit_word_eqI) (simp add: bit_simps)

lemma drop_bit_32 [simp]: "32 \<le> n \<Longrightarrow> drop_bit n (x :: u32) = 0"
  by (rule bit_word_eqI) (simp add: bit_simps)

lemma xor_cancel [simp]: "(a :: 'a :: len word) XOR (a XOR b) = b"
  by (simp flip: xor.assoc)

lemmas xorshift_simps = Let_def drop_bit_xor drop_bit_drop_bit xor.assoc

lemma xorshift64:
  fixes x :: u64
  shows "let y = x XOR drop_bit 28 x in y XOR (drop_bit 28 y XOR drop_bit 56 y) = x"
    "let y = x XOR drop_bit 14 x in y XOR (drop_bit 14 y XOR drop_bit 28 y XOR drop_bit 42 y XOR drop_bit 56 y) = x"
    "let y = x XOR drop_bit 24 x in y XOR (drop_bit 24 y XOR drop_bit 48 y) = x"
  by (simp_all add: xorshift_simps)

lemma xorshift32:
  fixes x :: u32
  shows "let y = x XOR drop_bit 2 x in y XOR
      (drop_bit 2 y XOR drop_bit 4 y XOR drop_bit 6 y XOR drop_bit 8 y XOR
       drop_bit 10 y XOR drop_bit 12 y XOR drop_bit 14 y XOR drop_bit 16 y XOR
       drop_bit 18 y XOR drop_bit 20 y XOR drop_bit 22 y XOR drop_bit 24 y XOR
       drop_bit 26 y XOR drop_bit 28 y XOR drop_bit 30 y) = x"
    "let y = x XOR drop_bit 9 x in y XOR (drop_bit 9 y XOR drop_bit 18 y XOR drop_bit 27 y) = x"
    "let y = x XOR drop_bit 22 x in y XOR drop_bit 22 y = x"
  by (simp_all add: xorshift_simps)

lemma mult_inverse: "a * b = 1 \<Longrightarrow> x * a * b = (x :: 'a :: len word)"
  by (simp add: mult.assoc)

lemma mult_steps64:
  fixes x :: u64
  shows "(x + push_bit 31 x) * 4611686016279904257 = x"
    "(x + push_bit 2 x + push_bit 4 x) * 14933078535860113213 = x"
    "(x + push_bit 3 x + push_bit 8 x) * 15244667743933553977 = x"
    "(NOT x + push_bit 21 x + 1) * 9223367638806167551 = x"
proof -
  have "x + push_bit 31 x = x * 2147483649" "x + push_bit 2 x + push_bit 4 x = x * 21"
    "x + push_bit 3 x + push_bit 8 x = x * 265" "NOT x + push_bit 21 x + 1 = x * 2097151"
    by (simp_all add: push_bit_eq_mult not_eq_complement algebra_simps)
  note eqs = this
  show "(x + push_bit 31 x) * 4611686016279904257 = x"
    "(x + push_bit 2 x + push_bit 4 x) * 14933078535860113213 = x"
    "(x + push_bit 3 x + push_bit 8 x) * 15244667743933553977 = x"
    "(NOT x + push_bit 21 x + 1) * 9223367638806167551 = x"
    unfolding eqs by (rule mult_inverse, simp)+
qed

lemma mult_steps32:
  fixes x :: u32
  shows "(x + push_bit 7 x + push_bit 12 (x + push_bit 7 x)) * 2364026753 = x"
    "(x + push_bit 10 x) * 3222273025 = x" "(x + push_bit 4 x) * 4042322161 = x"
    "(x + push_bit 12 x) * 16773121 = x"
proof -
  have "x + push_bit 7 x + push_bit 12 (x + push_bit 7 x) = x * 528513" "x + push_bit 10 x = x * 1025"
    "x + push_bit 4 x = x * 17" "x + push_bit 12 x = x * 4097"
    by (simp_all add: push_bit_eq_mult algebra_simps)
  note eqs = this
  show "(x + push_bit 7 x + push_bit 12 (x + push_bit 7 x)) * 2364026753 = x"
    unfolding eqs(1) by (rule mult_inverse, simp)
  show "(x + push_bit 10 x) * 3222273025 = x" "(x + push_bit 4 x) * 4042322161 = x"
    "(x + push_bit 12 x) * 16773121 = x"
    unfolding eqs(2-4) by (rule mult_inverse, simp)+
qed

lemma twang_unmix_mix: "twang_unmix64 (twang_mix64 key) = key"
  unfolding twang_mix64_def twang_unmix64_def
  by (simp only: mult_steps64 xorshift64 [unfolded Let_def] Let_def)

lemma jenkins_unmix_mix: "jenkins_rev_unmix32 (jenkins_rev_mix32 key) = key"
  unfolding jenkins_rev_mix32_def jenkins_rev_unmix32_def
  by (simp only: mult_steps32 xorshift32 [unfolded Let_def] Let_def)

lemma left_inverse_word:
  fixes f g :: "'a :: len word \<Rightarrow> 'a word"
  assumes "\<And>x. g (f x) = x"
  shows "f (g y) = y"
proof -
  have "inj f" using assms by (metis injI)
  then have "surj f" by (rule finite_UNIV_inj_surj [rotated]) simp
  then obtain x where "y = f x" by blast
  then show ?thesis using assms by simp
qed

section \<open>FNV against its definition\<close>

lemma fnv_steps: "fnv32_step x = x * 16777619" "fnv64_step y = y * 1099511628211"
  by (simp_all add: fnv32_step_def fnv64_step_def push_bit_eq_mult)

lemma fnv_buf_fold:
  "fnv32_buf buf h = foldl (\<lambda>h c. (h * 16777619) XOR scast c) h buf"
  "fnv64_buf buf k = foldl (\<lambda>h c. (h * 1099511628211) XOR scast c) k buf"
  "fnva64_buf buf k = foldl (\<lambda>h c. (h XOR ucast c) * 1099511628211) k buf"
  by (induction buf arbitrary: h k) (simp_all add: fnv_steps)

lemma fnv_cstring:
  "fnv32 s h = fnv32_buf (takeWhile (\<lambda>c. c \<noteq> 0) s) h"
  "fnv64 s k = fnv64_buf (takeWhile (\<lambda>c. c \<noteq> 0) s) k"
  by (induction s arbitrary: h k) simp_all

lemma takeWhile_nul: "takeWhile (\<lambda>c. c \<noteq> 0) (s @ 0 # rest) = takeWhile (\<lambda>c. c \<noteq> (0 :: byte)) s"
  by (induction s) simp_all

text \<open>FNV-1 and FNV-1a of a sequence of octets with the given prime, as published.\<close>

definition fnv1 :: "'a::len word \<Rightarrow> bytes \<Rightarrow> 'a word \<Rightarrow> 'a word" where
  "fnv1 prime buf h = foldl (\<lambda>h c. (h * prime) XOR ucast c) h buf"

definition fnv1a :: "'a::len word \<Rightarrow> bytes \<Rightarrow> 'a word \<Rightarrow> 'a word" where
  "fnv1a prime buf h = foldl (\<lambda>h c. (h XOR ucast c) * prime) h buf"

lemma fnv_buf_fnv1a: "fnva64_buf buf k = fnv1a 1099511628211 buf k"
  by (simp add: fnv_buf_fold fnv1a_def)

lemma sign_extension:
  fixes c :: byte
  shows "c < 0x80 \<Longrightarrow> (scast c :: u32) = ucast c" "c < 0x80 \<Longrightarrow> (scast c :: u64) = ucast c"
    and "0x80 \<le> c \<Longrightarrow> (scast c :: u32) = ucast c XOR 0xFFFFFF00"
      "0x80 \<le> c \<Longrightarrow> (scast c :: u64) = ucast c XOR 0xFFFFFFFFFFFFFF00"
proof -
  have "(if c < 0x80 then (scast c :: u32) = ucast c \<and> (scast c :: u64) = ucast c
    else (scast c :: u32) = ucast c XOR 0xFFFFFF00 \<and> (scast c :: u64) = ucast c XOR 0xFFFFFFFFFFFFFF00)"
    by (rule all_bytes) code_simp
  then show "c < 0x80 \<Longrightarrow> (scast c :: u32) = ucast c" "c < 0x80 \<Longrightarrow> (scast c :: u64) = ucast c"
    "0x80 \<le> c \<Longrightarrow> (scast c :: u32) = ucast c XOR 0xFFFFFF00"
    "0x80 \<le> c \<Longrightarrow> (scast c :: u64) = ucast c XOR 0xFFFFFFFFFFFFFF00"
    by (auto simp: not_less [symmetric] split: if_splits)
qed

lemma fnv_buf_ascii:
  "list_all (\<lambda>c. c < 0x80) asc \<Longrightarrow> fnv32_buf asc h = fnv1 16777619 asc h"
  "list_all (\<lambda>c. c < 0x80) asc \<Longrightarrow> fnv64_buf asc k = fnv1 1099511628211 asc k"
  by (induction asc arbitrary: h k) (simp_all add: fnv1_def fnv_steps sign_extension)

lemma fnv_buf_high:
  "0x80 \<le> c \<Longrightarrow> fnv32_buf (buf @ [c]) h = fnv1 16777619 [c] (fnv32_buf buf h) XOR 0xFFFFFF00"
  "0x80 \<le> c \<Longrightarrow> fnv64_buf (buf @ [c]) k = fnv1 1099511628211 [c] (fnv64_buf buf k) XOR 0xFFFFFFFFFFFFFF00"
  by (simp_all add: fnv_buf_fold fnv1_def sign_extension xor.assoc)

section \<open>Properties\<close>

text \<open>
  C27: \<open>twang_unmix64\<close> and \<open>twang_mix64\<close>, and \<open>jenkins_rev_unmix32\<close> and \<open>jenkins_rev_mix32\<close>, are
  inverse to each other on every key: the mixers are permutations, and the hashers of the
  integral types built on them have no collisions.
\<close>

theorem hash_mixers_invertible:
  "twang_unmix64 (twang_mix64 k) = k \<and> twang_mix64 (twang_unmix64 k) = k \<and>
   jenkins_rev_unmix32 (jenkins_rev_mix32 j) = j \<and> jenkins_rev_mix32 (jenkins_rev_unmix32 j) = j"
  using twang_unmix_mix jenkins_unmix_mix left_inverse_word [of twang_unmix64 twang_mix64 k]
    left_inverse_word [of jenkins_rev_unmix32 jenkins_rev_mix32 j] by blast

text \<open>
  C28: The shift-and-add loops of the FNV hashes multiply by the published primes. \<open>fnva64_buf\<close> is
  FNV-1a on all bytes. \<open>fnv32_buf\<close> and \<open>fnv64_buf\<close> add the characters sign-extended, where FNV-1
  adds octets: they are FNV-1 on text below \<open>0x80\<close>, and on every byte from \<open>0x80\<close> on the hash comes
  out with the bits above the byte flipped. The overloads for C strings hash the bytes before the
  terminating NUL.
\<close>

theorem fnv_reference:
  "fnva64_buf buf k = fnv1a 1099511628211 buf k \<and>
   (list_all (\<lambda>c. c < 0x80) asc \<longrightarrow>
      fnv32_buf asc h = fnv1 16777619 asc h \<and> fnv64_buf asc k = fnv1 1099511628211 asc k) \<and>
   (0x80 \<le> c \<longrightarrow>
      fnv32_buf (buf @ [c]) h = fnv1 16777619 [c] (fnv32_buf buf h) XOR 0xFFFFFF00 \<and>
      fnv64_buf (buf @ [c]) k = fnv1 1099511628211 [c] (fnv64_buf buf k) XOR 0xFFFFFFFFFFFFFF00) \<and>
   fnv32 (s @ 0 # rest) h = fnv32_buf (takeWhile (\<lambda>c. c \<noteq> 0) s) h \<and>
   fnv64 (s @ 0 # rest) k = fnv64_buf (takeWhile (\<lambda>c. c \<noteq> 0) s) k"
  by (intro conjI impI) (simp_all only: fnv_buf_fnv1a fnv_buf_ascii fnv_buf_high fnv_cstring takeWhile_nul)

theorem fnv_reference_witness:
  "fnv32_buf (lit ''abc'') FNV_32_HASH_START = fnv1 16777619 (lit ''abc'') FNV_32_HASH_START \<and>
   fnv32_buf [0x80] FNV_32_HASH_START = fnv1 16777619 [0x80] FNV_32_HASH_START XOR 0xFFFFFF00"
proof -
  have "list_all (\<lambda>c. c < 0x80) (lit ''abc'')" by (simp add: lit_def)
  then show ?thesis
    using fnv_reference [where asc = "lit ''abc''" and h = FNV_32_HASH_START and buf = "[]" and c = "0x80"]
    by simp
qed

end
