(* ===== verification/Acc_Range.thy ===== *)
theory Acc_Range
  imports Acc_Prelude
begin

text \<open>
  \<open>Range<Iter>\<close> (\<open>src/accelerator/Range.h\<close>, \<open>Range.cpp\<close>): the non-owning view behind
  \<open>StringPiece\<close> and \<open>ByteRange\<close>, its mutators, comparison, replacement, and the search
  routines (the Boyer-Moore-like \<open>qfind\<close> and \<open>rfind\<close>, the sparse byte set of
  \<open>find_first_of\<close>). A range is the array its two iterators point into together with
  the positions of the iterators; a read-only argument is the list of elements it denotes.
  \<open>std::string::npos\<close> as a search result is \<^const>\<open>None\<close>.
\<close>

section \<open>The view and its errors\<close>

datatype range_error =
    OutOfRange        \<comment> \<open>\<open>std::out_of_range\<close>\<close>
  | InvalidArgument   \<comment> \<open>\<open>std::invalid_argument\<close>\<close>
  | RangeUB           \<comment> \<open>an access outside the array, or a failed assertion\<close>

record 'a Range =
  mem :: "'a list"
  b_it :: nat
  e_it :: nat

definition npos :: nat where
  "npos = 2 ^ 64 - 1"

definition deref :: "'a list \<Rightarrow> nat \<Rightarrow> range_error + 'a" where
  "deref xs i = (if i < length xs then Inr (xs ! i) else Inl RangeUB)"

definition Range_iters :: "'a list \<Rightarrow> nat \<Rightarrow> nat \<Rightarrow> 'a Range" where
  "Range_iters m start fin = \<lparr>mem = m, b_it = start, e_it = fin\<rparr>"

definition Range_size :: "'a list \<Rightarrow> nat \<Rightarrow> nat \<Rightarrow> 'a Range" where
  "Range_size m start n = \<lparr>mem = m, b_it = start, e_it = start + n\<rparr>"

definition Range_string :: "bytes \<Rightarrow> byte Range" where
  "Range_string str = \<lparr>mem = str, b_it = 0, e_it = length str\<rparr>"

definition Range_string_from :: "bytes \<Rightarrow> nat \<Rightarrow> range_error + byte Range" where
  "Range_string_from str startFrom =
     (if startFrom > length str then Inl OutOfRange
      else Inr \<lparr>mem = str, b_it = startFrom, e_it = length str\<rparr>)"

definition Range_string_from_size :: "bytes \<Rightarrow> nat \<Rightarrow> nat \<Rightarrow> range_error + byte Range" where
  "Range_string_from_size str startFrom n =
     (if startFrom > length str then Inl OutOfRange
      else Inr \<lparr>mem = str, b_it = startFrom,
                e_it = (if length str - startFrom < n then length str else startFrom + n)\<rparr>)"

definition clear :: "'a Range \<Rightarrow> 'a Range" where
  "clear r = \<lparr>mem = [], b_it = 0, e_it = 0\<rparr>"

definition assign :: "'a list \<Rightarrow> nat \<Rightarrow> nat \<Rightarrow> 'a Range \<Rightarrow> 'a Range" where
  "assign m start fin r = \<lparr>mem = m, b_it = start, e_it = fin\<rparr>"

definition reset :: "'a list \<Rightarrow> nat \<Rightarrow> nat \<Rightarrow> 'a Range \<Rightarrow> 'a Range" where
  "reset m start n r = \<lparr>mem = m, b_it = start, e_it = start + n\<rparr>"

definition size' :: "'a Range \<Rightarrow> nat" where
  "size' r = e_it r - b_it r"

definition empty :: "'a Range \<Rightarrow> bool" where
  "empty r \<longleftrightarrow> b_it r = e_it r"

definition value_before :: "'a list \<Rightarrow> nat \<Rightarrow> range_error + 'a" where
  "value_before m i = (if i = 0 then Inl RangeUB else deref m (i - 1))"

definition front :: "'a Range \<Rightarrow> range_error + 'a" where
  "front r = (if b_it r < e_it r then deref (mem r) (b_it r) else Inl RangeUB)"

definition back' :: "'a Range \<Rightarrow> range_error + 'a" where
  "back' r = (if b_it r < e_it r then value_before (mem r) (e_it r) else Inl RangeUB)"

text \<open>The elements a range denotes: what \<open>str()\<close> copies out.\<close>

definition str :: "'a Range \<Rightarrow> 'a list" where
  "str r = take (e_it r - b_it r) (drop (b_it r) (mem r))"

definition index :: "'a Range \<Rightarrow> nat \<Rightarrow> range_error + 'a" where
  "index r i = deref (mem r) (b_it r + i)"

definition at :: "'a Range \<Rightarrow> nat \<Rightarrow> range_error + 'a" where
  "at r i = (if i \<ge> size' r then Inl OutOfRange else deref (mem r) (b_it r + i))"

definition advance :: "nat \<Rightarrow> 'a Range \<Rightarrow> range_error + 'a Range" where
  "advance n r = (if n > size' r then Inl OutOfRange else Inr (r\<lparr>b_it := b_it r + n\<rparr>))"

definition subtract :: "nat \<Rightarrow> 'a Range \<Rightarrow> range_error + 'a Range" where
  "subtract n r = (if n > size' r then Inl OutOfRange else Inr (r\<lparr>e_it := e_it r - n\<rparr>))"

definition pop_front :: "'a Range \<Rightarrow> range_error + 'a Range" where
  "pop_front r = (if b_it r < e_it r then Inr (r\<lparr>b_it := b_it r + 1\<rparr>) else Inl RangeUB)"

definition pop_back :: "'a Range \<Rightarrow> range_error + 'a Range" where
  "pop_back r = (if b_it r < e_it r then Inr (r\<lparr>e_it := e_it r - 1\<rparr>) else Inl RangeUB)"

definition subpiece :: "'a Range \<Rightarrow> nat \<Rightarrow> nat \<Rightarrow> range_error + 'a Range" where
  "subpiece r first len =
     (if first > size' r then Inl OutOfRange
      else Inr (Range_size (mem r) (b_it r + first) (min len (size' r - first))))"

section \<open>Comparison and hashing\<close>

text \<open>
  \<open>std::char_traits<char>::compare\<close>: the sign of the first difference of the first \<open>n\<close>
  characters, compared as unsigned characters.
\<close>

fun traits_compare :: "bytes \<Rightarrow> bytes \<Rightarrow> nat \<Rightarrow> int" where
  "traits_compare (x # xs) (y # ys) (Suc n) =
     (if x < y then -1 else if y < x then 1 else traits_compare xs ys n)"
| "traits_compare _ _ _ = 0"

definition compare :: "bytes \<Rightarrow> bytes \<Rightarrow> int" where
  "compare t o' =
     (let tsize = (of_nat (length t) :: u64);
          osize = (of_nat (length o') :: u64);
          r = traits_compare t o' (unat (min tsize osize))
      in if r = 0 \<and> tsize \<noteq> osize
         then uint (drop_bit 63 (osize - tsize)) * 2 - 1
         else r)"

definition range_eq :: "bytes \<Rightarrow> bytes \<Rightarrow> bool" where
  "range_eq lhs rhs \<longleftrightarrow> length lhs = length rhs \<and> compare lhs rhs = 0"

definition range_less :: "bytes \<Rightarrow> bytes \<Rightarrow> bool" where
  "range_less lhs rhs \<longleftrightarrow> compare lhs rhs < 0"

text \<open>The elements are of type \<open>char\<close>, which is signed, when they are added to the hash.\<close>

fun hash_loop :: "u32 \<Rightarrow> bytes \<Rightarrow> u32" where
  "hash_loop h [] = h"
| "hash_loop h (c # cs) = hash_loop ((push_bit 5 h + h) + scast c) cs"

definition hash :: "byte Range \<Rightarrow> u32" where
  "hash r = hash_loop 5381 (str r)"

section \<open>Searching\<close>

subsection \<open>\<open>qfind\<close>: first occurrence\<close>

text \<open>
  \<open>i[k]\<close> for an iterator \<open>i\<close> into the haystack is a checked access at \<open>i + k\<close>. The three
  nested loops are three functions: the scan for the last element of the needle, the
  element-wise comparison and the lazy computation of the skip.
\<close>

function scan_last :: "('a \<Rightarrow> 'a \<Rightarrow> bool) \<Rightarrow> 'a list \<Rightarrow> nat \<Rightarrow> 'a \<Rightarrow> nat \<Rightarrow> nat
    \<Rightarrow> range_error + nat option" where
  "scan_last eq hay nsize_1 lastNeedle iEnd i =
     bindE (deref hay (i + nsize_1)) (\<lambda>c.
       if eq c lastNeedle then Inr (Some i)
       else if i + 1 = iEnd then Inr None
       else scan_last eq hay nsize_1 lastNeedle iEnd (i + 1))"
  by pat_completeness auto
termination
  by (relation "measure (\<lambda>(_, hay, _, _, _, i). length hay - i)")
    (auto simp: deref_def split: if_splits)

function pedestrian :: "('a \<Rightarrow> 'a \<Rightarrow> bool) \<Rightarrow> 'a list \<Rightarrow> 'a list \<Rightarrow> nat \<Rightarrow> nat
    \<Rightarrow> range_error + bool" where
  "pedestrian eq hay needle i j =
     bindE (deref hay (i + j)) (\<lambda>c.
     bindE (deref needle j) (\<lambda>d.
       if \<not> eq c d then Inr False
       else if j + 1 = length needle then Inr True
       else pedestrian eq hay needle i (j + 1)))"
  by pat_completeness auto
termination
  by (relation "measure (\<lambda>(_, _, needle, _, j). length needle - j)")
    (auto simp: deref_def split: if_splits)

function compute_skip :: "('a \<Rightarrow> 'a \<Rightarrow> bool) \<Rightarrow> 'a list \<Rightarrow> nat \<Rightarrow> 'a \<Rightarrow> nat
    \<Rightarrow> range_error + nat" where
  "compute_skip eq needle nsize_1 lastNeedle skip =
     (if skip \<le> nsize_1
      then bindE (deref needle (nsize_1 - skip)) (\<lambda>c.
             if \<not> eq c lastNeedle then compute_skip eq needle nsize_1 lastNeedle (skip + 1)
             else Inr skip)
      else Inr skip)"
  by pat_completeness auto
termination
  by (relation "measure (\<lambda>(_, _, nsize_1, _, skip). nsize_1 + 1 - skip)") auto

declare scan_last.simps [simp del] pedestrian.simps [simp del] compute_skip.simps [simp del]

lemma compute_skip_ge: "compute_skip eq needle m l s = Inr t \<Longrightarrow> s \<le> t"
  by (induction eq needle m l s rule: compute_skip.induct)
    (subst (asm) compute_skip.simps, force simp: bindE_eq_Inr_iff split: if_splits)

definition lazy_skip :: "('a \<Rightarrow> 'a \<Rightarrow> bool) \<Rightarrow> 'a list \<Rightarrow> nat \<Rightarrow> 'a \<Rightarrow> nat \<Rightarrow> range_error + nat"
where
  "lazy_skip eq needle nsize_1 lastNeedle skip =
     (if skip = 0 then compute_skip eq needle nsize_1 lastNeedle 1 else Inr skip)"

lemma lazy_skip_pos: "lazy_skip eq needle m l s = Inr t \<Longrightarrow> 0 < t"
  by (auto simp: lazy_skip_def dest: compute_skip_ge split: if_splits)

lemma scan_last_bounds:
  "scan_last eq hay m l iEnd i = Inr (Some k) \<Longrightarrow> i \<le> k \<and> k + m < length hay"
proof (induction eq hay m l iEnd i rule: scan_last.induct)
  case (1 eq hay m l iEnd i)
  from "1.prems" show ?case
    using "1.IH" [of "hay ! (i + m)"]
    by (subst (asm) scan_last.simps) (auto simp: bindE_eq_Inr_iff deref_def split: if_splits)
qed

function qfind_loop :: "('a \<Rightarrow> 'a \<Rightarrow> bool) \<Rightarrow> 'a list \<Rightarrow> 'a list \<Rightarrow> nat \<Rightarrow> 'a \<Rightarrow> nat \<Rightarrow> nat \<Rightarrow> nat
    \<Rightarrow> range_error + nat option" where
  "qfind_loop eq hay needle nsize_1 lastNeedle iEnd skip i =
     (if i < iEnd
      then bindE (scan_last eq hay nsize_1 lastNeedle iEnd i) (\<lambda>r.
             case r of
               None \<Rightarrow> Inr None
             | Some k \<Rightarrow>
                 bindE (pedestrian eq hay needle k 0) (\<lambda>found.
                   if found then Inr (Some k)
                   else bindE (lazy_skip eq needle nsize_1 lastNeedle skip) (\<lambda>skip'.
                          qfind_loop eq hay needle nsize_1 lastNeedle iEnd skip' (k + skip'))))
      else Inr None)"
  by pat_completeness auto
termination
  by (relation "measure (\<lambda>(_, hay, _, _, _, iEnd, _, i). iEnd - i)")
    (auto dest!: lazy_skip_pos scan_last_bounds)

declare qfind_loop.simps [simp del]

definition qfind :: "('a \<Rightarrow> 'a \<Rightarrow> bool) \<Rightarrow> 'a list \<Rightarrow> 'a list \<Rightarrow> range_error + nat option" where
  "qfind eq haystack needle =
     (let nsize = length needle in
      if length haystack < nsize then Inr None
      else if nsize = 0 then Inr (Some 0)
      else bindE (deref needle (nsize - 1)) (\<lambda>lastNeedle.
             qfind_loop eq haystack needle (nsize - 1) lastNeedle
               (length haystack - (nsize - 1)) 0 0))"

subsection \<open>\<open>rfind\<close>: last occurrence\<close>

text \<open>
  The iterator moves towards the front and is compared with the begin of the haystack
  after it has been decremented, so its position is an integer. The skip is computed from
  the haystack at the position of the first mismatch and is kept for later mismatches.
\<close>

definition deref_int :: "'a list \<Rightarrow> int \<Rightarrow> range_error + 'a" where
  "deref_int xs i = (if 0 \<le> i then deref xs (nat i) else Inl RangeUB)"

function rscan_last :: "('a \<Rightarrow> 'a \<Rightarrow> bool) \<Rightarrow> 'a list \<Rightarrow> nat \<Rightarrow> 'a \<Rightarrow> int
    \<Rightarrow> range_error + int option" where
  "rscan_last eq hay nsize_1 lastNeedle i =
     bindE (deref_int hay (i + int nsize_1)) (\<lambda>c.
       if eq c lastNeedle then Inr (Some i)
       else if i - 1 < 0 then Inr None
       else rscan_last eq hay nsize_1 lastNeedle (i - 1))"
  by pat_completeness auto
termination
  by (relation "measure (\<lambda>(_, hay, _, _, i). nat i)") auto

function compute_rskip :: "('a \<Rightarrow> 'a \<Rightarrow> bool) \<Rightarrow> 'a list \<Rightarrow> int \<Rightarrow> nat \<Rightarrow> 'a \<Rightarrow> nat
    \<Rightarrow> range_error + nat" where
  "compute_rskip eq hay i nsize_1 lastNeedle skip =
     (if skip \<le> nsize_1
      then bindE (deref_int hay (i + (int nsize_1 - int skip))) (\<lambda>c.
             if \<not> eq c lastNeedle then compute_rskip eq hay i nsize_1 lastNeedle (skip + 1)
             else Inr skip)
      else Inr skip)"
  by pat_completeness auto
termination
  by (relation "measure (\<lambda>(_, _, _, nsize_1, _, skip). nsize_1 + 1 - skip)") auto

declare rscan_last.simps [simp del] compute_rskip.simps [simp del]

lemma compute_rskip_ge: "compute_rskip eq hay i m l s = Inr t \<Longrightarrow> s \<le> t"
  by (induction eq hay i m l s rule: compute_rskip.induct)
    (subst (asm) compute_rskip.simps, force simp: bindE_eq_Inr_iff split: if_splits)

definition lazy_rskip :: "('a \<Rightarrow> 'a \<Rightarrow> bool) \<Rightarrow> 'a list \<Rightarrow> int \<Rightarrow> nat \<Rightarrow> 'a \<Rightarrow> nat \<Rightarrow> range_error + nat"
where
  "lazy_rskip eq hay i nsize_1 lastNeedle skip =
     (if skip = 0 then compute_rskip eq hay i nsize_1 lastNeedle 1 else Inr skip)"

lemma lazy_rskip_pos: "lazy_rskip eq hay i m l s = Inr t \<Longrightarrow> 0 < t"
  by (auto simp: lazy_rskip_def dest: compute_rskip_ge split: if_splits)

lemma rscan_last_bounds:
  "rscan_last eq hay m l i = Inr (Some k) \<Longrightarrow> 0 \<le> i \<Longrightarrow> 0 \<le> k \<and> k \<le> i"
proof (induction eq hay m l i rule: rscan_last.induct)
  case (1 eq hay m l i)
  from "1.prems" show ?case
    using "1.IH" [of "hay ! nat (i + int m)"]
    by (subst (asm) rscan_last.simps)
      (auto simp: bindE_eq_Inr_iff deref_int_def deref_def split: if_splits)
qed

function rfind_loop :: "('a \<Rightarrow> 'a \<Rightarrow> bool) \<Rightarrow> 'a list \<Rightarrow> 'a list \<Rightarrow> nat \<Rightarrow> 'a \<Rightarrow> nat \<Rightarrow> int
    \<Rightarrow> range_error + nat option" where
  "rfind_loop eq hay needle nsize_1 lastNeedle skip i =
     (if i \<ge> 0
      then bindE (rscan_last eq hay nsize_1 lastNeedle i) (\<lambda>r.
             case r of
               None \<Rightarrow> Inr None
             | Some k \<Rightarrow>
                 bindE (pedestrian eq hay needle (nat k) 0) (\<lambda>found.
                   if found then Inr (Some (nat k))
                   else bindE (lazy_rskip eq hay k nsize_1 lastNeedle skip) (\<lambda>skip'.
                          rfind_loop eq hay needle nsize_1 lastNeedle skip' (k - int skip'))))
      else Inr None)"
  by pat_completeness auto
termination
  by (relation "measure (\<lambda>(_, hay, _, _, _, _, i). nat (i + 1))")
    (auto dest!: lazy_rskip_pos rscan_last_bounds)

declare rfind_loop.simps [simp del]

definition rfind :: "('a \<Rightarrow> 'a \<Rightarrow> bool) \<Rightarrow> 'a list \<Rightarrow> 'a list \<Rightarrow> range_error + nat option" where
  "rfind eq haystack needle =
     (let nsize = length needle in
      if length haystack < nsize then Inr None
      else if nsize = 0 then Inr (Some 0)
      else bindE (deref needle (nsize - 1)) (\<lambda>lastNeedle.
             rfind_loop eq haystack needle (nsize - 1) lastNeedle 0
               (int (length haystack) - int nsize)))"

subsection \<open>Searching for one of several bytes\<close>

text \<open>
  The arrays of a \<open>FastByteSet\<close> are not initialised by its constructor: their contents
  are arguments of the model.
\<close>

record FastByteSet =
  set_size :: u16
  sparse :: bytes
  dense :: bytes

definition FastByteSet_new :: "bytes \<Rightarrow> bytes \<Rightarrow> FastByteSet" where
  "FastByteSet_new sp de = \<lparr>set_size = 0, sparse = sp, dense = de\<rparr>"

definition set_contains :: "byte \<Rightarrow> FastByteSet \<Rightarrow> range_error + bool" where
  "set_contains i s =
     bindE (deref (sparse s) (unat i)) (\<lambda>k.
       if ucast k < set_size s
       then bindE (deref (dense s) (unat k)) (\<lambda>d. Inr (d = i))
       else Inr False)"

definition store :: "'a list \<Rightarrow> nat \<Rightarrow> 'a \<Rightarrow> range_error + 'a list" where
  "store xs i v = (if i < length xs then Inr (xs[i := v]) else Inl RangeUB)"

definition set_add :: "byte \<Rightarrow> FastByteSet \<Rightarrow> range_error + FastByteSet" where
  "set_add i s =
     bindE (set_contains i s) (\<lambda>present.
       if \<not> present
       then bindE (store (dense s) (unat (set_size s)) i) (\<lambda>de.
            bindE (store (sparse s) (unat i) (ucast (set_size s))) (\<lambda>sp.
              Inr \<lparr>set_size = set_size s + 1, sparse = sp, dense = de\<rparr>))
       else Inr s)"

fun set_add_all :: "bytes \<Rightarrow> FastByteSet \<Rightarrow> range_error + FastByteSet" where
  "set_add_all [] s = Inr s"
| "set_add_all (x # xs) s = bindE (set_add x s) (set_add_all xs)"

fun byteset_loop :: "FastByteSet \<Rightarrow> bytes \<Rightarrow> nat \<Rightarrow> range_error + nat option" where
  "byteset_loop s [] ix = Inr None"
| "byteset_loop s (c # cs) ix =
     bindE (set_contains c s) (\<lambda>hit.
       if hit then Inr (Some ix) else byteset_loop s cs (ix + 1))"

definition qfind_first_byte_of_byteset :: "bytes \<Rightarrow> bytes \<Rightarrow> bytes \<Rightarrow> bytes
    \<Rightarrow> range_error + nat option" where
  "qfind_first_byte_of_byteset sp de haystack needles =
     bindE (set_add_all needles (FastByteSet_new sp de)) (\<lambda>s. byteset_loop s haystack 0)"

fun find_first_of_loop :: "('a \<Rightarrow> 'a \<Rightarrow> bool) \<Rightarrow> 'a list \<Rightarrow> 'a list \<Rightarrow> nat \<Rightarrow> nat option" where
  "find_first_of_loop eq [] needles i = None"
| "find_first_of_loop eq (c # cs) needles i =
     (if \<exists>d \<in> set needles. eq c d then Some i else find_first_of_loop eq cs needles (i + 1))"

definition qfind_first_of :: "('a \<Rightarrow> 'a \<Rightarrow> bool) \<Rightarrow> 'a list \<Rightarrow> 'a list \<Rightarrow> nat option" where
  "qfind_first_of eq haystack needles = find_first_of_loop eq haystack needles 0"

definition AsciiCaseSensitive :: "byte \<Rightarrow> byte \<Rightarrow> bool" where
  "AsciiCaseSensitive lhs rhs \<longleftrightarrow> lhs = rhs"

definition AsciiCaseInsensitive :: "byte \<Rightarrow> byte \<Rightarrow> bool" where
  "AsciiCaseInsensitive lhs rhs =
     (let k = lhs XOR rhs in
      if k = 0 then True
      else if k \<noteq> 32 then False
      else let k' = lhs OR rhs in 0x61 \<le> sint k' \<and> sint k' \<le> 0x7a)"

definition qfind_first_byte_of :: "bytes \<Rightarrow> bytes \<Rightarrow> bytes \<Rightarrow> bytes \<Rightarrow> range_error + nat option"
where
  "qfind_first_byte_of sp de haystack needles =
     (if needles = [] \<or> haystack = [] then Inr None
      else if length needles \<ge> 4 \<and> length haystack \<le> 10 \<or>
              length needles \<ge> 16 \<and> length haystack \<le> 64 \<or>
              length needles \<ge> 32
      then qfind_first_byte_of_byteset sp de haystack needles
      else Inr (qfind_first_of AsciiCaseSensitive haystack needles))"

definition caseInsensitiveEqual :: "bytes \<Rightarrow> bytes \<Rightarrow> bool" where
  "caseInsensitiveEqual s t \<longleftrightarrow>
     (if length s \<noteq> length t then False
      else list_all (\<lambda>(a, b). AsciiCaseInsensitive a b) (zip s t))"

subsection \<open>Searching for one element\<close>

text \<open>\<open>std::find\<close> and \<open>memchr\<close>; the index loop of the generic \<open>rfind\<close>.\<close>

fun find_loop :: "'a \<Rightarrow> 'a list \<Rightarrow> nat \<Rightarrow> nat option" where
  "find_loop c [] i = None"
| "find_loop c (x # xs) i = (if x = c then Some i else find_loop c xs (i + 1))"

definition qfind_char :: "'a list \<Rightarrow> 'a \<Rightarrow> nat option" where
  "qfind_char haystack needle = find_loop needle haystack 0"

fun rfind_char_loop :: "'a list \<Rightarrow> 'a \<Rightarrow> nat \<Rightarrow> nat option" where
  "rfind_char_loop hay needle 0 = None"
| "rfind_char_loop hay needle (Suc i) =
     (if hay ! i = needle then Some i else rfind_char_loop hay needle i)"

definition rfind_char :: "'a list \<Rightarrow> 'a \<Rightarrow> nat option" where
  "rfind_char haystack needle = rfind_char_loop haystack needle (length haystack)"

section \<open>Members built on the searches\<close>

definition find_str :: "'a Range \<Rightarrow> 'a list \<Rightarrow> range_error + nat option" where
  "find_str r s = qfind (=) (str r) s"

definition find_str_pos :: "'a Range \<Rightarrow> 'a list \<Rightarrow> nat \<Rightarrow> range_error + nat option" where
  "find_str_pos r s pos =
     (if pos > size' r then Inr None
      else bindE (subpiece r pos npos) (\<lambda>p.
           bindE (qfind (=) (str p) s) (\<lambda>ret.
             Inr (case ret of None \<Rightarrow> None | Some k \<Rightarrow> Some (k + pos)))))"

definition find_char :: "'a Range \<Rightarrow> 'a \<Rightarrow> nat option" where
  "find_char r c = qfind_char (str r) c"

definition find_char_pos :: "'a Range \<Rightarrow> 'a \<Rightarrow> nat \<Rightarrow> range_error + nat option" where
  "find_char_pos r c pos =
     (if pos > size' r then Inr None
      else bindE (subpiece r pos npos) (\<lambda>p.
             Inr (case qfind_char (str p) c of None \<Rightarrow> None | Some k \<Rightarrow> Some (k + pos))))"

definition contains :: "'a Range \<Rightarrow> 'a list \<Rightarrow> range_error + bool" where
  "contains r other = bindE (find_str r other) (\<lambda>k. Inr (k \<noteq> None))"

definition contains_char :: "'a Range \<Rightarrow> 'a \<Rightarrow> bool" where
  "contains_char r c \<longleftrightarrow> find_char r c \<noteq> None"

definition swap :: "'a Range \<Rightarrow> 'a Range \<Rightarrow> 'a Range \<times> 'a Range" where
  "swap l r = (r, l)"

definition startsWith :: "byte Range \<Rightarrow> bytes \<Rightarrow> range_error + bool" where
  "startsWith r other =
     (if size' r \<ge> length other
      then bindE (subpiece r 0 (length other)) (\<lambda>p. Inr (range_eq (str p) other))
      else Inr False)"

definition startsWith_char :: "byte Range \<Rightarrow> byte \<Rightarrow> range_error + bool" where
  "startsWith_char r c = (if \<not> empty r then bindE (front r) (\<lambda>x. Inr (x = c)) else Inr False)"

definition endsWith :: "byte Range \<Rightarrow> bytes \<Rightarrow> range_error + bool" where
  "endsWith r other =
     (if size' r \<ge> length other
      then bindE (subpiece r (size' r - length other) npos) (\<lambda>p. Inr (range_eq (str p) other))
      else Inr False)"

definition endsWith_char :: "byte Range \<Rightarrow> byte \<Rightarrow> range_error + bool" where
  "endsWith_char r c = (if \<not> empty r then bindE (back' r) (\<lambda>x. Inr (x = c)) else Inr False)"

definition removePrefix :: "byte Range \<Rightarrow> bytes \<Rightarrow> range_error + (bool \<times> byte Range)" where
  "removePrefix r prefix =
     bindE (startsWith r prefix) (\<lambda>ok.
       Inr (if ok then (True, r\<lparr>b_it := b_it r + length prefix\<rparr>) else (False, r)))"

definition removePrefix_char :: "byte Range \<Rightarrow> byte \<Rightarrow> range_error + (bool \<times> byte Range)" where
  "removePrefix_char r prefix =
     bindE (startsWith_char r prefix) (\<lambda>ok.
       Inr (if ok then (True, r\<lparr>b_it := b_it r + 1\<rparr>) else (False, r)))"

definition removeSuffix :: "byte Range \<Rightarrow> bytes \<Rightarrow> range_error + (bool \<times> byte Range)" where
  "removeSuffix r suffix =
     bindE (endsWith r suffix) (\<lambda>ok.
       Inr (if ok then (True, r\<lparr>e_it := e_it r - length suffix\<rparr>) else (False, r)))"

definition removeSuffix_char :: "byte Range \<Rightarrow> byte \<Rightarrow> range_error + (bool \<times> byte Range)" where
  "removeSuffix_char r suffix =
     bindE (endsWith_char r suffix) (\<lambda>ok.
       Inr (if ok then (True, r\<lparr>e_it := e_it r - 1\<rparr>) else (False, r)))"

text \<open>
  \<open>std::copy\<close> into the array; the size check of \<open>replaceAt\<close> is an addition of two
  \<open>size_t\<close>, which wraps.
\<close>

definition copy_to :: "'a list \<Rightarrow> 'a list \<Rightarrow> nat \<Rightarrow> range_error + 'a list" where
  "copy_to src m i =
     (if i + length src \<le> length m then Inr (take i m @ src @ drop (i + length src) m)
      else Inl RangeUB)"

definition replaceAt :: "'a Range \<Rightarrow> u64 \<Rightarrow> 'a list \<Rightarrow> range_error + (bool \<times> 'a Range)" where
  "replaceAt r pos replacement =
     (if of_nat (size' r) < pos + of_nat (length replacement) then Inr (False, r)
      else bindE (copy_to replacement (mem r) (b_it r + unat pos)) (\<lambda>m.
             Inr (True, r\<lparr>mem := m\<rparr>)))"

lemma replaceAt_size: "replaceAt r pos xs = Inr (ok, r') \<Longrightarrow> size' r' = size' r"
  by (auto simp: replaceAt_def size'_def bindE_eq_Inr_iff split: if_splits)

text \<open>
  The caller rules out an empty \<open>source\<close> by its check of \<open>dest\<close>; the loop repeats that
  test, so that its position grows in every round.
\<close>

function replaceAll_loop :: "'a list \<Rightarrow> 'a list \<Rightarrow> nat \<Rightarrow> nat \<Rightarrow> 'a Range
    \<Rightarrow> range_error + (nat \<times> 'a Range)" where
  "replaceAll_loop source dest pos num_replaced r =
     (if source = [] \<or> pos > size' r then Inr (num_replaced, r)
      else bindE (find_str_pos r source pos) (\<lambda>found.
             case found of
               None \<Rightarrow> Inr (num_replaced, r)
             | Some k \<Rightarrow>
                 bindE (replaceAt r (of_nat k) dest) (\<lambda>x.
                   replaceAll_loop source dest (pos + length source) (num_replaced + 1) (snd x))))"
  by pat_completeness auto
termination
proof (relation "measure (\<lambda>(_, _, pos, _, r). size' r + 1 - pos)", goal_cases)
  case (2 source dest pos num r found k x)
  then obtain ok r' where x: "x = (ok, r')" by (cases x)
  from 2 show ?case
    unfolding x by (auto dest!: replaceAt_size simp flip: length_greater_0_conv)
qed simp

declare replaceAll_loop.simps [simp del]

definition replaceAll :: "'a Range \<Rightarrow> 'a list \<Rightarrow> 'a list \<Rightarrow> range_error + (nat \<times> 'a Range)" where
  "replaceAll r source dest =
     (if length source \<noteq> length dest then Inl InvalidArgument
      else if dest = [] then Inr (0, r)
      else replaceAll_loop source dest 0 0 r)"

definition split_step_char :: "'a Range \<Rightarrow> 'a \<Rightarrow> 'a Range \<times> 'a Range" where
  "split_step_char r delimiter =
     (let i = (case find_char r delimiter of None \<Rightarrow> e_it r | Some k \<Rightarrow> b_it r + k);
          result = Range_iters (mem r) (b_it r) i
      in (result, r\<lparr>b_it := if i = e_it r then e_it r else i + 1\<rparr>))"

definition split_step :: "'a Range \<Rightarrow> 'a list \<Rightarrow> range_error + ('a Range \<times> 'a Range)" where
  "split_step r delimiter =
     bindE (find_str r delimiter) (\<lambda>i.
       let result = Range_size (mem r) (b_it r) (case i of None \<Rightarrow> size' r | Some k \<Rightarrow> k)
       in Inr (result, r\<lparr>b_it := if e_it result = e_it r then e_it r
                               else e_it result + length delimiter\<rparr>))"

section \<open>The searches find what they promise\<close>

text \<open>
  \<open>matches_at\<close> says that the needle occurs at a position, \<open>is_first\<close> that a search result
  is the first position with a property.
\<close>

definition matches_at :: "('a \<Rightarrow> 'a \<Rightarrow> bool) \<Rightarrow> 'a list \<Rightarrow> 'a list \<Rightarrow> nat \<Rightarrow> bool" where
  "matches_at eq hay needle i \<longleftrightarrow>
     i + length needle \<le> length hay \<and> (\<forall>j < length needle. eq (hay ! (i + j)) (needle ! j))"

definition is_first :: "(nat \<Rightarrow> bool) \<Rightarrow> nat option \<Rightarrow> bool" where
  "is_first P r \<longleftrightarrow> (case r of None \<Rightarrow> \<forall>i. \<not> P i | Some k \<Rightarrow> P k \<and> (\<forall>i < k. \<not> P i))"

lemma is_first_simps [simp]:
  "is_first P None \<longleftrightarrow> (\<forall>i. \<not> P i)"
  "is_first P (Some k) \<longleftrightarrow> P k \<and> (\<forall>i < k. \<not> P i)"
  by (simp_all add: is_first_def)

lemma is_first_unique: "is_first P r \<Longrightarrow> is_first P r' \<Longrightarrow> r = r'"
  by (cases r; cases r') (auto, meson nat_neq_iff)

lemma deref_in [simp]: "i < length xs \<Longrightarrow> deref xs i = Inr (xs ! i)"
  by (simp add: deref_def)

lemma matches_at_0 [simp]: "matches_at eq hay [] i \<longleftrightarrow> i \<le> length hay"
  by (simp add: matches_at_def)

lemma scan_last_spec:
  "i < iEnd \<Longrightarrow> iEnd + m \<le> length hay \<Longrightarrow>
   \<exists>r. scan_last eq hay m l iEnd i = Inr r \<and>
     (case r of
        None \<Rightarrow> \<forall>k. i \<le> k \<and> k < iEnd \<longrightarrow> \<not> eq (hay ! (k + m)) l
      | Some k \<Rightarrow> i \<le> k \<and> k < iEnd \<and> eq (hay ! (k + m)) l \<and>
                  (\<forall>k'. i \<le> k' \<and> k' < k \<longrightarrow> \<not> eq (hay ! (k' + m)) l))"
proof (induction eq hay m l iEnd i rule: scan_last.induct)
  case (1 eq hay m l iEnd i)
  have d: "deref hay (i + m) = Inr (hay ! (i + m))" using "1.prems" by simp
  show ?case
  proof (cases "eq (hay ! (i + m)) l \<or> i + 1 = iEnd")
    case True
    then show ?thesis
      using "1.prems" by (subst scan_last.simps) (auto simp: d le_less_Suc_eq split: option.split)
  next
    case False
    then obtain r where r: "scan_last eq hay m l iEnd (i + 1) = Inr r"
      and c: "case r of
        None \<Rightarrow> \<forall>k. i + 1 \<le> k \<and> k < iEnd \<longrightarrow> \<not> eq (hay ! (k + m)) l
      | Some k \<Rightarrow> i + 1 \<le> k \<and> k < iEnd \<and> eq (hay ! (k + m)) l \<and>
                  (\<forall>k'. i + 1 \<le> k' \<and> k' < k \<longrightarrow> \<not> eq (hay ! (k' + m)) l)"
      using "1.IH" [OF d] "1.prems" by (auto simp: less_diff_conv)
    from r have "scan_last eq hay m l iEnd i = Inr r"
      using False by (subst scan_last.simps) (simp add: d)
    moreover have "i \<le> k \<longleftrightarrow> k = i \<or> i + 1 \<le> k" for k by auto
    ultimately show ?thesis
      using c False by (cases r) auto
  qed
qed

lemma pedestrian_spec:
  "j < length needle \<Longrightarrow> i + length needle \<le> length hay \<Longrightarrow>
   pedestrian eq hay needle i j =
     Inr (\<forall>t. j \<le> t \<and> t < length needle \<longrightarrow> eq (hay ! (i + t)) (needle ! t))"
proof (induction eq hay needle i j rule: pedestrian.induct)
  case (1 eq hay needle i j)
  have d: "deref hay (i + j) = Inr (hay ! (i + j))" "deref needle j = Inr (needle ! j)"
    using "1.prems" by simp_all
  have split: "j \<le> t \<and> t < length needle \<longleftrightarrow> t = j \<or> j + 1 \<le> t \<and> t < length needle" for t
    using "1.prems" by auto
  have "pedestrian eq hay needle i (j + 1) =
      Inr (\<forall>t. j + 1 \<le> t \<and> t < length needle \<longrightarrow> eq (hay ! (i + t)) (needle ! t))"
    if "eq (hay ! (i + j)) (needle ! j)" "j + 1 \<noteq> length needle"
    using "1.IH" [OF d] "1.prems" that by simp
  then show ?case
    by (subst pedestrian.simps) (auto simp: d split)
qed

lemma pedestrian_matches:
  "needle \<noteq> [] \<Longrightarrow> i + length needle \<le> length hay \<Longrightarrow>
   pedestrian eq hay needle i 0 = Inr (matches_at eq hay needle i)"
  by (simp add: pedestrian_spec matches_at_def)

text \<open>A shift is safe when no smaller shift aligns an equivalent element with the last one.\<close>

definition safe_skip :: "('a \<Rightarrow> 'a \<Rightarrow> bool) \<Rightarrow> 'a list \<Rightarrow> nat \<Rightarrow> 'a \<Rightarrow> nat \<Rightarrow> nat \<Rightarrow> bool" where
  "safe_skip eq needle m l s t \<longleftrightarrow>
     (\<forall>u. s \<le> u \<and> u < t \<longrightarrow> u \<le> m \<and> \<not> eq (needle ! (m - u)) l)"

lemma compute_skip_spec:
  "m < length needle \<Longrightarrow>
   \<exists>t. compute_skip eq needle m l s = Inr t \<and> s \<le> t \<and> safe_skip eq needle m l s t"
proof (induction eq needle m l s rule: compute_skip.induct)
  case (1 eq needle m l s)
  have d: "deref needle (m - s) = Inr (needle ! (m - s))" using "1.prems" by simp
  show ?case
  proof (cases "s \<le> m \<and> \<not> eq (needle ! (m - s)) l")
    case True
    then obtain t where "compute_skip eq needle m l (s + 1) = Inr t" "s + 1 \<le> t"
        "safe_skip eq needle m l (s + 1) t"
      using "1.IH" [OF _ d] "1.prems" by auto
    moreover have "s \<le> u \<longleftrightarrow> u = s \<or> s + 1 \<le> u" for u by auto
    ultimately show ?thesis
      using True by (subst compute_skip.simps) (auto simp: d safe_skip_def)
  next
    case False
    then show ?thesis
      by (subst compute_skip.simps) (auto simp: d safe_skip_def)
  qed
qed

text \<open>
  The contract that the searches need of their comparison: it identifies elements up to an
  equivalence. It is what makes the skip of \<open>qfind\<close> sound.
\<close>

locale elem_equiv =
  fixes eq :: "'a \<Rightarrow> 'a \<Rightarrow> bool"
  assumes eq_sym: "eq a b \<Longrightarrow> eq b a"
    and eq_trans: "eq a b \<Longrightarrow> eq b c \<Longrightarrow> eq a c"
begin

lemma no_match_within_skip:
  assumes last: "eq (hay ! (k + m)) (needle ! m)" and m: "m + 1 = length needle"
    and safe: "safe_skip eq needle m (needle ! m) 1 t" and u: "0 < u" "u < t"
  shows "\<not> matches_at eq hay needle (k + u)"
proof
  assume match: "matches_at eq hay needle (k + u)"
  from safe u have le: "u \<le> m" and ne: "\<not> eq (needle ! (m - u)) (needle ! m)"
    by (auto simp: safe_skip_def)
  from match have "eq (hay ! (k + u + (m - u))) (needle ! (m - u))"
    unfolding matches_at_def using m by simp
  then have "eq (hay ! (k + m)) (needle ! (m - u))" using le by simp
  then have "eq (needle ! (m - u)) (needle ! m)"
    using last eq_sym eq_trans by blast
  with ne show False ..
qed

lemma qfind_loop_correct:
  assumes m: "m + 1 = length needle" and l: "l = needle ! m"
    and iEnd: "iEnd + m = length hay"
  shows "skip = 0 \<or> safe_skip eq needle m l 1 skip \<Longrightarrow>
    \<forall>k < i. \<not> matches_at eq hay needle k \<Longrightarrow>
    \<exists>r. qfind_loop eq hay needle m l iEnd skip i = Inr r \<and> is_first (matches_at eq hay needle) r"
proof (induction "iEnd - i" arbitrary: i skip rule: less_induct)
  case less
  have beyond: "\<not> matches_at eq hay needle k" if "iEnd \<le> k" for k
    using that m iEnd by (simp add: matches_at_def)
  show ?case
  proof (cases "i < iEnd")
    case False
    then have "\<not> matches_at eq hay needle k" for k
      using less.prems(2) beyond [of k] by (cases "k < i") auto
    with False show ?thesis
      by (subst qfind_loop.simps) simp
  next
    case True
    have tail: "eq (hay ! (k + m)) l" if "matches_at eq hay needle k" for k
      using that m l by (auto simp: matches_at_def)
    obtain r where r: "scan_last eq hay m l iEnd i = Inr r"
      and c: "case r of
        None \<Rightarrow> \<forall>k. i \<le> k \<and> k < iEnd \<longrightarrow> \<not> eq (hay ! (k + m)) l
      | Some k \<Rightarrow> i \<le> k \<and> k < iEnd \<and> eq (hay ! (k + m)) l \<and>
                  (\<forall>k'. i \<le> k' \<and> k' < k \<longrightarrow> \<not> eq (hay ! (k' + m)) l)"
      using scan_last_spec [OF True, of m hay eq l] iEnd by auto
    show ?thesis
    proof (cases r)
      case None
      have "\<not> matches_at eq hay needle k" for k
        using less.prems(2) beyond [of k] tail [of k] c None by (cases "k < i"; cases "iEnd \<le> k") auto
      with True r None show ?thesis
        by (subst qfind_loop.simps) simp
    next
      case (Some k)
      with c have k: "i \<le> k" "k < iEnd" and lst: "eq (hay ! (k + m)) l"
        and before: "\<forall>k'. i \<le> k' \<and> k' < k \<longrightarrow> \<not> eq (hay ! (k' + m)) l" by auto
      have none: "\<not> matches_at eq hay needle k'" if "k' < k" for k'
        using that before tail [of k'] less.prems(2) by (cases "k' < i") auto
      have ped: "pedestrian eq hay needle k 0 = Inr (matches_at eq hay needle k)"
        using k m iEnd by (intro pedestrian_matches) auto
      show ?thesis
      proof (cases "matches_at eq hay needle k")
        case True
        with \<open>i < iEnd\<close> r Some ped none show ?thesis
          by (subst qfind_loop.simps) auto
      next
        case False
        obtain t where t: "lazy_skip eq needle m l skip = Inr t" "0 < t"
          and safe: "safe_skip eq needle m l 1 t"
          using compute_skip_spec [of m needle eq l 1] less.prems(1) m
          by (cases "skip = 0") (auto simp: lazy_skip_def)
        have "\<not> matches_at eq hay needle k'" if "k' < k + t" for k'
        proof (cases "k' < k \<or> k' = k")
          case True
          then show ?thesis using none False by auto
        next
          case False
          then obtain u where "k' = k + u" "0 < u"
            by (metis less_imp_add_positive nat_neq_iff)
          then show ?thesis
            using no_match_within_skip [of hay k m needle t u] lst safe m l that by auto
        qed
        moreover have "iEnd - (k + t) < iEnd - i" using k t(2) by linarith
        ultimately obtain q where "qfind_loop eq hay needle m l iEnd t (k + t) = Inr q"
          "is_first (matches_at eq hay needle) q"
          using less.hyps [of "k + t" t] safe by auto
        with \<open>i < iEnd\<close> r Some ped False t show ?thesis
          by (subst qfind_loop.simps) simp
      qed
    qed
  qed
qed

lemma qfind_first: "\<exists>r. qfind eq hay needle = Inr r \<and> is_first (matches_at eq hay needle) r"
proof (cases "length hay < length needle \<or> needle = []")
  case True
  then show ?thesis
    by (auto simp: qfind_def Let_def matches_at_def)
next
  case False
  then obtain m where m: "m + 1 = length needle"
    by (cases needle) auto
  with False have "length hay - m + m = length hay" by auto
  with qfind_loop_correct [OF m refl this, of 0 0] False show ?thesis
    by (simp add: qfind_def Let_def flip: m)
qed

end

lemma byte_xor_eq_iff: "(a :: byte) XOR b = c \<longleftrightarrow> b = a XOR c"
  by (metis xor.assoc xor.left_neutral xor_self_eq)

lemma or_xor_32: "(a XOR 32) OR 32 = a OR (32 :: byte)" "a OR (a XOR 32) = a OR (32 :: byte)"
  by (rule bit_eqI, auto simp: bit_or_iff bit_xor_iff)+

lemma insensitive_iff:
  "AsciiCaseInsensitive a b \<longleftrightarrow>
     a = b \<or> b = a XOR 32 \<and> 0x61 \<le> sint (a OR 32) \<and> sint (a OR 32) \<le> 0x7a"
  unfolding AsciiCaseInsensitive_def Let_def byte_xor_eq_iff
  by (auto simp only: xor.right_neutral or_xor_32 split: if_splits)

lemmas insensitive_cases = insensitive_iff or_xor_32 xor.assoc xor_self_eq xor.right_neutral

interpretation sensitive: elem_equiv AsciiCaseSensitive
  by unfold_locales (auto simp: AsciiCaseSensitive_def)

interpretation insensitive: elem_equiv AsciiCaseInsensitive
  by unfold_locales (auto simp only: insensitive_cases)

text \<open>\<open>std::equal_to\<close>, the default comparison of \<open>qfind\<close>.\<close>

interpretation equal_to: elem_equiv "(=)"
  by unfold_locales auto

section \<open>The sparse byte set\<close>

text \<open>
  The invariant relates the set to the initialised prefix of \<open>dense\<close>; the contents of the
  two arrays elsewhere are arbitrary.
\<close>

definition set_inv :: "FastByteSet \<Rightarrow> byte set \<Rightarrow> bool" where
  "set_inv s S \<longleftrightarrow>
     length (sparse s) = 256 \<and> length (dense s) = 256 \<and> unat (set_size s) \<le> 256 \<and>
     distinct (take (unat (set_size s)) (dense s)) \<and> set (take (unat (set_size s)) (dense s)) = S \<and>
     (\<forall>k < unat (set_size s). sparse s ! unat (dense s ! k) = of_nat k)"

lemma set_inv_new: "length sp = 256 \<Longrightarrow> length de = 256 \<Longrightarrow> set_inv (FastByteSet_new sp de) {}"
  by (simp add: set_inv_def FastByteSet_new_def)

lemma ucast_less_u16: "(ucast (k::byte) :: u16) < n \<longleftrightarrow> unat k < unat n"
proof -
  have "unat (ucast k :: u16) = unat k"
    by (simp add: unsigned_ucast_eq take_bit_nat_eq_self_iff less_trans [OF unat_byte_less])
  then show ?thesis by (simp add: word_less_nat_alt)
qed

lemma unat_of_nat_byte: "k < 256 \<Longrightarrow> unat (of_nat k :: byte) = k"
  by (simp add: unat_of_nat take_bit_nat_eq_self_iff)

lemma set_contains_correct:
  assumes "set_inv s S"
  shows "set_contains i s = Inr (i \<in> S)"
proof -
  let ?k = "sparse s ! unat i" and ?n = "unat (set_size s)"
  from assms have len: "length (sparse s) = 256" "length (dense s) = 256" "?n \<le> 256"
    and S: "S = set (take ?n (dense s))"
    and inverse: "k < ?n \<Longrightarrow> sparse s ! unat (dense s ! k) = of_nat k" for k
    by (auto simp: set_inv_def)
  have "i \<in> S \<longleftrightarrow> unat ?k < ?n \<and> dense s ! unat ?k = i"
  proof
    assume "i \<in> S"
    then obtain k where k: "k < ?n" "dense s ! k = i"
      using S len by (auto simp: in_set_conv_nth)
    with inverse [OF k(1)] have "?k = of_nat k" by simp
    with k len show "unat ?k < ?n \<and> dense s ! unat ?k = i"
      by (simp add: unat_of_nat_byte)
  next
    assume "unat ?k < ?n \<and> dense s ! unat ?k = i"
    with S len show "i \<in> S" by (auto simp: in_set_conv_nth)
  qed
  then show ?thesis
    using len by (auto simp: set_contains_def ucast_less_u16)
qed

lemma set_add_correct:
  assumes inv: "set_inv s S"
  shows "\<exists>s'. set_add i s = Inr s' \<and> set_inv s' (insert i S)"
proof (cases "i \<in> S")
  case True
  with inv show ?thesis
    by (simp add: set_add_def set_contains_correct insert_absorb)
next
  case False
  let ?n = "unat (set_size s)"
  let ?s' = "\<lparr>set_size = set_size s + 1, sparse = (sparse s)[unat i := ucast (set_size s)],
      dense = (dense s)[?n := i]\<rparr>"
  from inv have len: "length (sparse s) = 256" "length (dense s) = 256" "?n \<le> 256"
    and dist: "distinct (take ?n (dense s))" and S: "S = set (take ?n (dense s))"
    and inverse: "k < ?n \<Longrightarrow> sparse s ! unat (dense s ! k) = of_nat k" for k
    by (auto simp: set_inv_def)
  have "card (insert i S) \<le> card (UNIV :: byte set)" by (rule card_mono) simp_all
  moreover have "card S = ?n" using S dist len by (simp add: distinct_card)
  ultimately have n: "?n < 256"
    using False S by (simp add: card_word)
  have sz: "unat (set_size s + 1) = ?n + 1"
    using n by (subst unat_plus_if_size) (simp add: word_size)
  have t: "take (?n + 1) ((dense s)[?n := i]) = take ?n (dense s) @ [i]"
    using n len by (simp add: take_Suc_conv_app_nth)
  have idx: "(ucast (set_size s) :: byte) = of_nat ?n"
    by simp
  have fresh: "dense s ! k \<noteq> i" if "k < ?n" for k
    using that False S len by (auto simp: in_set_conv_nth)
  have "sparse ?s' ! unat (dense ?s' ! k) = of_nat k" if "k < ?n + 1" for k
  proof (cases "k = ?n")
    case True
    then show ?thesis using n len idx by simp
  next
    case False
    with that have k: "k < ?n" by simp
    then have "unat i \<noteq> unat (dense s ! k)" using fresh [OF k] by (metis word_unat_eq_iff)
    with inverse [OF k] False show ?thesis by simp
  qed
  moreover have "distinct (take ?n (dense s) @ [i])" "set (take ?n (dense s) @ [i]) = insert i S"
    using dist S False by auto
  ultimately have "set_inv ?s' (insert i S)"
    unfolding set_inv_def FastByteSet.select_convs sz t using len n by simp
  moreover have "set_add i s = Inr ?s'"
    using False n len by (simp add: set_add_def set_contains_correct [OF inv] store_def)
  ultimately show ?thesis by blast
qed

lemma set_add_all_correct:
  "set_inv s S \<Longrightarrow> \<exists>s'. set_add_all xs s = Inr s' \<and> set_inv s' (set xs \<union> S)"
proof (induction xs arbitrary: s S)
  case Nil
  then show ?case by simp
next
  case (Cons x xs)
  obtain s' where s': "set_add x s = Inr s'" "set_inv s' (insert x S)"
    using set_add_correct [OF Cons.prems] by blast
  with Cons.IH [OF s'(2)] show ?case by simp
qed

lemma byteset_loop_correct:
  "set_inv s (set needles) \<Longrightarrow>
   byteset_loop s cs k = Inr (find_first_of_loop AsciiCaseSensitive cs needles k)"
  by (induction cs arbitrary: k) (auto simp: set_contains_correct AsciiCaseSensitive_def)

lemma byteset_correct:
  assumes "length sp = 256" "length de = 256"
  shows "qfind_first_byte_of_byteset sp de hay needles =
    Inr (qfind_first_of AsciiCaseSensitive hay needles)"
  using set_add_all_correct [OF set_inv_new [OF assms], of needles]
  by (auto simp: qfind_first_byte_of_byteset_def qfind_first_of_def byteset_loop_correct)

lemma find_first_of_loop_first:
  "is_first (\<lambda>i. k \<le> i \<and> i - k < length cs \<and> (\<exists>d \<in> set needles. eq (cs ! (i - k)) d))
     (find_first_of_loop eq cs needles k)"
proof (induction cs arbitrary: k)
  case Nil
  then show ?case by simp
next
  case (Cons c cs)
  show ?case
  proof (cases "\<exists>d \<in> set needles. eq c d")
    case True
    then show ?thesis by auto
  next
    case False
    have "(k \<le> i \<and> i - k < length (c # cs) \<and> (\<exists>d \<in> set needles. eq ((c # cs) ! (i - k)) d)) \<longleftrightarrow>
        (k + 1 \<le> i \<and> i - (k + 1) < length cs \<and> (\<exists>d \<in> set needles. eq (cs ! (i - (k + 1))) d))"
      for i
      using False by (cases "i = k") (auto simp: nth_Cons')
    with Cons.IH [of "k + 1"] False show ?thesis by simp
  qed
qed

lemma find_first_of_loop_none: "find_first_of_loop eq hay [] k = None"
  by (induction hay arbitrary: k) simp_all

lemma qfind_first_of_first:
  "is_first (\<lambda>i. i < length hay \<and> (\<exists>d \<in> set needles. eq (hay ! i) d)) (qfind_first_of eq hay needles)"
  using find_first_of_loop_first [of 0 hay needles eq] by (simp add: qfind_first_of_def)

text \<open>The element searches, as the first occurrence.\<close>

lemma find_loop_first:
  "is_first (\<lambda>i. k \<le> i \<and> i - k < length xs \<and> xs ! (i - k) = c) (find_loop c xs k)"
proof (induction xs arbitrary: k)
  case Nil
  then show ?case by simp
next
  case (Cons x xs)
  show ?case
  proof (cases "x = c")
    case True
    then show ?thesis by auto
  next
    case False
    have "(k \<le> i \<and> i - k < length (x # xs) \<and> (x # xs) ! (i - k) = c) \<longleftrightarrow>
        (k + 1 \<le> i \<and> i - (k + 1) < length xs \<and> xs ! (i - (k + 1)) = c)" for i
      using False by (cases "i = k") (auto simp: nth_Cons')
    with Cons.IH [of "k + 1"] False show ?thesis by simp
  qed
qed

lemma qfind_char_first: "is_first (\<lambda>i. i < length hay \<and> hay ! i = c) (qfind_char hay c)"
  using find_loop_first [of 0 hay c] by (simp add: qfind_char_def)

end
