(* ===== verification/Acc_Range_Correct.thy ===== *)
theory Acc_Range_Correct
  imports Acc_Range
begin

text \<open>
  The contract of \<open>Range\<close>: its members are list operations on the elements a range
  denotes and keep both iterators inside the array, comparison is lexicographic, and the
  searches return the first occurrence. The theory also records where \<open>rfind\<close>,
  \<open>replaceAt\<close> and \<open>replaceAll\<close> do not do what their documentation says.
\<close>

section \<open>Well-formed ranges as lists\<close>

text \<open>Both iterators point into the array, which is no larger than \<open>PTRDIFF_MAX\<close>.\<close>

definition wf_range :: "'a Range \<Rightarrow> bool" where
  "wf_range r \<longleftrightarrow> b_it r \<le> e_it r \<and> e_it r \<le> length (mem r) \<and> length (mem r) < 2 ^ 63"

named_theorems range_defs

declare wf_range_def [range_defs] str_def [range_defs] size'_def [range_defs]
  advance_def [range_defs] subtract_def [range_defs] pop_front_def [range_defs]
  pop_back_def [range_defs] subpiece_def [range_defs] Range_size_def [range_defs]
  Range_iters_def [range_defs] front_def [range_defs] back'_def [range_defs]
  value_before_def [range_defs] at_def [range_defs] empty_def [range_defs] clear_def [range_defs]

lemma length_str: "wf_range r \<Longrightarrow> length (str r) = size' r"
  by (auto simp: range_defs)

lemma size_bound: "wf_range r \<Longrightarrow> size' r < 2 ^ 63"
  by (auto simp: range_defs)

lemma advance_list:
  "wf_range r \<Longrightarrow> map_sum id str (advance n r) =
     (if n \<le> length (str r) then Inr (drop n (str r)) else Inl OutOfRange)"
  by (auto simp: range_defs drop_take add.commute)

lemma subtract_list:
  "wf_range r \<Longrightarrow> map_sum id str (subtract n r) =
     (if n \<le> length (str r) then Inr (take (length (str r) - n) (str r)) else Inl OutOfRange)"
  by (auto simp: length_str) (auto simp: range_defs min_def add.commute)

lemma pop_front_list:
  "wf_range r \<Longrightarrow> map_sum id str (pop_front r) = (if str r = [] then Inl RangeUB else Inr (tl (str r)))"
  by (auto simp: range_defs drop_Suc tl_take tl_drop)

lemma pop_back_list:
  "wf_range r \<Longrightarrow> map_sum id str (pop_back r) =
     (if str r = [] then Inl RangeUB else Inr (butlast (str r)))"
  by (auto simp: range_defs butlast_take)

lemma front_list:
  "wf_range r \<Longrightarrow> front r = (if str r = [] then Inl RangeUB else Inr (hd (str r)))"
  by (auto simp: range_defs hd_drop_conv_nth)

lemma back_list:
  "wf_range r \<Longrightarrow> back' r = (if str r = [] then Inl RangeUB else Inr (last (str r)))"
  by (auto simp: range_defs last_conv_nth)

lemma at_list:
  "wf_range r \<Longrightarrow> at r i = (if i < length (str r) then Inr (str r ! i) else Inl OutOfRange)"
  by (auto simp: range_defs)

lemma subpiece_list:
  "wf_range r \<Longrightarrow> map_sum id str (subpiece r first n) =
     (if first \<le> length (str r) then Inr (take n (drop first (str r))) else Inl OutOfRange)"
  by (auto simp: range_defs drop_take add.commute min_def)

text \<open>Every member that returns a range returns a well-formed one.\<close>

lemma wf_members:
  "wf_range r \<Longrightarrow> advance n r = Inr r' \<Longrightarrow> wf_range r'"
  "wf_range r \<Longrightarrow> subtract n r = Inr r' \<Longrightarrow> wf_range r'"
  "wf_range r \<Longrightarrow> pop_front r = Inr r' \<Longrightarrow> wf_range r'"
  "wf_range r \<Longrightarrow> pop_back r = Inr r' \<Longrightarrow> wf_range r'"
  "wf_range r \<Longrightarrow> subpiece r first k = Inr r' \<Longrightarrow> wf_range r'"
  by (auto simp: range_defs split: if_splits)

section \<open>Comparison\<close>

lemma traits_compare_lex:
  defines "c \<equiv> \<lambda>xs ys. let r = traits_compare xs ys (min (length xs) (length ys)) in
     if r = 0 \<and> length xs \<noteq> length ys then (if length xs < length ys then - 1 else 1) else r"
  shows "(c xs ys < 0 \<longleftrightarrow> ord_class.lexordp xs ys) \<and> (c xs ys = 0 \<longleftrightarrow> xs = ys)"
proof (induction xs arbitrary: ys)
  case Nil
  then show ?case by (cases ys) (auto simp: c_def)
next
  case (Cons x xs)
  show ?case
  proof (cases ys)
    case Nil
    then show ?thesis by (simp add: c_def)
  next
    case (Cons y ys')
    have "c (x # xs) (y # ys') = (if x < y then - 1 else if y < x then 1 else c xs ys')"
      by (auto simp: c_def Let_def)
    with Cons.IH [of ys'] show ?thesis
      unfolding \<open>ys = y # ys'\<close> by (auto simp: less_le_not_le)
  qed
qed

lemma size_difference_sign:
  assumes "m < 2 ^ 63" "n < 2 ^ 63" "m \<noteq> n"
  shows "uint (drop_bit 63 (of_nat n - of_nat m :: u64)) * 2 - 1 = (if m < n then - 1 else 1)"
proof -
  have u: "uint (of_nat k :: u64) = int k" if "k < 2 ^ 63" for k
    using that by (simp add: uint_nat unat_of_nat take_bit_nat_eq_self_iff)
  have "uint (drop_bit 63 (of_nat n - of_nat m :: u64)) = ((int n - int m) mod 2 ^ 64) div 2 ^ 63"
    by (subst unsigned_drop_bit_eq)
      (simp add: drop_bit_eq_div [of _ "_ :: int"] take_bit_eq_mod uint_word_ariths
        u [OF assms(1)] u [OF assms(2)])
  also have "\<dots> = (if m < n then 0 else 1)"
  proof (cases "m < n")
    case True
    then show ?thesis using assms by (simp add: zmod_trivial_iff div_pos_pos_trivial)
  next
    case False
    have "(int n - int m) mod 2 ^ 64 = (int n - int m + 2 ^ 64) mod 2 ^ 64" by simp
    also have "\<dots> = int n - int m + 2 ^ 64"
      using False assms by (intro mod_pos_pos_trivial) auto
    finally show ?thesis using False assms by (simp add: div_pos_geq)
  qed
  finally show ?thesis by simp
qed

lemma compare_eq:
  assumes "length xs < 2 ^ 63" "length ys < 2 ^ 63"
  shows "compare xs ys =
    (let r = traits_compare xs ys (min (length xs) (length ys)) in
     if r = 0 \<and> length xs \<noteq> length ys then (if length xs < length ys then - 1 else 1) else r)"
proof -
  have u: "unat (of_nat k :: u64) = k" if "k < 2 ^ 63" for k
    using that by (simp add: unat_of_nat take_bit_nat_eq_self_iff)
  have "unat (min (of_nat (length xs)) (of_nat (length ys)) :: u64) = min (length xs) (length ys)"
    using assms by (simp add: min_def word_le_nat_alt u)
  moreover have "(of_nat (length xs) :: u64) = of_nat (length ys) \<longleftrightarrow> length xs = length ys"
    using assms by (metis u)
  ultimately show ?thesis
    using size_difference_sign [of "length xs" "length ys"] assms
    by (simp add: compare_def Let_def)
qed

lemma compare_lex:
  assumes "length xs < 2 ^ 63" "length ys < 2 ^ 63"
  shows "compare xs ys < 0 \<longleftrightarrow> ord_class.lexordp xs ys" "compare xs ys = 0 \<longleftrightarrow> xs = ys"
  unfolding compare_eq [OF assms] using traits_compare_lex [of xs ys] by (simp_all add: Let_def)

lemma compare_greater:
  assumes "length xs < 2 ^ 63" "length ys < 2 ^ 63"
  shows "0 < compare xs ys \<longleftrightarrow> ord_class.lexordp ys xs"
proof -
  have "0 < compare xs ys \<longleftrightarrow> \<not> ord_class.lexordp xs ys \<and> xs \<noteq> ys"
    using compare_lex [OF assms] by linarith
  also have "\<dots> \<longleftrightarrow> ord_class.lexordp ys xs"
    using lexordp_linear [of xs ys] lexordp_antisym [of xs ys] lexordp_irreflexive' by metis
  finally show ?thesis .
qed

lemma range_eq_iff: "length xs < 2 ^ 63 \<Longrightarrow> range_eq xs ys \<longleftrightarrow> xs = ys"
  by (cases "length xs = length ys") (auto simp: range_eq_def compare_lex)

section \<open>Prefixes, suffixes and tokens\<close>

lemma subpiece_cases:
  assumes "wf_range r" "first \<le> size' r"
  obtains p where "subpiece r first k = Inr p" "wf_range p" "str p = take k (drop first (str r))"
  using assms subpiece_list [OF assms(1), of first k] wf_members(5) [OF assms(1), of first k]
  by (cases "subpiece r first k") (auto simp: length_str)

lemma startsWith_list:
  assumes "wf_range r"
  shows "startsWith r xs = Inr (take (length xs) (str r) = xs)"
proof (cases "length xs \<le> size' r")
  case True
  obtain p where "subpiece r 0 (length xs) = Inr p" "wf_range p" "str p = take (length xs) (str r)"
    using subpiece_cases [OF assms, of 0 "length xs"] by auto
  moreover from \<open>wf_range p\<close> have "length (str p) < 2 ^ 63"
    using size_bound [of p] by (simp add: length_str)
  ultimately show ?thesis
    using True by (simp add: startsWith_def range_eq_iff)
next
  case False
  then have "take (length xs) (str r) \<noteq> xs"
    using length_str [OF assms] by (metis length_take min.cobounded1)
  with False show ?thesis by (simp add: startsWith_def)
qed

lemma endsWith_list:
  assumes "wf_range r"
  shows "endsWith r xs = Inr (length xs \<le> length (str r) \<and>
    drop (length (str r) - length xs) (str r) = xs)"
proof (cases "length xs \<le> size' r")
  case True
  have "size' r < 2 ^ 63" by (rule size_bound [OF assms])
  then have "take npos (drop (size' r - length xs) (str r)) = drop (size' r - length xs) (str r)"
    by (simp add: npos_def length_str [OF assms])
  then obtain p where "subpiece r (size' r - length xs) npos = Inr p" "wf_range p"
      "str p = drop (size' r - length xs) (str r)"
    using subpiece_cases [OF assms, of "size' r - length xs" npos] by auto
  moreover from \<open>wf_range p\<close> have "length (str p) < 2 ^ 63"
    using size_bound [of p] by (simp add: length_str)
  ultimately show ?thesis
    using True by (simp add: endsWith_def range_eq_iff length_str [OF assms])
qed (simp add: endsWith_def length_str [OF assms])

lemma removePrefix_list:
  assumes "wf_range r"
  shows "map_sum id (map_prod id str) (removePrefix r xs) =
    Inr (if take (length xs) (str r) = xs then (True, drop (length xs) (str r)) else (False, str r))"
  unfolding removePrefix_def startsWith_list [OF assms]
  by (auto simp: str_def drop_take add.commute)

lemma removeSuffix_list:
  assumes "wf_range r"
  shows "map_sum id (map_prod id str) (removeSuffix r xs) =
    Inr (if length xs \<le> length (str r) \<and> drop (length (str r) - length xs) (str r) = xs
         then (True, take (length (str r) - length xs) (str r)) else (False, str r))"
  unfolding removeSuffix_def endsWith_list [OF assms]
  using assms by (auto simp: length_str) (auto simp: range_defs min_def add.commute)

text \<open>The tokens of \<open>split_step\<close>: what precedes the first delimiter, and what follows it.\<close>

definition split_at :: "nat option \<Rightarrow> nat \<Rightarrow> 'a list \<Rightarrow> 'a list \<times> 'a list" where
  "split_at k n xs = (case k of None \<Rightarrow> (xs, []) | Some i \<Rightarrow> (take i xs, drop (i + n) xs))"

lemma str_take:
  "wf_range r \<Longrightarrow> i \<le> size' r \<Longrightarrow>
   str \<lparr>mem = mem r, b_it = b_it r, e_it = b_it r + i\<rparr> = take i (str r)"
  by (auto simp: range_defs min_def)

lemma str_whole [simp]:
  "wf_range r \<Longrightarrow> b_it r + size' r = e_it r"
  "str \<lparr>mem = mem r, b_it = b_it r, e_it = e_it r\<rparr> = str r"
  "str (r\<lparr>b_it := e_it r\<rparr>) = []"
  by (auto simp: range_defs)

lemma str_drop [simp]:
  "str (r\<lparr>b_it := b_it r + i\<rparr>) = drop i (str r)"
  "str (r\<lparr>b_it := b_it r + i + n\<rparr>) = drop (i + n) (str r)"
  "str (r\<lparr>b_it := Suc (b_it r + i)\<rparr>) = drop (Suc i) (str r)"
  by (simp_all add: str_def drop_take ac_simps)

lemma split_step_list:
  assumes "wf_range r"
  shows "\<exists>k. is_first (matches_at (=) (str r) d) k \<and>
    map_sum id (map_prod str str) (split_step r d) = Inr (split_at k (length d) (str r))"
proof -
  obtain k where k: "qfind (=) (str r) d = Inr k" "is_first (matches_at (=) (str r) d) k"
    using equal_to.qfind_first by blast
  then have "\<forall>i. k = Some i \<longrightarrow> i + length d \<le> length (str r)"
    by (auto simp: matches_at_def)
  moreover have "k = None \<or> (\<exists>i. k = Some i)" by (cases k) auto
  ultimately have "map_sum id (map_prod str str) (split_step r d) = Inr (split_at k (length d) (str r))"
    using assms k(1) length_str [OF assms]
    by (auto simp: split_step_def find_str_def split_at_def Range_size_def str_take Let_def)
      (auto simp: size'_def)
  with k(2) show ?thesis by blast
qed

lemma split_step_char_list:
  assumes "wf_range r"
  shows "map_prod str str (split_step_char r c) = split_at (qfind_char (str r) c) 1 (str r)"
proof (cases "qfind_char (str r) c")
  case None
  then show ?thesis
    by (simp add: split_step_char_def find_char_def split_at_def Range_iters_def Let_def)
next
  case (Some i)
  then have "i < size' r"
    using qfind_char_first [of "str r" c] length_str [OF assms] by auto
  with assms Some show ?thesis
    by (auto simp: split_step_char_def find_char_def split_at_def Range_iters_def str_take Let_def
        size'_def)
qed

section \<open>Replacement\<close>

lemma copy_to_in: "i + length xs \<le> length m \<Longrightarrow>
    copy_to xs m i = Inr (take i m @ xs @ drop (i + length xs) m)"
  by (simp add: copy_to_def)

lemma str_overwrite:
  assumes "b + p + length xs \<le> e" "e \<le> length m"
  shows "take (e - b) (drop b (take (b + p) m @ xs @ drop (b + p + length xs) m)) =
    take p (take (e - b) (drop b m)) @ xs @ drop (p + length xs) (take (e - b) (drop b m))"
proof -
  have "drop b (take (b + p) m @ xs @ drop (b + p + length xs) m) =
      take p (drop b m) @ xs @ drop (b + p + length xs) m"
    using assms by (simp add: drop_take)
  also have "take (e - b) \<dots> = take p (drop b m) @ xs @
      take (e - b - p - length xs) (drop (b + p + length xs) m)"
    using assms by simp
  also have "take (e - b - p - length xs) (drop (b + p + length xs) m) =
      drop (p + length xs) (take (e - b) (drop b m))"
    by (simp add: drop_take ac_simps)
  also have "take p (drop b m) = take p (take (e - b) (drop b m))"
    using assms by (simp add: min_absorb1)
  finally show ?thesis .
qed

lemma replaceAt_list:
  assumes wf: "wf_range r" and sum: "unat pos + length xs < 2 ^ 64"
  shows "map_sum id (map_prod id str) (replaceAt r pos xs) =
    Inr (if unat pos + length xs \<le> length (str r)
         then (True, take (unat pos) (str r) @ xs @ drop (unat pos + length xs) (str r))
         else (False, str r))"
proof -
  have "unat (pos + of_nat (length xs)) = unat pos + length xs"
    using sum by (subst unat_add_lem [THEN iffD1]) (simp_all add: unat_of_nat take_bit_nat_eq_self_iff)
  moreover have "unat (of_nat (size' r) :: u64) = size' r"
    using size_bound [OF wf] by (simp add: unat_of_nat take_bit_nat_eq_self_iff)
  ultimately have "of_nat (size' r) < pos + of_nat (length xs) \<longleftrightarrow> length (str r) < unat pos + length xs"
    using length_str [OF wf] by (simp add: word_less_nat_alt)
  then show ?thesis
    using wf length_str [OF wf] str_overwrite [of "b_it r" "unat pos" xs "e_it r" "mem r"]
    by (auto simp: replaceAt_def copy_to_in wf_range_def size'_def str_def [of r])
      (simp add: str_def)
qed

lemma replaceAt_wraps:
  assumes wf: "wf_range r" and wrap: "2 ^ 64 \<le> unat pos + length xs"
  shows "replaceAt r pos xs =
    (if length (str r) < (unat pos + length xs) mod 2 ^ 64 then Inr (False, r) else Inl RangeUB)"
proof -
  have "unat (pos + of_nat (length xs)) = (unat pos + length xs) mod 2 ^ 64"
    by (simp add: unat_word_ariths unat_of_nat take_bit_eq_mod mod_add_right_eq)
  moreover have "unat (of_nat (size' r) :: u64) = size' r"
    using size_bound [OF wf] by (simp add: unat_of_nat take_bit_nat_eq_self_iff)
  ultimately have "of_nat (size' r) < pos + of_nat (length xs) \<longleftrightarrow>
      length (str r) < (unat pos + length xs) mod 2 ^ 64"
    using length_str [OF wf] by (simp add: word_less_nat_alt)
  moreover have "\<not> b_it r + unat pos + length xs \<le> length (mem r)"
    using wrap wf by (simp add: wf_range_def)
  ultimately show ?thesis
    by (simp add: replaceAt_def copy_to_def)
qed

lemma replaceAt_frame:
  "replaceAt r pos xs = Inr (ok, r') \<Longrightarrow>
   b_it r' = b_it r \<and> e_it r' = e_it r \<and> length (mem r') = length (mem r)"
  by (auto simp: replaceAt_def copy_to_def bindE_eq_Inr_iff split: if_splits)

lemma replaceAt_wf: "wf_range r \<Longrightarrow> replaceAt r pos xs = Inr (ok, r') \<Longrightarrow> wf_range r'"
  by (auto simp: wf_range_def dest: replaceAt_frame)

lemma find_str_pos_first:
  assumes "wf_range r" "pos \<le> size' r"
  obtains k where "find_str_pos r xs pos = Inr k"
    "\<forall>i. k = Some i \<longrightarrow> pos \<le> i \<and> matches_at (=) (str r) xs i"
proof -
  have "size' r < 2 ^ 63" by (rule size_bound [OF assms(1)])
  then have "take npos (drop pos (str r)) = drop pos (str r)"
    by (simp add: npos_def length_str [OF assms(1)])
  then obtain p where p: "subpiece r pos npos = Inr p" "str p = drop pos (str r)"
    using subpiece_cases [OF assms, of npos] by auto
  obtain k where k: "qfind (=) (str p) xs = Inr k" "is_first (matches_at (=) (str p) xs) k"
    using equal_to.qfind_first by blast
  have shift: "matches_at (=) (str r) xs (i + pos)" if "matches_at (=) (str p) xs i" for i
    using that assms(2) length_str [OF assms(1)] unfolding p(2)
    by (auto simp: matches_at_def ac_simps)
  show thesis
  proof (rule that)
    show "find_str_pos r xs pos = Inr (map_option (\<lambda>i. i + pos) k)"
      using assms(2) p(1) k(1) by (cases k) (simp_all add: find_str_pos_def)
    show "\<forall>i. map_option (\<lambda>i. i + pos) k = Some i \<longrightarrow> pos \<le> i \<and> matches_at (=) (str r) xs i"
      using k(2) shift by (cases k) auto
  qed
qed

text \<open>
  \<open>replaceAll\<close> ends, never writes outside the range and keeps its bounds, for every
  well-formed range and every pair of equally long patterns.
\<close>

lemma replaceAll_loop_safe:
  "wf_range r \<Longrightarrow> length source = length dest \<Longrightarrow>
   \<exists>k r'. replaceAll_loop source dest pos n r = Inr (k, r') \<and> wf_range r' \<and>
     b_it r' = b_it r \<and> e_it r' = e_it r"
proof (induction source dest pos n r rule: replaceAll_loop.induct)
  case (1 source dest pos n r)
  show ?case
  proof (cases "source = [] \<or> pos > size' r")
    case True
    then show ?thesis
      using "1.prems"(1) by (subst replaceAll_loop.simps) simp
  next
    case False
    then have "pos \<le> size' r" by simp
    then obtain f where f: "find_str_pos r source pos = Inr f"
      and hit: "\<forall>i. f = Some i \<longrightarrow> pos \<le> i \<and> matches_at (=) (str r) source i"
      using find_str_pos_first [OF "1.prems"(1)] by blast
    show ?thesis
    proof (cases f)
      case None
      then show ?thesis
        using "1.prems"(1) False f by (subst replaceAll_loop.simps) simp
    next
      case (Some i)
      with hit have i: "i + length dest \<le> size' r"
        using "1.prems" by (auto simp: matches_at_def length_str)
      moreover have "size' r < 2 ^ 63" by (rule size_bound [OF "1.prems"(1)])
      ultimately have "unat (of_nat i :: u64) + length dest < 2 ^ 64"
        by (simp add: unat_of_nat take_bit_nat_eq_self_iff)
      then obtain ok r' where r': "replaceAt r (of_nat i) dest = Inr (ok, r')"
        using replaceAt_list [OF "1.prems"(1), of "of_nat i" dest]
        by (cases "replaceAt r (of_nat i) dest") auto
      then have "wf_range r'" "b_it r' = b_it r" "e_it r' = e_it r"
        using replaceAt_wf [OF "1.prems"(1)] replaceAt_frame by blast+
      with "1.IH" [OF False f Some r'] "1.prems"(2) show ?thesis
        using False f Some r' by (subst replaceAll_loop.simps) simp
    qed
  qed
qed

section \<open>The last occurrence\<close>

lemma deref_int_in [simp]: "0 \<le> i \<Longrightarrow> nat i < length xs \<Longrightarrow> deref_int xs i = Inr (xs ! nat i)"
  by (simp add: deref_int_def)

lemma rscan_last_total:
  "0 \<le> i \<Longrightarrow> nat i + m < length hay \<Longrightarrow> \<exists>r. rscan_last eq hay m l i = Inr r"
proof (induction eq hay m l i rule: rscan_last.induct)
  case (1 eq hay m l i)
  then have d: "deref_int hay (i + int m) = Inr (hay ! nat (i + int m))"
    by (simp add: nat_add_distrib)
  show ?case
    using "1.IH" [OF d] "1.prems" by (subst rscan_last.simps) (auto simp: d)
qed

lemma compute_rskip_total:
  "0 \<le> i \<Longrightarrow> nat i + m < length hay \<Longrightarrow> \<exists>t. compute_rskip eq hay i m l s = Inr t"
proof (induction eq hay i m l s rule: compute_rskip.induct)
  case (1 eq hay i m l s)
  have d: "\<exists>c. deref_int hay (i + (int m - int s)) = Inr c" if "s \<le> m"
    using that "1.prems" by (simp add: deref_int_def deref_def nat_add_distrib)
  show ?case
  proof (cases "s \<le> m")
    case True
    then obtain c where c: "deref_int hay (i + (int m - int s)) = Inr c" using d by blast
    with "1.IH" [OF True c] "1.prems" True show ?thesis
      by (subst compute_rskip.simps) auto
  qed (subst compute_rskip.simps, simp)
qed

lemma rfind_loop_sound:
  assumes "m + 1 = length needle"
  shows "i + int (length needle) \<le> int (length hay) \<Longrightarrow>
    \<exists>r. rfind_loop eq hay needle m l s i = Inr r \<and>
      (case r of None \<Rightarrow> True | Some k \<Rightarrow> matches_at eq hay needle k)"
proof (induction "nat (i + 1)" arbitrary: i s rule: less_induct)
  case less
  show ?case
  proof (cases "0 \<le> i")
    case True
    then have room: "nat i + m < length hay" using less.prems assms by linarith
    then obtain r where r: "rscan_last eq hay m l i = Inr r"
      using rscan_last_total [OF True room, of eq l] by auto
    show ?thesis
    proof (cases r)
      case None
      with True r show ?thesis by (subst rfind_loop.simps) simp
    next
      case (Some k)
      with r True have k: "0 \<le> k" "k \<le> i" using rscan_last_bounds [of eq hay m l i k] by auto
      then have "nat k + m < length hay" using room by linarith
      have ped: "pedestrian eq hay needle (nat k) 0 = Inr (matches_at eq hay needle (nat k))"
        using k less.prems assms by (intro pedestrian_matches) auto
      show ?thesis
      proof (cases "matches_at eq hay needle (nat k)")
        case True
        with \<open>0 \<le> i\<close> r Some ped show ?thesis by (subst rfind_loop.simps) simp
      next
        case False
        obtain t where t: "lazy_rskip eq hay k m l s = Inr t"
          using compute_rskip_total [OF k(1), of m hay eq l 1] \<open>nat k + m < length hay\<close>
          by (cases "s = 0") (auto simp: lazy_rskip_def simp del: One_nat_def)
        then have "0 < t" by (rule lazy_rskip_pos)
        then have "nat (k - int t + 1) < nat (i + 1)"
          "k - int t + int (length needle) \<le> int (length hay)"
          using k less.prems by auto
        then obtain q where "rfind_loop eq hay needle m l t (k - int t) = Inr q"
          "case q of None \<Rightarrow> True | Some k \<Rightarrow> matches_at eq hay needle k"
          using less.hyps by blast
        with True r Some ped False t show ?thesis
          by (subst rfind_loop.simps) simp
      qed
    qed
  next
    case False
    then show ?thesis by (subst rfind_loop.simps) simp
  qed
qed

lemma rfind_sound_occurrence:
  "\<exists>r. rfind eq hay needle = Inr r \<and>
     (case r of None \<Rightarrow> True | Some k \<Rightarrow> matches_at eq hay needle k)"
proof (cases "length hay < length needle \<or> needle = []")
  case True
  then show ?thesis by (auto simp: rfind_def Let_def)
next
  case False
  then obtain m where m: "m + 1 = length needle" by (cases needle) auto
  with rfind_loop_sound [OF m, of "int (length hay) - int (length needle)" hay eq] False
  show ?thesis by (simp add: rfind_def Let_def flip: m)
qed

section \<open>Properties\<close>

text \<open>C3: \<open>qfind\<close> reads only inside haystack and needle, ends, and returns the first position
  at which the needle occurs (or \<open>npos\<close> when it occurs nowhere), both under equality and
  under ASCII case-insensitive comparison; the lazily computed skip loses no occurrence.\<close>

theorem range_qfind_first_occurrence:
  "(\<exists>r. qfind (=) hay needle = Inr r \<and> is_first (matches_at (=) hay needle) r) \<and>
   (\<exists>r. qfind AsciiCaseInsensitive text pat = Inr r \<and>
      is_first (matches_at AsciiCaseInsensitive text pat) r)"
  using equal_to.qfind_first insensitive.qfind_first by blast

text \<open>C31: \<open>rfind\<close> reads only inside its arguments and ends, and a position it returns is an
  occurrence. It is not complete: the skip, which it computes from the haystack at the first
  mismatch, is reused at later mismatches, so that it reports \<open>npos\<close> for \<open>ba\<close> in
  \<open>baaca\<close>, where the needle occurs at position 0.\<close>

theorem range_rfind_sound_incomplete:
  "(\<exists>r. rfind eq hay needle = Inr r \<and>
      (case r of None \<Rightarrow> True | Some k \<Rightarrow> matches_at eq hay needle k)) \<and>
   rfind (=) ''baaca'' ''ba'' = Inr None \<and>
   matches_at (=) ''baaca'' ''ba'' 0"
proof -
  have "rfind (=) ''baaca'' ''ba'' = Inr None"
    by code_simp
  moreover have "matches_at (=) ''baaca'' ''ba'' 0"
    by (simp add: matches_at_def less_Suc_eq)
  ultimately show ?thesis using rfind_sound_occurrence by blast
qed

text \<open>C29: \<open>find_first_of\<close> on bytes returns the first position holding one of the needles,
  whatever the uninitialised arrays of the sparse byte set contain and whichever of the two
  algorithms the size thresholds select; no access leaves the arrays.\<close>

theorem range_find_first_of_any_memory:
  assumes "length sp = 256" "length de = 256"
  shows "\<exists>r. qfind_first_byte_of sp de hay needles = Inr r \<and>
    is_first (\<lambda>i. i < length hay \<and> hay ! i \<in> set needles) r"
proof -
  have "qfind_first_byte_of sp de hay needles = Inr (qfind_first_of AsciiCaseSensitive hay needles)"
    by (auto simp: qfind_first_byte_of_def byteset_correct [OF assms] qfind_first_of_def
        find_first_of_loop_none)
  with qfind_first_of_first [of hay needles AsciiCaseSensitive] show ?thesis
    by (simp add: AsciiCaseSensitive_def)
qed

theorem range_find_first_of_any_memory_witness:
  "\<exists>r. qfind_first_byte_of (replicate 256 7) (replicate 256 9) (lit ''key=value'') (lit '';=,&'') = Inr r \<and>
    is_first (\<lambda>i. i < length (lit ''key=value'') \<and> lit ''key=value'' ! i \<in> set (lit '';=,&'')) r"
  using range_find_first_of_any_memory [of "replicate 256 7" "replicate 256 9"] by simp

text \<open>C12: The members of a well-formed range are the list operations on the elements it
  denotes, errors included: \<open>advance\<close> and \<open>subtract\<close> past the size, \<open>subpiece\<close> and \<open>at\<close> out
  of range throw, and the token splitting returns what precedes and follows the first
  delimiter.\<close>

theorem range_refines_list:
  assumes wf: "wf_range r"
  shows "map_sum id str (advance n r) =
      (if n \<le> length (str r) then Inr (drop n (str r)) else Inl OutOfRange) \<and>
    map_sum id str (subtract n r) =
      (if n \<le> length (str r) then Inr (take (length (str r) - n) (str r)) else Inl OutOfRange) \<and>
    map_sum id str (subpiece r first k) =
      (if first \<le> length (str r) then Inr (take k (drop first (str r))) else Inl OutOfRange) \<and>
    at r i = (if i < length (str r) then Inr (str r ! i) else Inl OutOfRange) \<and>
    map_sum id (map_prod id str) (removePrefix r xs) =
      Inr (if take (length xs) (str r) = xs then (True, drop (length xs) (str r))
           else (False, str r)) \<and>
    map_sum id (map_prod id str) (removeSuffix r xs) =
      Inr (if length xs \<le> length (str r) \<and> drop (length (str r) - length xs) (str r) = xs
           then (True, take (length (str r) - length xs) (str r)) else (False, str r)) \<and>
    map_prod str str (split_step_char r c) = split_at (qfind_char (str r) c) 1 (str r) \<and>
    (\<exists>m. is_first (matches_at (=) (str r) d) m \<and>
       map_sum id (map_prod str str) (split_step r d) = Inr (split_at m (length d) (str r)))"
  using advance_list [OF wf] subtract_list [OF wf] subpiece_list [OF wf] at_list [OF wf]
    removePrefix_list [OF wf] removeSuffix_list [OF wf] split_step_char_list [OF wf]
    split_step_list [OF wf] by blast

theorem range_refines_list_witness:
  "map_sum id str (advance 2 (Range_string (lit ''buffer''))) = Inr (lit ''ffer'')"
proof -
  have "wf_range (Range_string (lit ''buffer''))"
    by (simp add: wf_range_def Range_string_def lit_def)
  from range_refines_list [OF this, of 2] show ?thesis
    by (simp add: str_def Range_string_def lit_def)
qed

text \<open>C30: \<open>compare\<close> is the three-way comparison of byte strings in the lexicographic order by
  unsigned byte value, with a proper prefix first: its result is negative, zero or positive
  exactly if the left string is smaller, equal or greater. \<open><\<close> is that order and \<open>==\<close> is equality
  of the bytes. The sign it computes from the wrapped difference of the sizes is right below
  \<open>2\<^sup>6\<^sup>3\<close> bytes.\<close>

theorem range_compare_lexicographic:
  assumes "length xs < 2 ^ 63" "length ys < 2 ^ 63"
  shows "(compare xs ys < 0 \<longleftrightarrow> ord_class.lexordp xs ys) \<and>
    (compare xs ys = 0 \<longleftrightarrow> xs = ys) \<and>
    (0 < compare xs ys \<longleftrightarrow> ord_class.lexordp ys xs) \<and>
    (range_less xs ys \<longleftrightarrow> ord_class.lexordp xs ys) \<and> (range_eq xs ys \<longleftrightarrow> xs = ys)"
  using compare_lex [OF assms] compare_greater [OF assms] range_eq_iff [OF assms(1)]
  by (simp add: range_less_def)

theorem range_compare_lexicographic_witness:
  "compare (lit ''ab'') (lit ''abc'') < 0 \<and> 0 < compare (lit ''abc'') (lit ''ab'')"
  using range_compare_lexicographic [of "lit ''ab''" "lit ''abc''"]
    range_compare_lexicographic [of "lit ''abc''" "lit ''ab''"] by (simp add: lit_def)

text \<open>C32: \<open>replaceAt\<close> checks position plus size against the size of the range in \<open>size_t\<close>, that
  is modulo \<open>2\<^sup>6\<^sup>4\<close>, and refuses if the sum is greater. Otherwise it overwrites exactly the
  requested elements, if the sum did not wrap, and copies outside the array, if it did.\<close>

theorem range_replaceAt_checked_unless_wrap:
  assumes "wf_range r"
  shows "map_sum id (map_prod id str) (replaceAt r pos xs) =
    (if length (str r) < (unat pos + length xs) mod 2 ^ 64 then Inr (False, str r)
     else if 2 ^ 64 \<le> unat pos + length xs then Inl RangeUB
     else Inr (True, take (unat pos) (str r) @ xs @ drop (unat pos + length xs) (str r)))"
  using replaceAt_wraps [OF assms, of pos xs] replaceAt_list [OF assms, of pos xs] by auto

theorem range_replaceAt_checked_unless_wrap_witness:
  "map_sum id (map_prod id str) (replaceAt (Range_string (lit ''buffer'')) 2 (lit ''tt'')) =
     Inr (True, lit ''butter'') \<and>
   map_sum id (map_prod id str) (replaceAt (Range_string (lit ''buffer'')) 0xFFFFFFFFFFFFFFFF (lit ''tt'')) =
     Inl RangeUB \<and>
   map_sum id (map_prod id str) (replaceAt (Range_string (lit ''buffer'')) 0xFFFFFFFFFFFFFFFF (lit ''overwrites'')) =
     Inr (False, lit ''buffer'')"
proof -
  have "wf_range (Range_string (lit ''buffer''))"
    by (simp add: wf_range_def Range_string_def lit_def)
  from range_replaceAt_checked_unless_wrap [OF this, of 2 "lit ''tt''"]
    range_replaceAt_checked_unless_wrap [OF this, of "0xFFFFFFFFFFFFFFFF"]
  show ?thesis by (simp add: str_def Range_string_def lit_def)
qed

lemmas replace_eval = replaceAll_def replaceAll_loop.simps find_str_pos_def subpiece_def npos_def
  Range_iters_def Range_size_def size'_def str_def qfind_def qfind_loop.simps scan_last.simps
  pedestrian.simps lazy_skip_def compute_skip.simps deref_def replaceAt_def copy_to_def

text \<open>C33: \<open>replaceAll\<close> ends and stays inside the range for every pair of equally long
  patterns. It moves the search position by the size of the pattern instead of past the
  match, so that it replaces inside its own output and counts matches more than once: \<open>aa\<close> by
  \<open>ba\<close> in \<open>xaaa\<close> gives \<open>xbba\<close> with two replacements, and \<open>ab\<close> by \<open>ab\<close> in \<open>xxxxab\<close> counts
  three.\<close>

theorem range_replaceAll_safe_but_recounts:
  assumes "wf_range r" "length source = length dest"
  shows "(\<exists>k r'. replaceAll r source dest = Inr (k, r') \<and> wf_range r' \<and>
       b_it r' = b_it r \<and> e_it r' = e_it r) \<and>
    map_sum id (map_prod id str) (replaceAll (Range_iters ''xaaa'' 0 4) ''aa'' ''ba'') =
      Inr (2, ''xbba'') \<and>
    map_sum id (map_prod id str) (replaceAll (Range_iters ''xxxxab'' 0 6) ''ab'' ''ab'') =
      Inr (3, ''xxxxab'')"
proof (intro conjI)
  show "\<exists>k r'. replaceAll r source dest = Inr (k, r') \<and> wf_range r' \<and>
       b_it r' = b_it r \<and> e_it r' = e_it r"
    using replaceAll_loop_safe [OF assms] assms by (simp add: replaceAll_def)
  show "map_sum id (map_prod id str) (replaceAll (Range_iters ''xaaa'' 0 4) ''aa'' ''ba'') =
      Inr (2, ''xbba'')" by (simp add: replace_eval)
  show "map_sum id (map_prod id str) (replaceAll (Range_iters ''xxxxab'' 0 6) ''ab'' ''ab'') =
      Inr (3, ''xxxxab'')" by (simp add: replace_eval)
qed

theorem range_replaceAll_safe_but_recounts_witness:
  "\<exists>k r'. replaceAll (Range_iters ''aaaaaaa'' 0 7) ''aa'' ''ba'' = Inr (k, r') \<and>
     wf_range r'"
  using range_replaceAll_safe_but_recounts [of "Range_iters ''aaaaaaa'' 0 7" "''aa''" "''ba''"]
  by (simp add: wf_range_def Range_iters_def) blast

end
