(* ===== verification/Acc_String.thy ===== *)
theory Acc_String
  imports Acc_Range_Correct
begin

text \<open>
  The string utilities of \<open>src/accelerator/String.cpp\<close>, \<open>String-inl.h\<close> and the tables of
  \<open>EscapeTables.cpp\<close>: URI escaping, hexadecimal text, splitting and joining, trimming and
  formatted output. Strings are byte lists, a \<open>StringPiece\<close> argument that is only read is the
  list of its bytes, and the pieces that are trimmed are ranges of the theory \<open>Acc_Range\<close>. The
  case conversion is in the theory \<open>Acc_String_Case\<close>.
\<close>

section \<open>Tables\<close>

definition hexTable :: bytes where
  "hexTable = [
     16,16,16,16,16,16,16,16,16,16,16,16,16,16,16,16,
     16,16,16,16,16,16,16,16,16,16,16,16,16,16,16,16,
     16,16,16,16,16,16,16,16,16,16,16,16,16,16,16,16,
     0,1,2,3,4,5,6,7,8,9,16,16,16,16,16,16,
     16,10,11,12,13,14,15,16,16,16,16,16,16,16,16,16,
     16,16,16,16,16,16,16,16,16,16,16,16,16,16,16,16,
     16,10,11,12,13,14,15,16,16,16,16,16,16,16,16,16,
     16,16,16,16,16,16,16,16,16,16,16,16,16,16,16,16,
     16,16,16,16,16,16,16,16,16,16,16,16,16,16,16,16,
     16,16,16,16,16,16,16,16,16,16,16,16,16,16,16,16,
     16,16,16,16,16,16,16,16,16,16,16,16,16,16,16,16,
     16,16,16,16,16,16,16,16,16,16,16,16,16,16,16,16,
     16,16,16,16,16,16,16,16,16,16,16,16,16,16,16,16,
     16,16,16,16,16,16,16,16,16,16,16,16,16,16,16,16,
     16,16,16,16,16,16,16,16,16,16,16,16,16,16,16,16,
     16,16,16,16,16,16,16,16,16,16,16,16,16,16,16,16]"

definition uriEscapeTable :: bytes where
  "uriEscapeTable = [
     4,4,4,4,4,4,4,4,4,4,4,4,4,4,4,4,
     4,4,4,4,4,4,4,4,4,4,4,4,4,4,4,4,
     3,4,4,4,4,4,4,4,4,4,4,4,4,0,0,2,
     0,0,0,0,0,0,0,0,0,0,4,4,4,4,4,4,
     4,0,0,0,0,0,0,0,0,0,0,0,0,0,0,0,
     0,0,0,0,0,0,0,0,0,0,0,4,4,4,4,0,
     4,0,0,0,0,0,0,0,0,0,0,0,0,0,0,0,
     0,0,0,0,0,0,0,0,0,0,0,4,4,4,0,4,
     4,4,4,4,4,4,4,4,4,4,4,4,4,4,4,4,
     4,4,4,4,4,4,4,4,4,4,4,4,4,4,4,4,
     4,4,4,4,4,4,4,4,4,4,4,4,4,4,4,4,
     4,4,4,4,4,4,4,4,4,4,4,4,4,4,4,4,
     4,4,4,4,4,4,4,4,4,4,4,4,4,4,4,4,
     4,4,4,4,4,4,4,4,4,4,4,4,4,4,4,4,
     4,4,4,4,4,4,4,4,4,4,4,4,4,4,4,4,
     4,4,4,4,4,4,4,4,4,4,4,4,4,4,4,4]"

definition hexValues :: bytes where
  "hexValues = lit ''0123456789abcdef''"

section \<open>URI escaping\<close>

datatype UriEscapeMode = MODE_ALL | MODE_QUERY | MODE_PATH

fun mode_value :: "UriEscapeMode \<Rightarrow> byte" where
  "mode_value MODE_ALL = 0"
| "mode_value MODE_QUERY = 1"
| "mode_value MODE_PATH = 2"

datatype uri_error = IncompletePercent | InvalidPercent

text \<open>The run of passthrough characters between two positions.\<close>

definition run :: "bytes \<Rightarrow> nat \<Rightarrow> nat \<Rightarrow> bytes" where
  "run s a b = take (b - a) (drop a s)"

function uriEscape_loop :: "UriEscapeMode \<Rightarrow> bytes \<Rightarrow> nat \<Rightarrow> nat \<Rightarrow> bytes \<Rightarrow> bytes" where
  "uriEscape_loop mode s p lst out =
     (if p < length s
      then let v = s ! p;
               discriminator = uriEscapeTable ! unat v
           in if discriminator \<le> mode_value mode
              then uriEscape_loop mode s (p + 1) lst out
              else if mode = MODE_QUERY \<and> discriminator = 3
              then uriEscape_loop mode s (p + 1) (p + 1) (out @ run s lst p @ [0x2b])
              else uriEscape_loop mode s (p + 1) (p + 1)
                     (out @ run s lst p @
                      [0x25, hexValues ! unat (drop_bit 4 v), hexValues ! unat (v AND 0x0f)])
      else out @ run s lst p)"
  by pat_completeness auto
termination
  by (relation "measure (\<lambda>(_, s, p, _, _). length s - p)") auto

definition uriEscape :: "bytes \<Rightarrow> bytes \<Rightarrow> UriEscapeMode \<Rightarrow> bytes" where
  "uriEscape s out mode = uriEscape_loop mode s 0 0 out"

text \<open>An exception leaves the output with what was appended before it.\<close>

function uriUnescape_loop :: "UriEscapeMode \<Rightarrow> bytes \<Rightarrow> nat \<Rightarrow> nat \<Rightarrow> bytes
    \<Rightarrow> (uri_error \<times> bytes) + bytes" where
  "uriUnescape_loop mode s p lst out =
     (if p < length s
      then if s ! p = 0x25
           then if length s - p < 3 then Inl (IncompletePercent, out)
                else let h1 = hexTable ! unat (s ! (p + 1));
                         h2 = hexTable ! unat (s ! (p + 2))
                     in if h1 = 16 \<or> h2 = 16 then Inl (InvalidPercent, out)
                        else uriUnescape_loop mode s (p + 3) (p + 3)
                               (out @ run s lst p @ [push_bit 4 h1 OR h2])
           else if s ! p = 0x2b \<and> mode = MODE_QUERY
           then uriUnescape_loop mode s (p + 1) (p + 1) (out @ run s lst p @ [0x20])
           else uriUnescape_loop mode s (p + 1) lst out
      else Inr (out @ run s lst p))"
  by pat_completeness auto
termination
  by (relation "measure (\<lambda>(_, s, p, _, _). length s - p)") auto

definition uriUnescape :: "bytes \<Rightarrow> bytes \<Rightarrow> UriEscapeMode \<Rightarrow> (uri_error \<times> bytes) + bytes" where
  "uriUnescape s out mode = uriUnescape_loop mode s 0 0 out"

declare uriEscape_loop.simps [simp del] uriUnescape_loop.simps [simp del]

section \<open>Hexadecimal text\<close>

text \<open>The element type is \<open>char\<close>, which is signed, so \<open>ch\<close> is sign-extended to an \<open>int\<close>.\<close>

fun hexlify_loop :: "bytes \<Rightarrow> nat \<Rightarrow> bytes \<Rightarrow> bytes option" where
  "hexlify_loop [] j out = Some out"
| "hexlify_loop (c # cs) j out =
     (let ch = (scast c :: u32) in
      do {
        out \<leftarrow> put out j (hexValues ! unat (signed_drop_bit 4 ch AND 0xf));
        out \<leftarrow> put out (j + 1) (hexValues ! unat (ch AND 0xf));
        hexlify_loop cs (j + 2) out
      })"

definition hexlify :: "bytes \<Rightarrow> bytes \<Rightarrow> bool \<Rightarrow> (bool \<times> bytes) option" where
  "hexlify input output append_output =
     (let output = (if append_output then output else []);
          j = length output
      in map_option (Pair True)
           (hexlify_loop input j (resize 0 (2 * length input + length output) output)))"

text \<open>
  \<open>unhexlify\<close> counts the output in an \<open>int\<close>, whose increment past \<open>INT_MAX\<close> is undefined. The input
  index is a \<open>size_t\<close>.
\<close>

definition INT_MAX :: nat where
  "INT_MAX = 2147483647"

definition inc_int :: "nat \<Rightarrow> nat option" where
  "inc_int j = (if j < INT_MAX then Some (j + 1) else None)"

function unhexlify_loop :: "bytes \<Rightarrow> nat \<Rightarrow> nat \<Rightarrow> bytes \<Rightarrow> (bool \<times> bytes) option" where
  "unhexlify_loop input i j out =
     (if i < length input
      then do {
        a \<leftarrow> get input i;
        b \<leftarrow> get input (i + 1);
        let highBits = (ucast (hexTable ! unat a) :: u32);
        let lowBits = (ucast (hexTable ! unat b) :: u32);
        if (highBits OR lowBits) AND 0x10 \<noteq> 0 then Some (False, out)
        else do {
          j' \<leftarrow> inc_int j;
          out \<leftarrow> put out j (ucast (push_bit 4 highBits + lowBits));
          unhexlify_loop input (i + 2) j' out
        }
      }
      else Some (True, out))"
  by pat_completeness auto
termination
  by (relation "measure (\<lambda>(input, i, _, _). length input - i)") auto

declare unhexlify_loop.simps [simp del]

definition unhexlify :: "bytes \<Rightarrow> bytes \<Rightarrow> (bool \<times> bytes) option" where
  "unhexlify input output =
     (if length input mod 2 \<noteq> 0 then Some (False, output)
      else unhexlify_loop input 0 0 (resize 0 (length input div 2) output))"

section \<open>Splitting\<close>

text \<open>The delimiter is a character or a \<open>StringPiece\<close>.\<close>

datatype delim = DChar byte | DPiece bytes

fun delimSize :: "delim \<Rightarrow> nat" where
  "delimSize (DChar _) = 1"
| "delimSize (DPiece s) = length s"

fun atDelim :: "bytes \<Rightarrow> nat \<Rightarrow> delim \<Rightarrow> range_error + bool" where
  "atDelim s i (DChar c) = bindE (deref s i) (\<lambda>x. Inr (x = c))"
| "atDelim s i (DPiece sp) =
     (if i + length sp \<le> length s then Inr (take (length sp) (drop i s) = sp) else Inl RangeUB)"

fun delimFront :: "delim \<Rightarrow> range_error + byte" where
  "delimFront (DChar c) = Inl RangeUB"
| "delimFront (DPiece s) = deref s 0"

text \<open>
  \<open>*out++ = conv(StringPiece(&s[start], n))\<close> unless empty tokens are ignored; the output
  iterator appends to a list.
\<close>

definition emit :: "bytes \<Rightarrow> bool \<Rightarrow> nat \<Rightarrow> nat \<Rightarrow> bytes list \<Rightarrow> range_error + bytes list" where
  "emit s ignoreEmpty start n out =
     (if \<not> ignoreEmpty \<or> n > 0
      then if start + n \<le> length s then Inr (out @ [take n (drop start s)]) else Inl RangeUB
      else Inr out)"

function internalSplit_loop :: "delim \<Rightarrow> bytes \<Rightarrow> nat \<Rightarrow> bool \<Rightarrow> nat \<Rightarrow> nat \<Rightarrow> nat \<Rightarrow> bytes list
    \<Rightarrow> range_error + (nat \<times> bytes list)" where
  "internalSplit_loop delim s dSize ignoreEmpty i tokenStartPos tokenSize out =
     (if i \<le> length s - dSize
      then bindE (atDelim s i delim) (\<lambda>hit.
        if hit
        then bindE (emit s ignoreEmpty tokenStartPos tokenSize out) (\<lambda>out.
               internalSplit_loop delim s dSize ignoreEmpty (i + (dSize - 1) + 1) (i + dSize) 0 out)
        else internalSplit_loop delim s dSize ignoreEmpty (i + 1) tokenStartPos (tokenSize + 1) out)
      else Inr (tokenStartPos, out))"
  by pat_completeness auto
termination
  by (relation "measure (\<lambda>(_, s, dSize, _, i, _, _, _). length s - dSize + 1 - i)") auto

declare internalSplit_loop.simps [simp del]

definition internalSplit_scan :: "delim \<Rightarrow> bytes \<Rightarrow> bool \<Rightarrow> bytes list \<Rightarrow> range_error + bytes list"
where
  "internalSplit_scan delim s ignoreEmpty out =
     bindE (internalSplit_loop delim s (delimSize delim) ignoreEmpty 0 0 0 out)
       (\<lambda>(tokenStartPos, out). emit s ignoreEmpty tokenStartPos (length s - tokenStartPos) out)"

definition internalSplit :: "delim \<Rightarrow> bytes \<Rightarrow> bytes list \<Rightarrow> bool \<Rightarrow> range_error + bytes list" where
  "internalSplit delim s out ignoreEmpty =
     (let dSize = delimSize delim in
      if dSize > length s \<or> dSize = 0
      then Inr (if \<not> ignoreEmpty \<or> length s > 0 then out @ [s] else out)
      else case delim of
        DPiece _ \<Rightarrow>
          if dSize = 1
          then bindE (delimFront delim) (\<lambda>c. internalSplit_scan (DChar c) s ignoreEmpty out)
          else internalSplit_scan delim s ignoreEmpty out
      | DChar _ \<Rightarrow> internalSplit_scan delim s ignoreEmpty out)"

fun delimAnySize :: "delim \<Rightarrow> nat" where
  "delimAnySize (DChar _) = 1"
| "delimAnySize (DPiece s) = min (length s) 1"

fun atDelimAny :: "byte \<Rightarrow> delim \<Rightarrow> bool" where
  "atDelimAny x (DChar c) \<longleftrightarrow> x = c"
| "atDelimAny x (DPiece sp) \<longleftrightarrow> contains_char (Range_string sp) x"

function internalSplitAny_loop :: "delim \<Rightarrow> bytes \<Rightarrow> bool \<Rightarrow> nat \<Rightarrow> nat \<Rightarrow> nat \<Rightarrow> bytes list
    \<Rightarrow> range_error + (nat \<times> bytes list)" where
  "internalSplitAny_loop delim s ignoreEmpty i tokenStartPos tokenSize out =
     (if i < length s
      then if atDelimAny (s ! i) delim
           then bindE (emit s ignoreEmpty tokenStartPos tokenSize out) (\<lambda>out.
                  internalSplitAny_loop delim s ignoreEmpty (i + 1) (i + 1) 0 out)
           else internalSplitAny_loop delim s ignoreEmpty (i + 1) tokenStartPos (tokenSize + 1) out
      else Inr (tokenStartPos, out))"
  by pat_completeness auto
termination
  by (relation "measure (\<lambda>(_, s, _, i, _, _, _). length s - i)") auto

declare internalSplitAny_loop.simps [simp del]

definition internalSplitAny :: "delim \<Rightarrow> bytes \<Rightarrow> bytes list \<Rightarrow> bool \<Rightarrow> range_error + bytes list" where
  "internalSplitAny delim s out ignoreEmpty =
     (if length s = 0 \<or> delimAnySize delim = 0
      then Inr (if \<not> ignoreEmpty \<or> length s > 0 then out @ [s] else out)
      else bindE (internalSplitAny_loop delim s ignoreEmpty 0 0 0 out)
        (\<lambda>(tokenStartPos, out). emit s ignoreEmpty tokenStartPos (length s - tokenStartPos) out))"

text \<open>
  \<open>splitFixed\<close> into \<open>n + 1\<close> pieces. An output is assigned only on the way back from a
  successful call, so the outputs are the list of pieces, or \<^const>\<open>None\<close> for the result
  \<open>false\<close>. Targets are of type \<open>StringPiece\<close>, for which the conversion is the identity.
\<close>

fun delim_find :: "bytes \<Rightarrow> delim \<Rightarrow> range_error + nat option" where
  "delim_find input (DChar c) = Inr (find_char (Range_string input) c)"
| "delim_find input (DPiece d) = find_str (Range_string input) d"

fun splitFixed :: "bool \<Rightarrow> delim \<Rightarrow> bytes \<Rightarrow> nat \<Rightarrow> range_error + bytes list option" where
  "splitFixed exact delimiter input 0 =
     (if exact
      then bindE (delim_find input delimiter) (\<lambda>cut_at.
             Inr (if cut_at \<noteq> None then None else Some [input]))
      else Inr (Some [input]))"
| "splitFixed exact delimiter input (Suc n) =
     bindE (delim_find input delimiter) (\<lambda>found.
       case found of
         None \<Rightarrow> Inr None
       | Some cut_at \<Rightarrow>
           let head = take cut_at input;
               tail = drop (cut_at + delimSize delimiter) input
           in bindE (splitFixed exact delimiter tail n) (\<lambda>r.
                Inr (case r of None \<Rightarrow> None | Some out \<Rightarrow> Some (head # out))))"

section \<open>Joining\<close>

fun delim_text :: "delim \<Rightarrow> bytes" where
  "delim_text (DChar c) = [c]"
| "delim_text (DPiece s) = s"

fun joinAppend_loop :: "bytes \<Rightarrow> bytes list \<Rightarrow> bytes \<Rightarrow> bytes" where
  "joinAppend_loop d [] output = output"
| "joinAppend_loop d (x # xs) output = joinAppend_loop d xs (output @ d @ x)"

definition joinAppend_text :: "bytes \<Rightarrow> bytes list \<Rightarrow> bytes \<Rightarrow> range_error + bytes" where
  "joinAppend_text d xs output =
     (case xs of [] \<Rightarrow> Inl RangeUB | x # xs' \<Rightarrow> Inr (joinAppend_loop d xs' (output @ x)))"

definition internalJoinAppend :: "delim \<Rightarrow> bytes list \<Rightarrow> bytes \<Rightarrow> range_error + bytes" where
  "internalJoinAppend delimiter xs output =
     (if xs = [] then Inl RangeUB
      else case delimiter of
        DPiece _ \<Rightarrow>
          if delimSize delimiter = 1
          then bindE (delimFront delimiter) (\<lambda>c. joinAppend_text [c] xs output)
          else joinAppend_text (delim_text delimiter) xs output
      | DChar c \<Rightarrow> joinAppend_text [c] xs output)"

definition internalJoin :: "delim \<Rightarrow> bytes list \<Rightarrow> range_error + bytes" where
  "internalJoin delimiter xs = (if xs = [] then Inr [] else internalJoinAppend delimiter xs [])"

definition toAppendPair :: "bytes \<Rightarrow> bytes \<times> bytes \<Rightarrow> bytes \<Rightarrow> bytes" where
  "toAppendPair d p output = output @ fst p @ d @ snd p"

fun mapJoinAppend_loop :: "bytes \<Rightarrow> bytes \<Rightarrow> (bytes \<times> bytes) list \<Rightarrow> bytes \<Rightarrow> bytes" where
  "mapJoinAppend_loop d pd [] output = output"
| "mapJoinAppend_loop d pd (p # ps) output = mapJoinAppend_loop d pd ps (toAppendPair pd p (output @ d))"

definition joinMap :: "bytes \<Rightarrow> bytes \<Rightarrow> (bytes \<times> bytes) list \<Rightarrow> bytes" where
  "joinMap d pd ps =
     (case ps of [] \<Rightarrow> [] | p # ps' \<Rightarrow> mapJoinAppend_loop d pd ps' (toAppendPair pd p []))"

section \<open>Trimming\<close>

definition is_oddspace :: "byte \<Rightarrow> bool" where
  "is_oddspace c \<longleftrightarrow> c = 0x0a \<or> c = 0x09 \<or> c = 0x0d"

lemma pop_front_shrinks: "pop_front r = Inr r' \<Longrightarrow> size' r' < size' r"
  by (auto simp: pop_front_def size'_def split: if_splits)

lemma pop_back_shrinks: "pop_back r = Inr r' \<Longrightarrow> size' r' < size' r"
  by (auto simp: pop_back_def size'_def split: if_splits)

function ltrim_spaces :: "byte Range \<Rightarrow> range_error + byte Range" where
  "ltrim_spaces sp =
     (if \<not> empty sp
      then bindE (front sp) (\<lambda>c. if c = 0x20 then bindE (pop_front sp) ltrim_spaces else Inr sp)
      else Inr sp)"
  by pat_completeness auto
termination
  by (relation "measure size'") (auto dest: pop_front_shrinks)

function rtrim_spaces :: "byte Range \<Rightarrow> range_error + byte Range" where
  "rtrim_spaces sp =
     (if \<not> empty sp
      then bindE (back' sp) (\<lambda>c. if c = 0x20 then bindE (pop_back sp) rtrim_spaces else Inr sp)
      else Inr sp)"
  by pat_completeness auto
termination
  by (relation "measure size'") (auto dest: pop_back_shrinks)

declare ltrim_spaces.simps [simp del] rtrim_spaces.simps [simp del]

lemma ltrim_spaces_size: "ltrim_spaces sp = Inr sp' \<Longrightarrow> size' sp' \<le> size' sp"
proof (induction sp rule: ltrim_spaces.induct)
  case (1 sp)
  from "1.prems" show ?case
    by (subst (asm) ltrim_spaces.simps)
      (fastforce simp: bindE_eq_Inr_iff split: if_splits dest: "1.IH" pop_front_shrinks)
qed

lemma rtrim_spaces_size: "rtrim_spaces sp = Inr sp' \<Longrightarrow> size' sp' \<le> size' sp"
proof (induction sp rule: rtrim_spaces.induct)
  case (1 sp)
  from "1.prems" show ?case
    by (subst (asm) rtrim_spaces.simps)
      (fastforce simp: bindE_eq_Inr_iff split: if_splits dest: "1.IH" pop_back_shrinks)
qed

function ltrimWhitespace :: "byte Range \<Rightarrow> range_error + byte Range" where
  "ltrimWhitespace sp =
     bindE (ltrim_spaces sp) (\<lambda>sp.
       if \<not> empty sp
       then bindE (front sp) (\<lambda>c.
              if is_oddspace c then bindE (pop_front sp) ltrimWhitespace else Inr sp)
       else Inr sp)"
  by pat_completeness auto
termination
  by (relation "measure size'") (auto dest!: pop_front_shrinks ltrim_spaces_size)

function rtrimWhitespace :: "byte Range \<Rightarrow> range_error + byte Range" where
  "rtrimWhitespace sp =
     bindE (rtrim_spaces sp) (\<lambda>sp.
       if \<not> empty sp
       then bindE (back' sp) (\<lambda>c.
              if is_oddspace c then bindE (pop_back sp) rtrimWhitespace else Inr sp)
       else Inr sp)"
  by pat_completeness auto
termination
  by (relation "measure size'") (auto dest!: pop_back_shrinks rtrim_spaces_size)

declare ltrimWhitespace.simps [simp del] rtrimWhitespace.simps [simp del]

definition trimWhitespace :: "byte Range \<Rightarrow> range_error + byte Range" where
  "trimWhitespace sp = bindE (rtrimWhitespace sp) ltrimWhitespace"

section \<open>Formatted output\<close>

text \<open>
  \<open>vsnprintf\<close> applied to a format and its arguments is a parameter: for a buffer size it
  returns its result and the characters it stores before the terminating zero.
\<close>

datatype printf_error = InvalidFormat | PrintfUB

definition stringAppendfImpl :: "(nat \<Rightarrow> int \<times> bytes) \<Rightarrow> bytes \<Rightarrow> printf_error + bytes" where
  "stringAppendfImpl vsnprintf output =
     (let (bytes_used, inline_buffer) = vsnprintf 128 in
      if bytes_used < 0 then Inl InvalidFormat
      else if bytes_used < 128 then Inr (output @ take (nat bytes_used) inline_buffer)
      else if bytes_used = 2 ^ 31 - 1 then Inl PrintfUB
      else let (final_bytes_used, heap_buffer) = vsnprintf (nat bytes_used + 1) in
           if \<not> bytes_used \<ge> final_bytes_used \<or> final_bytes_used < 0 then Inl PrintfUB
           else Inr (output @ take (nat final_bytes_used) heap_buffer))"

definition stringPrintf :: "(nat \<Rightarrow> int \<times> bytes) \<Rightarrow> printf_error + bytes" where
  "stringPrintf vsnprintf = stringAppendfImpl vsnprintf []"

definition stringAppendf :: "(nat \<Rightarrow> int \<times> bytes) \<Rightarrow> bytes \<Rightarrow> printf_error + bytes" where
  "stringAppendf vsnprintf output = stringAppendfImpl vsnprintf output"

definition stringPrintf_to :: "(nat \<Rightarrow> int \<times> bytes) \<Rightarrow> bytes \<Rightarrow> printf_error + bytes" where
  "stringPrintf_to vsnprintf output = stringAppendfImpl vsnprintf []"

end
