(* ===== verification/Acc_String_Correct.thy ===== *)
theory Acc_String_Correct
  imports Acc_String
begin

text \<open>
  The string utilities do what \<open>String.h\<close> documents.
\<close>

section \<open>Tables\<close>

definition unreserved :: "byte \<Rightarrow> bool" where
  "unreserved c \<longleftrightarrow> 0x30 \<le> c \<and> c \<le> 0x39 \<or> 0x41 \<le> c \<and> c \<le> 0x5a \<or> 0x61 \<le> c \<and> c \<le> 0x7a \<or>
     c = 0x2d \<or> c = 0x5f \<or> c = 0x2e \<or> c = 0x7e"

definition uri_class :: "byte \<Rightarrow> byte" where
  "uri_class c = (if unreserved c then 0 else if c = 0x2f then 2 else if c = 0x20 then 3 else 4)"

lemma uriEscapeTable_eq: "uriEscapeTable = map (\<lambda>i. uri_class (of_nat i)) [0..<256]"
  by code_simp

definition hex_digit :: "byte \<Rightarrow> byte" where
  "hex_digit c = (if 0x30 \<le> c \<and> c \<le> 0x39 then c - 0x30
     else if 0x61 \<le> c \<and> c \<le> 0x66 then c - 0x61 + 10
     else if 0x41 \<le> c \<and> c \<le> 0x46 then c - 0x41 + 10 else 16)"

lemma hexTable_eq: "hexTable = map (\<lambda>i. hex_digit (of_nat i)) [0..<256]"
  by code_simp

lemma table_lookup:
  "uriEscapeTable ! unat c = uri_class c" "hexTable ! unat c = hex_digit c"
  by (simp_all add: uriEscapeTable_eq hexTable_eq)

lemma hexValues_all:
  "list_all (\<lambda>n. hex_digit (hexValues ! n) = of_nat n \<and> unreserved (hexValues ! n)) [0..<16]"
  by code_simp

lemma hexValues_digit: "n < 16 \<Longrightarrow> hex_digit (hexValues ! n) = of_nat n"
  using hexValues_all by (simp add: list_all_iff)

lemma nibble_bounds: "unat (drop_bit 4 (c :: byte)) < 16" "unat (c AND 0xf) < 16"
proof -
  have "unat (drop_bit 4 c) = unat c div 16"
    unfolding unat_drop_bit_eq by (simp only: drop_bit_eq_div) simp
  then show "unat (drop_bit 4 c) < 16" using unat_byte_less [of c] by (simp add: less_mult_imp_div_less)
  have "c AND 0xf = take_bit 4 c" by (simp add: take_bit_eq_mask word_masks)
  then have "unat (c AND 0xf) = take_bit 4 (unat c)" by (simp only: unsigned_take_bit_eq)
  then have "unat (c AND 0xf) = unat c mod 16" by (simp add: take_bit_eq_mod)
  then show "unat (c AND 0xf) < 16" by simp
qed

lemma nibbles_join: "push_bit 4 (drop_bit 4 c) OR (c AND 0xf) = (c :: byte)"
  by (rule bit_eqI) (auto simp: bit_simps word_masks)

lemma hex_of_nibbles [simp]:
  "hex_digit (hexValues ! unat (drop_bit 4 (c :: byte))) = drop_bit 4 c"
  "hex_digit (hexValues ! unat (c AND 0xf)) = c AND 0xf"
  by (simp_all add: hexValues_digit nibble_bounds)

lemma nibbles_valid: "drop_bit 4 (c :: byte) \<noteq> 16" "c AND 0xf \<noteq> 16"
  using nibble_bounds [of c] by (auto simp: word_unat_eq_iff)

section \<open>URI escaping\<close>

text \<open>What \<open>String.h\<close> says about one character, and the inverse reading of a whole string.\<close>

definition escape_byte :: "UriEscapeMode \<Rightarrow> byte \<Rightarrow> bytes" where
  "escape_byte m c =
     (if unreserved c \<or> m = MODE_PATH \<and> c = 0x2f then [c]
      else if m = MODE_QUERY \<and> c = 0x20 then [0x2b]
      else [0x25, hexValues ! unat (drop_bit 4 c), hexValues ! unat (c AND 0x0f)])"

fun unescape_bytes :: "UriEscapeMode \<Rightarrow> bytes \<Rightarrow> uri_error + bytes" where
  "unescape_bytes m [] = Inr []"
| "unescape_bytes m (c # cs) =
     (if c = 0x25
      then case cs of
        h1 # h2 # rest \<Rightarrow>
          if hex_digit h1 = 16 \<or> hex_digit h2 = 16 then Inl InvalidPercent
          else map_sum id (Cons (push_bit 4 (hex_digit h1) OR hex_digit h2)) (unescape_bytes m rest)
      | _ \<Rightarrow> Inl IncompletePercent
      else map_sum id (Cons (if c = 0x2b \<and> m = MODE_QUERY then 0x20 else c)) (unescape_bytes m cs))"

lemma run_same [simp]: "run s p p = []"
  by (simp add: run_def)

lemma run_extend: "a \<le> p \<Longrightarrow> p < length s \<Longrightarrow> run s a (p + 1) = run s a p @ [s ! p]"
  by (simp add: run_def Suc_diff_le take_Suc_conv_app_nth)

lemma uri_class_values:
  "uri_class c = 0 \<and> unreserved c \<or> uri_class c = 2 \<and> \<not> unreserved c \<and> c = 0x2f \<or>
   uri_class c = 3 \<and> \<not> unreserved c \<and> c = 0x20 \<or>
   uri_class c = 4 \<and> \<not> unreserved c \<and> c \<noteq> 0x2f \<and> c \<noteq> 0x20"
  unfolding uri_class_def by (cases "unreserved c"; cases "c = 0x2f"; cases "c = 0x20") simp_all

lemma passes_iff:
  "uri_class c \<le> mode_value m \<longleftrightarrow> unreserved c \<or> m = MODE_PATH \<and> c = 0x2f"
  using uri_class_values [of c]
  by (elim disjE conjE; cases m) (simp_all add: word_le_nat_alt)

lemma escape_byte_class:
  "escape_byte m c =
     (if uri_class c \<le> mode_value m then [c]
      else if m = MODE_QUERY \<and> uri_class c = 3 then [0x2b]
      else [0x25, hexValues ! unat (drop_bit 4 c), hexValues ! unat (c AND 0x0f)])"
proof -
  have "uri_class c = 3 \<longleftrightarrow> \<not> unreserved c \<and> c = 0x20" using uri_class_values [of c] by force
  then show ?thesis
    unfolding escape_byte_def passes_iff by (simp cong: if_cong)
qed

lemma uriEscape_loop_spec:
  "a \<le> p \<Longrightarrow> p \<le> length s \<Longrightarrow>
   uriEscape_loop m s p a out = out @ run s a p @ concat (map (escape_byte m) (drop p s))"
proof (induction m s p a out rule: uriEscape_loop.induct)
  case (1 m s p a out)
  show ?case
  proof (cases "p < length s")
    case True
    then have d: "drop p s = s ! p # drop (p + 1) s" by (simp add: Cons_nth_drop_Suc)
    let ?c = "uri_class (s ! p)"
    consider (pass) "?c \<le> mode_value m" | (plus) "\<not> ?c \<le> mode_value m" "m = MODE_QUERY \<and> ?c = 3"
      | (percent) "\<not> ?c \<le> mode_value m" "\<not> (m = MODE_QUERY \<and> ?c = 3)" by blast
    then show ?thesis
    proof cases
      case pass
      with "1.IH"(1) [OF True refl refl] "1.prems" True show ?thesis
        by (subst uriEscape_loop.simps, unfold d)
          (simp add: table_lookup escape_byte_class [of m "s ! p"] run_extend
            del: One_nat_def add_Suc_right)
    next
      case plus
      then have "escape_byte m (s ! p) = [0x2b]" unfolding escape_byte_class by simp
      with plus "1.IH"(2) [OF True refl refl] "1.prems" True show ?thesis
        by (subst uriEscape_loop.simps, unfold d)
          (simp add: table_lookup del: One_nat_def add_Suc_right)
    next
      case percent
      with "1.IH"(3) [OF True refl refl] "1.prems" True show ?thesis
        by (subst uriEscape_loop.simps, unfold d)
          (auto simp: table_lookup escape_byte_class [of m "s ! p"] Let_def
            simp del: One_nat_def add_Suc_right)
    qed
  next
    case False
    then show ?thesis
      using "1.prems" by (subst uriEscape_loop.simps) simp
  qed
qed

lemma uriEscape_eq: "uriEscape s out m = out @ concat (map (escape_byte m) s)"
  by (simp add: uriEscape_def uriEscape_loop_spec)

lemma length_less_2: "length xs < 2 \<Longrightarrow> xs = [] \<or> (\<exists>x. xs = [x])"
  by (cases xs) auto

lemma uriUnescape_loop_spec:
  "a \<le> p \<Longrightarrow> p \<le> length s \<Longrightarrow>
   map_sum fst id (uriUnescape_loop m s p a out) =
     map_sum id (\<lambda>r. out @ run s a p @ r) (unescape_bytes m (drop p s))"
proof (induction m s p a out rule: uriUnescape_loop.induct)
  case (1 m s p a out)
  show ?case
  proof (cases "p < length s")
    case False
    then show ?thesis
      using "1.prems" by (subst uriUnescape_loop.simps) simp
  next
    case True
    then have d: "drop p s = s ! p # drop (p + 1) s" by (simp add: Cons_nth_drop_Suc)
    consider (short) "s ! p = 0x25" "length s - p < 3"
      | (percent) "s ! p = 0x25" "\<not> length s - p < 3" | (other) "s ! p \<noteq> 0x25" by blast
    then show ?thesis
    proof cases
      case short
      then have "length (drop (p + 1) s) < 2" by auto
      from length_less_2 [OF this] have "unescape_bytes m (drop p s) = Inl IncompletePercent"
        using short unfolding d by auto
      with short True show ?thesis
        by (subst uriUnescape_loop.simps) simp
    next
      case percent
      then have d2: "drop (p + 1) s = s ! (p + 1) # s ! (p + 2) # drop (p + 3) s"
        by (simp add: Cons_nth_drop_Suc numeral_2_eq_2 numeral_3_eq_3)
      show ?thesis
        using "1.IH"(1) [OF True percent refl refl] "1.prems" percent True
        by (subst uriUnescape_loop.simps, unfold d d2)
          (simp add: Let_def table_lookup sum.map_comp o_def id_def del: One_nat_def)
    next
      case other
      then show ?thesis
        using "1.IH"(2,3) [OF True other] "1.prems" True
        by (subst uriUnescape_loop.simps, unfold d)
          (simp add: run_extend sum.map_comp o_def id_def del: One_nat_def add_Suc_right)
    qed
  qed
qed

lemma uriUnescape_eq:
  "map_sum fst id (uriUnescape s out m) = map_sum id (\<lambda>r. out @ r) (unescape_bytes m s)"
  by (simp add: uriUnescape_def uriUnescape_loop_spec)

lemma unescape_escape_byte:
  "unescape_bytes m (escape_byte m c @ rest) = map_sum id (Cons c) (unescape_bytes m rest)"
proof (cases "unreserved c \<or> m = MODE_PATH \<and> c = 0x2f")
  case True
  then have "c \<noteq> 0x25" "c \<noteq> 0x2b" by (auto simp: unreserved_def)
  with True show ?thesis by (simp add: escape_byte_def)
next
  case False
  then show ?thesis by (simp add: escape_byte_def nibbles_valid nibbles_join)
qed

lemma unescape_escape: "unescape_bytes m (concat (map (escape_byte m) s)) = Inr s"
  by (induction s) (simp_all add: unescape_escape_byte)

section \<open>Hexadecimal text\<close>

definition hex_pair :: "byte \<Rightarrow> bytes" where
  "hex_pair c = [hexValues ! unat (drop_bit 4 c), hexValues ! unat (c AND 0xf)]"

lemma byte_bit_min: "bit (c :: byte) k \<Longrightarrow> min 7 k = k"
  using byte_bitD [of c k] by simp

lemma sign_extended_nibbles:
  "signed_drop_bit 4 (scast c :: u32) AND 0xf = ucast (drop_bit 4 (c :: byte))"
  "(scast c :: u32) AND 0xf = ucast (c AND 0xf)"
  unfolding word_masks
  by (rule bit_word_eqI, auto simp: bit_simps min_absorb2 byte_bit_min dest: byte_bitD)+

lemma unat_ucast_u32 [simp]: "unat (ucast (c :: byte) :: u32) = unat c"
  by (simp add: unsigned_ucast_eq take_bit_nat_eq_self_iff less_trans [OF unat_byte_less])

lemma hexlify_loop_spec:
  "length zs = 2 * length cs \<Longrightarrow>
   hexlify_loop cs (length ys) (ys @ zs) = Some (ys @ concat (map hex_pair cs))"
proof (induction cs arbitrary: ys zs)
  case Nil
  then show ?case by simp
next
  case (Cons c cs)
  then obtain z z' zs' where zs: "zs = z # z' # zs'" "length zs' = 2 * length cs"
    by (auto simp: length_Suc_conv numeral_2_eq_2)
  with Cons.IH [of zs' "ys @ hex_pair c"] show ?case
    by (simp add: Let_def sign_extended_nibbles hex_pair_def)
qed

lemma hexlify_spec:
  "hexlify input out app = Some (True, (if app then out else []) @ concat (map hex_pair input))"
  using hexlify_loop_spec [of "replicate (2 * length input) 0" input "if app then out else []"]
  by (auto simp: hexlify_def Let_def resize_def)

lemma hex_digit_flag: "bit (hex_digit c) 4 \<longleftrightarrow> hex_digit c = 16"
proof -
  have "list_all (\<lambda>i. bit (hex_digit (of_nat i)) 4 \<longleftrightarrow> hex_digit (of_nat i) = 16) [0..<256]"
    by code_simp
  then show ?thesis by (rule all_bytes)
qed

lemma digit_flags:
  "(ucast (hex_digit a) OR ucast (hex_digit b) :: u32) AND 0x10 \<noteq> 0 \<longleftrightarrow>
     hex_digit a = 16 \<or> hex_digit b = 16"
proof -
  have "(ucast (hex_digit a) OR ucast (hex_digit b) :: u32) AND 2 ^ 4 \<noteq> 0 \<longleftrightarrow>
      bit (hex_digit a) 4 \<or> bit (hex_digit b) 4"
    unfolding and_exp_eq_0_iff_not_bit by (simp add: bit_simps)
  then show ?thesis by (simp add: hex_digit_flag)
qed

fun unhex :: "bytes \<Rightarrow> bytes" where
  "unhex (a # b # cs) = ucast (push_bit 4 (ucast (hex_digit a)) + ucast (hex_digit b) :: u32) # unhex cs"
| "unhex cs = []"

text \<open>
  The loop overflows its counter exactly if it gets through the digits of \<open>INT_MAX + 1\<close> bytes;
  \<open>overflows k cs\<close> says so when there is room for \<open>k\<close> more.
\<close>

abbreviation hexits :: "bytes \<Rightarrow> bool" where
  "hexits cs \<equiv> list_all (\<lambda>c. hex_digit c \<noteq> 16) cs"

definition overflows :: "nat \<Rightarrow> bytes \<Rightarrow> bool" where
  "overflows k cs \<longleftrightarrow> 2 * k \<le> length cs \<and> hexits (take (2 * k) cs)"

lemma overflows_step:
  "overflows (Suc k) (a # b # cs) \<longleftrightarrow> hex_digit a \<noteq> 16 \<and> hex_digit b \<noteq> 16 \<and> overflows k cs"
  by (auto simp: overflows_def)

lemma overflows_0 [simp]: "overflows 0 cs" and overflows_Nil [simp]: "overflows (Suc k) [] = False"
  by (simp_all add: overflows_def)

lemma unhexlify_loop_spec:
  "even (length cs) \<Longrightarrow> length zs = length cs div 2 \<Longrightarrow> length ys \<le> INT_MAX \<Longrightarrow>
   (if overflows (Suc (INT_MAX - length ys)) cs
    then unhexlify_loop (pre @ cs) (length pre) (length ys) (ys @ zs) = None
    else \<exists>out. unhexlify_loop (pre @ cs) (length pre) (length ys) (ys @ zs) = Some (hexits cs, out) \<and>
      (hexits cs \<longrightarrow> out = ys @ unhex cs))"
proof (induction cs arbitrary: pre ys zs rule: unhex.induct)
  case (1 a b cs)
  then obtain z zs' where zs: "zs = z # zs'" "length zs' = length cs div 2"
    by (cases zs) auto
  have step: "get (pre @ a # b # cs) (length pre) = Some a"
    "get (pre @ a # b # cs) (length pre + 1) = Some b"
    by (simp_all add: get_def nth_append)
  let ?c = "ucast (push_bit 4 (ucast (hex_digit a)) + ucast (hex_digit b) :: u32) :: byte"
  have loop: "unhexlify_loop (pre @ a # b # cs) (length pre) (length ys) (ys @ zs) =
    (if hex_digit a = 16 \<or> hex_digit b = 16 then Some (False, ys @ zs)
     else if length ys < INT_MAX
     then unhexlify_loop ((pre @ [a, b]) @ cs) (length (pre @ [a, b])) (length (ys @ [?c])) ((ys @ [?c]) @ zs')
     else None)"
    by (subst unhexlify_loop.simps)
      (auto simp: step [simplified] table_lookup digit_flags inc_int_def zs(1))
  show ?case
  proof (cases "hex_digit a \<noteq> 16 \<and> hex_digit b \<noteq> 16 \<and> length ys < INT_MAX")
    case True
    then have "Suc (INT_MAX - length (ys @ [?c])) = INT_MAX - length ys" by auto
    then show ?thesis
      using "1.IH" [of zs' "ys @ [?c]" "pre @ [a, b]"] "1.prems" zs(2) True
      by (simp add: loop overflows_step del: append_assoc split: if_splits) simp
  next
    case False
    then show ?thesis using "1.prems"(3) by (auto simp: loop overflows_step)
  qed
qed (simp_all add: unhexlify_loop.simps)

lemma unhexlify_spec:
  "if even (length input) \<and> overflows (Suc INT_MAX) input then unhexlify input out = None
   else \<exists>out'. unhexlify input out = Some (even (length input) \<and> hexits input, out') \<and>
     (even (length input) \<and> hexits input \<longrightarrow> out' = unhex input)"
proof (cases "even (length input)")
  case True
  then show ?thesis
    using unhexlify_loop_spec [OF True, of "resize 0 (length input div 2) out" "[]" "[]"]
    by (auto simp: unhexlify_def)
next
  case False
  then have "length input mod 2 = 1" by (simp add: odd_iff_mod_2_eq_one)
  with False show ?thesis by (simp add: unhexlify_def)
qed

lemma nibbles_sum: "ucast (push_bit 4 (ucast (drop_bit 4 c)) + ucast (c AND 0xf) :: u32) = (c :: byte)"
proof -
  have "(push_bit 4 (ucast (drop_bit 4 c)) + ucast (c AND 0xf) :: u32) =
      push_bit 4 (ucast (drop_bit 4 c)) OR ucast (c AND 0xf)"
    by (rule disjunctive_add) (auto simp: bit_simps word_masks)
  also have "ucast \<dots> = c"
    by (rule bit_word_eqI) (auto simp: bit_simps word_masks)
  finally show ?thesis .
qed

lemma unhex_hex: "unhex (concat (map hex_pair cs)) = cs"
  by (induction cs) (simp_all add: hex_pair_def nibbles_sum)

lemma hex_text_valid:
  "even (length (concat (map hex_pair cs)))"
  "list_all (\<lambda>c. hex_digit c \<noteq> 16) (concat (map hex_pair cs))"
  by (induction cs) (simp_all add: hex_pair_def nibbles_valid)

lemma length_hex_text: "length (concat (map hex_pair cs)) = 2 * length cs"
  by (induction cs) (simp_all add: hex_pair_def)

lemma hex_text_overflows: "overflows (Suc k) (concat (map hex_pair cs)) \<longleftrightarrow> k < length cs"
proof -
  have "hexits (take n (concat (map hex_pair cs)))" for n
    using hex_text_valid(2) [of cs] unfolding list_all_iff by (meson in_set_takeD)
  then show ?thesis by (auto simp: overflows_def length_hex_text)
qed

lemma unhexlify_hexlify:
  "unhexlify (concat (map hex_pair cs)) out = (if length cs \<le> INT_MAX then Some (True, cs) else None)"
  using unhexlify_spec [of "concat (map hex_pair cs)" out] hex_text_valid [of cs] unhex_hex [of cs]
    hex_text_overflows [of INT_MAX cs] by (auto split: if_splits)

interpretation uri_text: lossless_codec
  "\<lambda>s. uriEscape s [] m"
  "\<lambda>t. case uriUnescape t [] m of Inl _ \<Rightarrow> None | Inr s \<Rightarrow> Some s" "\<lambda>_. True" for m
proof
  fix s :: bytes
  have "map_sum fst id (uriUnescape (uriEscape s [] m) [] m) = Inr s"
    by (simp add: uriUnescape_eq uriEscape_eq unescape_escape)
  then show "(case uriUnescape (uriEscape s [] m) [] m of Inl _ \<Rightarrow> None | Inr s \<Rightarrow> Some s) = Some s"
    by (cases "uriUnescape (uriEscape s [] m) [] m") auto
qed

interpretation hex_text: lossless_codec
  "\<lambda>s. snd (the (hexlify s [] False))" "\<lambda>t. map_option snd (unhexlify t [])"
  "\<lambda>s. length s \<le> INT_MAX"
  by unfold_locales (simp add: hexlify_spec unhexlify_hexlify)

section \<open>Properties\<close>

text \<open>C11: \<open>uriEscape\<close> appends the documented text of every character (unreserved characters
  unchanged, the slash unchanged in PATH mode, a space as a plus in QUERY mode, everything
  else percent-encoded), \<open>uriUnescape\<close> in the same mode returns the original string, and
  different strings have different escapes.\<close>

theorem uri_escape_roundtrip:
  "uriEscape s out m = out @ concat (map (escape_byte m) s) \<and>
   map_sum fst id (uriUnescape (uriEscape s [] m) out m) = Inr (out @ s) \<and>
   (uriEscape s [] m = uriEscape t [] m \<longleftrightarrow> s = t)"
  using uri_text.enc_eq_iff [where x = s and y = t and m = m]
  by (simp add: uriEscape_eq uriUnescape_eq unescape_escape)

text \<open>C34: On an arbitrary string \<open>uriUnescape\<close> appends the decoded bytes, or throws: for a
  percent sign with fewer than two characters behind it, and for one whose next two
  characters are not hexadecimal digits.\<close>

theorem uri_unescape_errors:
  "map_sum fst id (uriUnescape s out m) = map_sum id (\<lambda>r. out @ r) (unescape_bytes m s)"
  by (rule uriUnescape_eq)

text \<open>C13: \<open>hexlify\<close> never writes outside the string it resized and stores two digits per byte,
  and \<open>unhexlify\<close> reads them back if there are fewer than \<open>2\<^sup>3\<^sup>1\<close> bytes. On arbitrary input
  \<open>unhexlify\<close> stays in bounds and succeeds exactly for an even number of hexadecimal digits, unless
  the first \<open>2\<^sup>3\<^sup>2\<close> characters of an even number are all digits: then, and only then, its \<open>int\<close> counter overflows,
  which is undefined behaviour.\<close>

theorem hex_roundtrip:
  "\<exists>t out'. hexlify s out app = Some (True, (if app then out else []) @ t) \<and>
     length t = 2 * length s \<and>
     unhexlify t old = (if length s < 2 ^ 31 then Some (True, s) else None) \<and>
     unhexlify input old =
       (if even (length input) \<and> 2 ^ 32 \<le> length input \<and>
          list_all (\<lambda>c. hex_digit c \<noteq> 16) (take (2 ^ 32) input) then None
        else Some (even (length input) \<and> list_all (\<lambda>c. hex_digit c \<noteq> 16) input, out'))"
proof -
  have m: "overflows (Suc INT_MAX) input \<longleftrightarrow> 2 ^ 32 \<le> length input \<and> hexits (take (2 ^ 32) input)"
    "length s \<le> INT_MAX \<longleftrightarrow> length s < 2 ^ 31"
    by (auto simp: overflows_def INT_MAX_def)
  obtain out' where "unhexlify input old =
      (if even (length input) \<and> overflows (Suc INT_MAX) input then None
       else Some (even (length input) \<and> hexits input, out'))"
    using unhexlify_spec [of input old] by (auto split: if_splits)
  then show ?thesis
    using hexlify_spec [of s out app] unhexlify_hexlify [of s old] length_hex_text [of s]
    unfolding m by blast
qed

end
