(* ===== verification/Acc_String_Tokens.thy ===== *)
theory Acc_String_Tokens
  imports Acc_String
begin

text \<open>
  Correctness of splitting, joining, trimming and formatted output of \<open>Acc_String\<close>. Splitting
  is compared with the tokens that a left-to-right scan finds; joining the tokens gives back
  the text, and the fixed-arity \<open>split\<close> agrees with the general one.
\<close>

section \<open>Tokens of a text\<close>

function tokens :: "bytes \<Rightarrow> bytes \<Rightarrow> bytes \<Rightarrow> bytes list" where
  "tokens d acc s =
     (if s = [] \<or> d = [] then [acc @ s]
      else if take (length d) s = d then acc # tokens d [] (drop (length d) s)
      else tokens d (acc @ [hd s]) (tl s))"
  by pat_completeness auto
termination
  by (relation "measure (\<lambda>(_, _, s). length s)") auto

declare tokens.simps [simp del]

definition prune :: "bool \<Rightarrow> bytes list \<Rightarrow> bytes list" where
  "prune ignoreEmpty ts = (if ignoreEmpty then filter (\<lambda>t. t \<noteq> []) ts else ts)"

lemma prune_simps [simp]:
  "prune b [] = []" "prune b (t # ts) = (if b \<and> t = [] then [] else [t]) @ prune b ts"
  by (auto simp: prune_def)

lemma emit_in:
  "start + n \<le> length s \<Longrightarrow> emit s b start n out = Inr (out @ prune b [take n (drop start s)])"
  by (auto simp: emit_def prune_def)

lemma atDelim_in:
  "i + delimSize d \<le> length s \<Longrightarrow> atDelim s i d = Inr (take (delimSize d) (drop i s) = delim_text d)"
proof (cases d)
  case (DChar c)
  assume "i + delimSize d \<le> length s"
  then have "drop i s = s ! i # drop (Suc i) s"
    using DChar by (simp add: Cons_nth_drop_Suc)
  then show ?thesis using DChar \<open>i + delimSize d \<le> length s\<close> by simp
qed simp

lemma delim_text_length [simp]: "length (delim_text d) = delimSize d"
  by (cases d) simp_all

lemma tokens_short: "length s < length d \<Longrightarrow> tokens d acc s = [acc @ s]"
proof (induction d acc s rule: tokens.induct)
  case (1 d acc s)
  then have "take (length d) s \<noteq> d"
    by (metis length_take min.absorb4 min.strict_order_iff not_less_iff_gr_or_eq)
  with 1 show ?case
    by (subst tokens.simps) auto
qed

lemma internalSplit_loop_spec:
  assumes d: "delim_text delim \<noteq> []" "delimSize delim \<le> length s"
  shows "i = start + n \<Longrightarrow> i \<le> length s \<Longrightarrow>
    bindE (internalSplit_loop delim s (delimSize delim) b i start n out)
      (\<lambda>(p, out). emit s b p (length s - p) out) =
    Inr (out @ prune b (tokens (delim_text delim) (take n (drop start s)) (drop i s)))"
proof (induction "length s - i" arbitrary: i start n out rule: less_induct)
  case less
  let ?d = "delimSize delim"
  have pos: "0 < ?d" using d by (metis delim_text_length length_greater_0_conv)
  show ?case
  proof (cases "i \<le> length s - ?d")
    case False
    then have "length (drop i s) < length (delim_text delim)" using d(2) pos by simp
    moreover have "take n (drop start s) @ drop i s = drop start s"
      unfolding less.prems(1) by (metis append_take_drop_id drop_drop add.commute)
    ultimately show ?thesis
      using False less.prems
      by (subst internalSplit_loop.simps) (simp add: tokens_short emit_in)
  next
    case True
    then have i: "i + ?d \<le> length s" "i < length s" using d pos by auto
    then have s: "drop i s = s ! i # drop (Suc i) s" by (simp add: Cons_nth_drop_Suc)
    show ?thesis
    proof (cases "take ?d (drop i s) = delim_text delim")
      case hit: True
      have "bindE (internalSplit_loop delim s ?d b (i + ?d) (i + ?d) 0
            (out @ prune b [take n (drop start s)])) (\<lambda>(p, out). emit s b p (length s - p) out) =
          Inr ((out @ prune b [take n (drop start s)]) @ prune b (tokens (delim_text delim) [] (drop (i + ?d) s)))"
        using less.hyps [of "i + ?d" "i + ?d" 0 "out @ prune b [take n (drop start s)]"] i pos by simp
      moreover have "tokens (delim_text delim) (take n (drop start s)) (drop i s) =
          take n (drop start s) # tokens (delim_text delim) [] (drop (i + ?d) s)"
        using hit d(1) i by (subst tokens.simps) (simp add: add.commute)
      ultimately show ?thesis
        using True hit less.prems i pos
        by (subst internalSplit_loop.simps) (simp add: atDelim_in emit_in)
    next
      case miss: False
      have "take (n + 1) (drop start s) = take n (drop start s) @ [s ! i]"
        using i less.prems by (simp add: take_Suc_conv_app_nth)
      moreover have "tokens (delim_text delim) (take n (drop start s)) (drop i s) =
          tokens (delim_text delim) (take n (drop start s) @ [s ! i]) (drop (Suc i) s)"
        using miss d(1) i by (subst tokens.simps) (simp add: s)
      ultimately show ?thesis
        using True miss less.prems i less.hyps [of "i + 1" start "n + 1" out]
        by (subst internalSplit_loop.simps) (simp add: atDelim_in)
    qed
  qed
qed

lemma internalSplit_scan_spec:
  "delim_text delim \<noteq> [] \<Longrightarrow> delimSize delim \<le> length s \<Longrightarrow>
   internalSplit_scan delim s b out = Inr (out @ prune b (tokens (delim_text delim) [] s))"
  using internalSplit_loop_spec [of delim s 0 0 0 b out] by (simp add: internalSplit_scan_def)

lemma tokens_empty: "tokens d acc [] = [acc]" "tokens [] acc s = [acc @ s]"
  by (subst tokens.simps, simp)+

lemma internalSplit_spec:
  "internalSplit delim s out b = Inr (out @ prune b (tokens (delim_text delim) [] s))"
proof (cases "delimSize delim > length s \<or> delimSize delim = 0")
  case True
  then have "tokens (delim_text delim) [] s = [s]"
    using tokens_short [of s "delim_text delim" "[]"] tokens_empty(2) [of "[]" s]
      delim_text_length [of delim] by (metis append_Nil length_0_conv)
  with True show ?thesis by (auto simp: internalSplit_def Let_def prune_def)
next
  case False
  then have "delim_text delim \<noteq> []" "delimSize delim \<le> length s"
    by (metis delim_text_length length_0_conv) (use False in simp)
  then show ?thesis
    using False internalSplit_scan_spec [of delim s b out]
      internalSplit_scan_spec [of "DChar (hd (delim_text delim))" s b out]
    by (cases delim) (auto simp: internalSplit_def Let_def length_Suc_conv)
qed

section \<open>Joining is the inverse of splitting\<close>

definition joined :: "bytes \<Rightarrow> bytes list \<Rightarrow> bytes" where
  "joined d ts = (case ts of [] \<Rightarrow> [] | t # ts' \<Rightarrow> t @ concat (map ((@) d) ts'))"

lemma joined_simps [simp]:
  "joined d [] = []" "joined d [t] = t" "joined d (t # u # ts) = t @ d @ joined d (u # ts)"
  by (simp_all add: joined_def)

lemma joinAppend_loop_spec: "joinAppend_loop d ts out = out @ concat (map ((@) d) ts)"
  by (induction ts arbitrary: out) simp_all

lemma internalJoin_spec: "internalJoin delim ts = Inr (joined (delim_text delim) ts)"
proof (cases ts)
  case (Cons t ts')
  then show ?thesis
    by (cases delim)
      (auto simp: internalJoin_def internalJoinAppend_def joinAppend_text_def joinAppend_loop_spec
        joined_def length_Suc_conv)
qed (simp add: internalJoin_def)

text \<open>
  A well-cut token sequence: the delimiter occurs in no token, and in no other position where
  a token meets the delimiter behind it.
\<close>

fun well_cut :: "bytes \<Rightarrow> bytes list \<Rightarrow> bool" where
  "well_cut d [] \<longleftrightarrow> False"
| "well_cut d [t] \<longleftrightarrow> is_first (matches_at (=) t d) None"
| "well_cut d (t # u # ts) \<longleftrightarrow> is_first (matches_at (=) (t @ d) d) (Some (length t)) \<and> well_cut d (u # ts)"

lemma matches_at_append:
  "i \<le> length xs \<Longrightarrow> matches_at (=) (xs @ ys) d i \<longleftrightarrow> take (length d) (drop i (xs @ ys)) = d"
proof -
  have "matches_at (=) hay d i \<longleftrightarrow> take (length d) (drop i hay) = d" if "i \<le> length hay" for hay
  proof
    assume "matches_at (=) hay d i"
    then show "take (length d) (drop i hay) = d"
      by (intro nth_equalityI) (auto simp: matches_at_def)
  next
    assume eq: "take (length d) (drop i hay) = d"
    then have "length d \<le> length hay - i" by (metis length_drop length_take min.cobounded1 min.commute)
    moreover have "hay ! (i + j) = d ! j" if "j < length d" for j
      using arg_cong [OF eq, of "\<lambda>l. l ! j"] that calculation by simp
    ultimately show "matches_at (=) hay d i"
      using that by (auto simp: matches_at_def)
  qed
  then show "i \<le> length xs \<Longrightarrow> ?thesis" by simp
qed

lemma tokens_not_Nil: "tokens d acc s \<noteq> []"
  by (induction d acc s rule: tokens.induct) (subst tokens.simps, auto)

lemma tokens_joined: "joined d (tokens d acc s) = acc @ s"
proof (induction d acc s rule: tokens.induct)
  case (1 d acc s)
  show ?case
  proof (cases "s = [] \<or> d = []")
    case True
    then show ?thesis by (subst tokens.simps) simp
  next
    case False
    show ?thesis
    proof (cases "take (length d) s = d")
      case True
      obtain t ts where ts: "tokens d [] (drop (length d) s) = t # ts"
        using tokens_not_Nil by (metis neq_Nil_conv)
      have "d @ drop (length d) s = s" using True by (metis append_take_drop_id)
      with "1.IH"(1) [OF False True] ts False True show ?thesis
        by (subst tokens.simps) simp
    next
      case miss: False
      with "1.IH"(2) [OF False miss] False show ?thesis
        by (subst tokens.simps) simp
    qed
  qed
qed

lemma tokens_well_cut:
  "d \<noteq> [] \<Longrightarrow> \<forall>k < length acc. \<not> matches_at (=) (acc @ s) d k \<Longrightarrow> well_cut d (tokens d acc s)"
proof (induction d acc s rule: tokens.induct)
  case (1 d acc s)
  show ?case
  proof (cases "s = []")
    case True
    have "\<not> matches_at (=) acc d k" for k
    proof (cases "k < length acc")
      case False
      moreover have "0 < length d" using "1.prems"(1) by simp
      ultimately show ?thesis unfolding matches_at_def by linarith
    qed (use "1.prems" True in simp)
    with True show ?thesis by (subst tokens.simps) simp
  next
    case False
    with "1.prems" have ne: "\<not> (s = [] \<or> d = [])" by simp
    show ?thesis
    proof (cases "take (length d) s = d")
      case True
      obtain t ts where ts: "tokens d [] (drop (length d) s) = t # ts"
        using tokens_not_Nil by (metis neq_Nil_conv)
      obtain s' where s': "s = d @ s'" using True by (metis append_take_drop_id)
      have "\<not> matches_at (=) (acc @ d) d k" if "k < length acc" for k
        using "1.prems"(2) that unfolding s' matches_at_def by (fastforce simp: nth_append)
      then have "is_first (matches_at (=) (acc @ d) d) (Some (length acc))"
        by (simp add: matches_at_append)
      with "1.IH"(1) [OF ne True "1.prems"(1)] ts ne True show ?thesis
        by (subst tokens.simps) simp
    next
      case miss: False
      have "\<not> matches_at (=) (acc @ s) d (length acc)" using miss by (simp add: matches_at_append)
      with "1.prems" False have "\<forall>k < length (acc @ [hd s]). \<not> matches_at (=) ((acc @ [hd s]) @ tl s) d k"
        by (auto simp: less_Suc_eq)
      with "1.IH"(2) [OF ne miss "1.prems"(1)] ne miss show ?thesis
        by (subst tokens.simps) simp
    qed
  qed
qed

text \<open>A well-cut sequence is what splitting the joined text returns.\<close>

lemma tokens_scan:
  "\<forall>k < length xs. \<not> matches_at (=) (xs @ ys) d k \<Longrightarrow> d \<noteq> [] \<Longrightarrow>
   tokens d acc (xs @ ys) = tokens d (acc @ xs) ys"
proof (induction xs arbitrary: acc)
  case Nil
  then show ?case by simp
next
  case (Cons x xs)
  have "\<not> matches_at (=) ((x # xs) @ ys) d 0" using Cons.prems by blast
  then have "take (length d) (x # xs @ ys) \<noteq> d"
    using matches_at_append [of 0 "x # xs" ys d] by simp
  moreover have "\<not> matches_at (=) (xs @ ys) d k" if "k < length xs" for k
    using Cons.prems(1) [rule_format, of "Suc k"] that by (auto simp: matches_at_def)
  ultimately show ?case
    using Cons.IH [of "acc @ [x]"] Cons.prems(2) by (subst tokens.simps) simp
qed

lemma matches_prefix_local:
  assumes "k < length t" "matches_at (=) (t @ d @ r) d k"
  shows "matches_at (=) (t @ d) d k"
proof -
  have "(t @ d) ! (k + j) = d ! j" if "j < length d" for j
  proof -
    have "(t @ d @ r) ! (k + j) = d ! j" using assms that by (simp add: matches_at_def)
    moreover have "k + j < length (t @ d)" using assms(1) that by simp
    ultimately show ?thesis by (metis append.assoc nth_append)
  qed
  then show ?thesis using assms(1) by (auto simp: matches_at_def)
qed

lemma well_cut_tokens: "d \<noteq> [] \<Longrightarrow> well_cut d ts \<Longrightarrow> tokens d [] (joined d ts) = ts"
proof (induction d ts rule: well_cut.induct)
  case (2 d t)
  then have "\<forall>k < length t. \<not> matches_at (=) (t @ []) d k" by simp
  from tokens_scan [OF this "2.prems"(1), of "[]"] show ?case by (simp add: tokens_empty)
next
  case (3 d t u ts)
  let ?r = "joined d (u # ts)"
  have "\<forall>k < length t. \<not> matches_at (=) (t @ d @ ?r) d k"
    using "3.prems"(2) matches_prefix_local [of _ t d ?r] by auto
  from tokens_scan [OF this "3.prems"(1), of "[]"]
  have "tokens d [] (t @ d @ ?r) = tokens d t (d @ ?r)" by simp
  also have "\<dots> = t # tokens d [] ?r" using "3.prems"(1) by (subst tokens.simps) simp
  finally show ?case using 3 by simp
qed simp

section \<open>A fixed number of pieces\<close>

lemma str_Range_string [simp]: "str (Range_string s) = s"
  by (simp add: str_def Range_string_def)

lemma delim_find_first:
  "\<exists>k. delim_find input delim = Inr k \<and> is_first (matches_at (=) input (delim_text delim)) k"
proof (cases delim)
  case (DChar c)
  have "i < length input \<and> input ! i = c \<longleftrightarrow> matches_at (=) input [c] i" for i
    by (auto simp: matches_at_def)
  with qfind_char_first [of input c] DChar show ?thesis by (simp add: find_char_def)
next
  case (DPiece d)
  with equal_to.qfind_first [of input d] show ?thesis by (simp add: find_str_def)
qed

lemma tokens_first:
  assumes "is_first (matches_at (=) s d) k" "d \<noteq> []"
  shows "tokens d [] s =
    (case k of None \<Rightarrow> [s] | Some i \<Rightarrow> take i s # tokens d [] (drop (i + length d) s))"
proof (cases k)
  case None
  with assms well_cut_tokens [of d "[s]"] show ?thesis by simp
next
  case (Some i)
  with assms have i: "matches_at (=) s d i" "\<forall>k < i. \<not> matches_at (=) s d k" by auto
  then have "i \<le> length s" and pre: "take (length d) (drop i s) = d"
    using matches_at_append [of i s "[]" d] by (auto simp: matches_at_def)
  then have "tokens d [] (take i s @ drop i s) = tokens d (take i s) (drop i s)"
    using tokens_scan [of "take i s" "drop i s" d "[]"] i(2) assms(2) by simp
  also have "\<dots> = take i s # tokens d [] (drop (i + length d) s)"
    using pre assms(2) by (subst tokens.simps) (auto simp: add.commute)
  finally show ?thesis using Some by simp
qed

lemma splitFixed_spec:
  assumes d: "delim_text delim \<noteq> []"
  shows "splitFixed exact delim input n =
    (let ts = tokens (delim_text delim) [] input in
     Inr (if exact then (if length ts = n + 1 then Some ts else None)
          else if n + 1 \<le> length ts
          then Some (take n ts @ [joined (delim_text delim) (drop n ts)]) else None))"
proof (induction n arbitrary: input)
  case 0
  let ?ts = "tokens (delim_text delim) [] input"
  obtain k where k: "delim_find input delim = Inr k"
    "is_first (matches_at (=) input (delim_text delim)) k"
    using delim_find_first by blast
  have "length ?ts = 1 \<longleftrightarrow> k = None"
    using tokens_first [OF k(2) d] tokens_not_Nil by (auto split: option.splits)
  moreover have "k = None \<Longrightarrow> ?ts = [input]"
    using tokens_first [OF k(2) d] by simp
  moreover have "0 < length ?ts" using tokens_not_Nil by simp
  ultimately show ?case
    using k(1) tokens_joined [of "delim_text delim" "[]" input] by (simp add: Let_def Suc_le_eq)
next
  case (Suc n)
  obtain k where k: "delim_find input delim = Inr k"
    "is_first (matches_at (=) input (delim_text delim)) k"
    using delim_find_first by blast
  show ?case
  proof (cases k)
    case None
    with k tokens_first [OF k(2) d] show ?thesis by (simp add: Let_def)
  next
    case (Some i)
    with k tokens_first [OF k(2) d] show ?thesis
      by (auto simp: Suc.IH Let_def)
  qed
qed

section \<open>Splitting at any of several characters\<close>

text \<open>An empty delimiter is found at the front of every text and consumes nothing.\<close>

lemma splitFixed_empty:
  assumes d: "delim_text delim = []"
  shows "splitFixed exact delim input n =
    Inr (if exact then None else Some (replicate n [] @ [input]))"
proof -
  have z: "delimSize delim = 0" using d delim_text_length [of delim] by simp
  have f: "delim_find input delim = Inr (Some 0)" for input
  proof -
    obtain k where k: "delim_find input delim = Inr k"
      "is_first (matches_at (=) input (delim_text delim)) k"
      using delim_find_first by blast
    moreover have "matches_at (=) input (delim_text delim) 0" using d by (simp add: matches_at_def)
    ultimately show ?thesis by (cases k) (auto simp: is_first_def)
  qed
  show ?thesis by (induction n arbitrary: input) (simp_all add: f z)
qed

fun tokens_any :: "(byte \<Rightarrow> bool) \<Rightarrow> bytes \<Rightarrow> bytes \<Rightarrow> bytes list" where
  "tokens_any P acc [] = [acc]"
| "tokens_any P acc (x # xs) =
     (if P x then acc # tokens_any P [] xs else tokens_any P (acc @ [x]) xs)"

lemma internalSplitAny_loop_spec:
  "i = start + n \<Longrightarrow> i \<le> length s \<Longrightarrow>
   bindE (internalSplitAny_loop delim s b i start n out)
     (\<lambda>(p, out). emit s b p (length s - p) out) =
   Inr (out @ prune b (tokens_any (\<lambda>x. atDelimAny x delim) (take n (drop start s)) (drop i s)))"
proof (induction "length s - i" arbitrary: i start n out rule: less_induct)
  case less
  show ?case
  proof (cases "i < length s")
    case False
    then have "take n (drop start s) = drop start s" using less.prems by simp
    with False less.prems show ?thesis
      by (subst internalSplitAny_loop.simps) (simp add: emit_in)
  next
    case True
    then have s: "drop i s = s ! i # drop (Suc i) s" by (simp add: Cons_nth_drop_Suc)
    let ?out = "out @ prune b [take n (drop start s)]"
    have e: "emit s b start n out = Inr ?out" using less.prems True by (intro emit_in) simp
    have "take (n + 1) (drop start s) = take n (drop start s) @ [s ! i]"
      using True less.prems by (simp add: take_Suc_conv_app_nth)
    then have
      "bindE (internalSplitAny_loop delim s b (i + 1) start (n + 1) out)
         (\<lambda>(p, out). emit s b p (length s - p) out) =
       Inr (out @ prune b (tokens_any (\<lambda>x. atDelimAny x delim)
         (take n (drop start s) @ [s ! i]) (drop (i + 1) s)))"
      "bindE (internalSplitAny_loop delim s b (i + 1) (i + 1) 0 ?out)
         (\<lambda>(p, out). emit s b p (length s - p) out) =
       Inr (?out @ prune b (tokens_any (\<lambda>x. atDelimAny x delim) [] (drop (i + 1) s)))"
      using True less.prems less.hyps [of "i + 1" start "n + 1" out]
        less.hyps [of "i + 1" "i + 1" 0 ?out] by simp_all
    then show ?thesis
      using True by (subst internalSplitAny_loop.simps) (simp add: s e del: prune_simps(2), simp)
  qed
qed

lemma tokens_any_none: "(\<And>x. \<not> P x) \<Longrightarrow> tokens_any P acc s = [acc @ s]"
  by (induction s arbitrary: acc) simp_all

lemma atDelimAny_iff: "atDelimAny x delim \<longleftrightarrow> x \<in> set (delim_text delim)"
proof (cases delim)
  case (DPiece sp)
  have "find_char (Range_string sp) x \<noteq> None \<longleftrightarrow> x \<in> set sp"
    using qfind_char_first [of sp x]
    by (cases "qfind_char sp x") (auto simp: find_char_def in_set_conv_nth)
  with DPiece show ?thesis by (simp add: contains_char_def)
qed simp

lemma internalSplitAny_spec:
  "internalSplitAny delim s out b =
     Inr (out @ prune b (tokens_any (\<lambda>x. x \<in> set (delim_text delim)) [] s))"
proof (cases "length s = 0 \<or> delimAnySize delim = 0")
  case True
  then have "s = [] \<or> delim_text delim = []"
    by (cases delim) (auto simp: min_def split: if_splits)
  then have "tokens_any (\<lambda>x. x \<in> set (delim_text delim)) [] s = [s]"
    using tokens_any_none [of "\<lambda>x. x \<in> set (delim_text delim)" "[]" s] by auto
  with True show ?thesis by (auto simp: internalSplitAny_def prune_def)
next
  case False
  with internalSplitAny_loop_spec [of 0 0 0 s delim b out] show ?thesis
    by (simp add: internalSplitAny_def atDelimAny_iff)
qed

lemma tokens_any_clean:
  "list_all (\<lambda>x. \<not> P x) acc \<Longrightarrow> list_all (list_all (\<lambda>x. \<not> P x)) (tokens_any P acc s)"
  by (induction s arbitrary: acc) simp_all

lemma tokens_any_content:
  "concat (tokens_any P acc s) = acc @ filter (\<lambda>x. \<not> P x) s"
  "length (tokens_any P acc s) = length (filter P s) + 1"
  by (induction s arbitrary: acc) auto

section \<open>Trimming\<close>

definition is_white :: "byte \<Rightarrow> bool" where
  "is_white c \<longleftrightarrow> c = 0x20 \<or> c = 0x0a \<or> c = 0x0d \<or> c = 0x09"

lemma dropWhile_white: "dropWhile is_white xs = dropWhile is_white (dropWhile (\<lambda>c. c = 0x20) xs)"
  by (induction xs) (auto simp: is_white_def)

lemma dropWhile_space: "dropWhile (\<lambda>c. c = 0x20) xs = (x :: byte) # ys \<Longrightarrow> x \<noteq> 0x20"
  using hd_dropWhile [of "\<lambda>c. c = 0x20" xs] by auto

lemma empty_iff_str: "wf_range r \<Longrightarrow> empty r \<longleftrightarrow> str r = []"
  by (auto simp: range_defs)

lemma pop_front_cases:
  assumes "wf_range r" "str r = x # xs"
  obtains r' where "pop_front r = Inr r'" "wf_range r'" "str r' = xs"
  using pop_front_list [OF assms(1)] wf_members(3) [OF assms(1)] assms(2)
  by (cases "pop_front r") auto

lemma pop_back_cases:
  assumes "wf_range r" "str r = xs @ [x]"
  obtains r' where "pop_back r = Inr r'" "wf_range r'" "str r' = xs"
  using pop_back_list [OF assms(1)] wf_members(4) [OF assms(1)] assms(2)
  by (cases "pop_back r") auto

lemma ltrim_spaces_spec:
  "wf_range r \<Longrightarrow> \<exists>r'. ltrim_spaces r = Inr r' \<and> wf_range r' \<and> str r' = dropWhile (\<lambda>c. c = 0x20) (str r)"
proof (induction "str r" arbitrary: r)
  case Nil
  then show ?case by (subst ltrim_spaces.simps) (simp add: empty_iff_str)
next
  case (Cons x xs)
  from Cons.prems Cons.hyps(2) [symmetric] obtain r' where r': "pop_front r = Inr r'" "wf_range r'" "str r' = xs"
    by (rule pop_front_cases)
  with Cons.hyps(1) [of r'] Cons.prems Cons.hyps(2) [symmetric] show ?case
    by (subst ltrim_spaces.simps) (auto simp: empty_iff_str front_list)
qed

lemma ltrimWhitespace_spec:
  "wf_range r \<Longrightarrow> \<exists>r'. ltrimWhitespace r = Inr r' \<and> wf_range r' \<and> str r' = dropWhile is_white (str r)"
proof (induction "length (str r)" arbitrary: r rule: less_induct)
  case less
  obtain q where q: "ltrim_spaces r = Inr q" "wf_range q" "str q = dropWhile (\<lambda>c. c = 0x20) (str r)"
    using ltrim_spaces_spec [OF less.prems] by blast
  have dw: "dropWhile is_white (str r) = dropWhile is_white (str q)"
    unfolding q(3) by (rule dropWhile_white)
  show ?case
  proof (cases "str q")
    case Nil
    then show ?thesis
      unfolding dw using q(1,2) by (subst ltrimWhitespace.simps) (simp add: empty_iff_str)
  next
    case (Cons x xs)
    have x: "x \<noteq> 0x20" using dropWhile_space q(3) Cons by metis
    obtain q' where q': "pop_front q = Inr q'" "wf_range q'" "str q' = xs"
      using q(2) Cons by (rule pop_front_cases)
    have "length (str q) \<le> length (str r)" unfolding q(3) by (rule length_dropWhile_le)
    then have "length (str q') < length (str r)" using Cons q'(3) by simp
    from less.hyps [OF this q'(2)] obtain q'' where q'': "ltrimWhitespace q' = Inr q''" "wf_range q''"
        "str q'' = dropWhile is_white xs"
      using q'(3) by blast
    have step: "ltrimWhitespace r = (if is_oddspace x then Inr q'' else Inr q)"
      using q(1,2) q'(1) Cons q''(1)
      by (subst ltrimWhitespace.simps) (simp add: empty_iff_str front_list)
    have "is_white x \<longleftrightarrow> is_oddspace x" using x by (auto simp: is_white_def is_oddspace_def)
    with step q(2) q''(2,3) show ?thesis
      unfolding dw Cons by (cases "is_oddspace x") (simp_all add: Cons)
  qed
qed

text \<open>Trimming at the back is trimming of the reversed text.\<close>

lemma rtrim_spaces_spec:
  "wf_range r \<Longrightarrow> \<exists>r'. rtrim_spaces r = Inr r' \<and> wf_range r' \<and>
     rev (str r') = dropWhile (\<lambda>c. c = 0x20) (rev (str r))"
proof (induction "rev (str r)" arbitrary: r)
  case Nil
  then show ?case by (subst rtrim_spaces.simps) (simp add: empty_iff_str)
next
  case (Cons x xs)
  then have s: "str r = rev xs @ [x]" by (metis rev.simps(2) rev_rev_ident)
  with Cons.prems obtain r' where r': "pop_back r = Inr r'" "wf_range r'" "str r' = rev xs"
    by (rule pop_back_cases)
  with Cons.hyps(1) [of r'] Cons.prems s show ?case
    by (subst rtrim_spaces.simps) (auto simp: empty_iff_str back_list)
qed

lemma rtrimWhitespace_spec:
  "wf_range r \<Longrightarrow> \<exists>r'. rtrimWhitespace r = Inr r' \<and> wf_range r' \<and>
     rev (str r') = dropWhile is_white (rev (str r))"
proof (induction "length (str r)" arbitrary: r rule: less_induct)
  case less
  obtain q where q: "rtrim_spaces r = Inr q" "wf_range q"
      "rev (str q) = dropWhile (\<lambda>c. c = 0x20) (rev (str r))"
    using rtrim_spaces_spec [OF less.prems] by blast
  have dw: "dropWhile is_white (rev (str r)) = dropWhile is_white (rev (str q))"
    unfolding q(3) by (rule dropWhile_white)
  show ?case
  proof (cases "rev (str q)")
    case Nil
    then show ?thesis
      unfolding dw using q(1,2) by (subst rtrimWhitespace.simps) (simp add: empty_iff_str)
  next
    case (Cons x xs)
    have x: "x \<noteq> 0x20" using dropWhile_space q(3) Cons by metis
    from Cons have s: "str q = rev xs @ [x]" by (metis rev.simps(2) rev_rev_ident)
    obtain q' where q': "pop_back q = Inr q'" "wf_range q'" "str q' = rev xs"
      using q(2) s by (rule pop_back_cases)
    have "length (rev (str q)) \<le> length (rev (str r))" unfolding q(3) by (rule length_dropWhile_le)
    then have "length (str q') < length (str r)" using s q'(3) by simp
    from less.hyps [OF this q'(2)] obtain q'' where q'': "rtrimWhitespace q' = Inr q''" "wf_range q''"
        "rev (str q'') = dropWhile is_white xs"
      using q'(3) by auto
    have step: "rtrimWhitespace r = (if is_oddspace x then Inr q'' else Inr q)"
      using q(1,2) q'(1) s q''(1)
      by (subst rtrimWhitespace.simps) (simp add: empty_iff_str back_list)
    have "is_white x \<longleftrightarrow> is_oddspace x" using x by (auto simp: is_white_def is_oddspace_def)
    with step q(2) q''(2,3) show ?thesis
      unfolding dw Cons by (cases "is_oddspace x") (simp_all add: s)
  qed
qed

section \<open>Formatted output\<close>

text \<open>
  What the C standard says of \<open>vsnprintf\<close> when the formatted text is \<open>txt\<close>: the result is
  the size of the whole text, and the buffer receives as much of it as fits before the zero.
\<close>

definition formats :: "(nat \<Rightarrow> int \<times> bytes) \<Rightarrow> bytes \<Rightarrow> bool" where
  "formats vsnprintf txt \<longleftrightarrow> (\<forall>n. vsnprintf (Suc n) = (int (length txt), take n txt))"

section \<open>Properties\<close>

text \<open>C10: For every non-empty delimiter, \<open>split\<close> stays in bounds and returns tokens that
  contain no delimiter and that \<open>join\<close> puts together to the original text; with
  \<open>ignoreEmpty\<close> exactly the empty tokens are dropped. Conversely, splitting the text that
  \<open>join\<close> makes of well-cut tokens returns these tokens. \<open>splitAny\<close> returns one token more
  than there are delimiter characters, free of them and with the other characters in order.\<close>

theorem split_join_inverse:
  assumes d: "delim_text delim \<noteq> []" and ts: "well_cut (delim_text delim) ts"
  shows "(\<exists>us. internalSplit delim s [] False = Inr us \<and> well_cut (delim_text delim) us \<and>
       internalJoin delim us = Inr s \<and>
       internalSplit delim s out True = Inr (out @ filter (\<lambda>t. t \<noteq> []) us)) \<and>
    bindE (internalJoin delim ts) (\<lambda>txt. internalSplit delim txt [] False) = Inr ts \<and>
    (\<exists>us. internalSplitAny delim s [] False = Inr us \<and>
       length us = length (filter (\<lambda>x. x \<in> set (delim_text delim)) s) + 1 \<and>
       list_all (list_all (\<lambda>x. x \<notin> set (delim_text delim))) us \<and>
       concat us = filter (\<lambda>x. x \<notin> set (delim_text delim)) s)"
proof (intro conjI)
  have "well_cut (delim_text delim) (tokens (delim_text delim) [] s)"
    using tokens_well_cut [OF d, of "[]"] by simp
  then show "\<exists>us. internalSplit delim s [] False = Inr us \<and> well_cut (delim_text delim) us \<and>
       internalJoin delim us = Inr s \<and>
       internalSplit delim s out True = Inr (out @ filter (\<lambda>t. t \<noteq> []) us)"
    using tokens_joined [of "delim_text delim" "[]" s]
    by (simp add: internalSplit_spec internalJoin_spec prune_def)
  show "bindE (internalJoin delim ts) (\<lambda>txt. internalSplit delim txt [] False) = Inr ts"
    using well_cut_tokens [OF d ts] by (simp add: internalSplit_spec internalJoin_spec prune_def)
  show "\<exists>us. internalSplitAny delim s [] False = Inr us \<and>
       length us = length (filter (\<lambda>x. x \<in> set (delim_text delim)) s) + 1 \<and>
       list_all (list_all (\<lambda>x. x \<notin> set (delim_text delim))) us \<and>
       concat us = filter (\<lambda>x. x \<notin> set (delim_text delim)) s"
    using tokens_any_clean [of "\<lambda>x. x \<in> set (delim_text delim)" "[]" s]
    by (simp add: internalSplitAny_spec prune_def tokens_any_content)
qed

theorem split_join_inverse_witness:
  "bindE (internalJoin (DPiece (lit ''::'')) [lit ''a'', lit ''b''])
     (\<lambda>txt. internalSplit (DPiece (lit ''::'')) txt [] False) = Inr [lit ''a'', lit ''b'']"
proof -
  have "delim_text (DPiece (lit ''::'')) \<noteq> []"
    "well_cut (delim_text (DPiece (lit ''::''))) [lit ''a'', lit ''b'']"
    by (simp_all add: lit_def matches_at_def less_Suc_eq)
  from split_join_inverse [OF this] show ?thesis by simp
qed

text \<open>C35: For every delimiter that is not empty the fixed-arity \<open>split\<close> agrees with the general
  one: with \<open>exact\<close> it succeeds exactly when the text has as many tokens as there are outputs, and
  without it the last output receives the rest of the text unsplit. For an empty delimiter
  they disagree: the general \<open>split\<close> returns the text as its only token, while the fixed-arity
  one with \<open>exact\<close> always fails, also into one output, and without it fills the first outputs
  with empty pieces.\<close>

theorem split_fixed_agrees:
  "\<exists>ts. internalSplit delim input [] False = Inr ts \<and>
    (if delim_text delim \<noteq> [] then
       splitFixed True delim input n = Inr (if length ts = n + 1 then Some ts else None) \<and>
       splitFixed False delim input n =
         Inr (if n + 1 \<le> length ts
              then Some (take n ts @ [joined (delim_text delim) (drop n ts)]) else None)
     else ts = [input] \<and> splitFixed True delim input n = Inr None \<and>
       splitFixed False delim input n = Inr (Some (replicate n [] @ [input])))"
  by (cases "delim_text delim = []")
    (simp_all add: internalSplit_spec prune_def splitFixed_spec splitFixed_empty tokens_empty Let_def)

text \<open>C36: \<open>trimWhitespace\<close> never reads an empty piece, ends, and removes exactly the leading
  and trailing blanks, tabs, line feeds and carriage returns; the result is a well-formed
  piece of the same text.\<close>

theorem trim_whitespace:
  assumes "wf_range r"
  shows "\<exists>r'. trimWhitespace r = Inr r' \<and> wf_range r' \<and>
    str r' = dropWhile is_white (rev (dropWhile is_white (rev (str r))))"
proof -
  obtain q where q: "rtrimWhitespace r = Inr q" "wf_range q"
      "rev (str q) = dropWhile is_white (rev (str r))"
    using rtrimWhitespace_spec [OF assms] by blast
  then have "str q = rev (dropWhile is_white (rev (str r)))" by (metis rev_rev_ident)
  with q ltrimWhitespace_spec [OF q(2)] show ?thesis by (auto simp: trimWhitespace_def)
qed

theorem trim_whitespace_witness:
  "\<exists>r'. trimWhitespace (Range_string (lit '' ab '')) = Inr r' \<and> str r' = lit ''ab''"
proof -
  have "wf_range (Range_string (lit '' ab ''))"
    by (simp add: wf_range_def Range_string_def lit_def)
  from trim_whitespace [OF this] show ?thesis by (auto simp: lit_def is_white_def)
qed

text \<open>C37: Whatever \<open>vsnprintf\<close> formats, \<open>stringAppendf\<close> appends exactly that text, whether it
  fits into the inline buffer of 128 bytes or needs the heap buffer, up to the largest size
  for which the heap size does not overflow an \<open>int\<close>.\<close>

theorem string_appendf_appends:
  assumes "formats vsnprintf txt" "length txt < 2 ^ 31 - 1"
  shows "stringAppendf vsnprintf output = Inr (output @ txt)"
proof -
  have f: "vsnprintf (Suc n) = (int (length txt), take n txt)" for n
    using assms(1) by (simp add: formats_def)
  have "vsnprintf 128 = (int (length txt), take 127 txt)" using f [of 127] by simp
  with f [of "length txt"] assms(2) show ?thesis
    by (simp add: stringAppendf_def stringAppendfImpl_def)
qed

theorem string_appendf_appends_witness:
  "stringAppendf (\<lambda>n. (200, take (n - 1) (replicate 200 0x78))) [0x3e] = Inr (0x3e # replicate 200 0x78)"
  using string_appendf_appends [of "\<lambda>n. (200, take (n - 1) (replicate 200 0x78))" "replicate 200 0x78" "[0x3e]"]
  by (simp add: formats_def)

end
