(* ===== verification/Acc_String_Case.thy ===== *)
theory Acc_String_Case
  imports Acc_Range_Correct
begin

text \<open>
  The in-place case conversion \<open>toLowerAscii(char*, size_t)\<close> of \<open>String.cpp\<close>: the branchless
  conversion of one byte, the same steps on four and eight bytes packed into a word, and the
  loop that picks the width by the alignment of the address. The array is a byte list, and
  its address is an argument. A word access that is not aligned, or leaves the array, is
  undefined behaviour and the result \<open>RangeUB\<close>.
\<close>

section \<open>Conversion of one byte and of packed bytes\<close>

definition toLowerAscii8 :: "byte \<Rightarrow> byte" where
  "toLowerAscii8 c =
     (let rotated = c AND 0x7f;
          rotated = rotated + 0x25;
          rotated = rotated AND 0x7f;
          rotated = rotated + 0x1a;
          rotated = rotated AND NOT c;
          rotated = drop_bit 2 rotated;
          rotated = rotated AND 0x20
      in c + rotated)"

definition toLowerAscii32 :: "u32 \<Rightarrow> u32" where
  "toLowerAscii32 c =
     (let rotated = c AND 0x7f7f7f7f;
          rotated = rotated + 0x25252525;
          rotated = rotated AND 0x7f7f7f7f;
          rotated = rotated + 0x1a1a1a1a;
          rotated = rotated AND NOT c;
          rotated = drop_bit 2 rotated;
          rotated = rotated AND 0x20202020
      in c + rotated)"

definition toLowerAscii64 :: "u64 \<Rightarrow> u64" where
  "toLowerAscii64 c =
     (let rotated = c AND 0x7f7f7f7f7f7f7f7f;
          rotated = rotated + 0x2525252525252525;
          rotated = rotated AND 0x7f7f7f7f7f7f7f7f;
          rotated = rotated + 0x1a1a1a1a1a1a1a1a;
          rotated = rotated AND NOT c;
          rotated = drop_bit 2 rotated;
          rotated = rotated AND 0x2020202020202020
      in c + rotated)"

section \<open>The array\<close>

text \<open>Little-endian reading and writing of a word of \<open>n\<close> bytes.\<close>

fun le_word :: "bytes \<Rightarrow> 'a::len word" where
  "le_word [] = 0"
| "le_word (b # bs) = ucast b + 256 * le_word bs"

definition le_bytes :: "nat \<Rightarrow> 'a::len word \<Rightarrow> bytes" where
  "le_bytes n w = map (\<lambda>i. ucast (drop_bit (8 * i) w)) [0..<n]"

definition lower8_at :: "bytes \<Rightarrow> nat \<Rightarrow> range_error + bytes" where
  "lower8_at m i = bindE (deref m i) (\<lambda>c. store m i (toLowerAscii8 c))"

definition access_ok :: "nat \<Rightarrow> nat \<Rightarrow> bytes \<Rightarrow> nat \<Rightarrow> bool" where
  "access_ok n addr m i \<longleftrightarrow> (addr + i) mod n = 0 \<and> i + n \<le> length m"

definition lower32_at :: "nat \<Rightarrow> bytes \<Rightarrow> nat \<Rightarrow> range_error + bytes" where
  "lower32_at addr m i =
     (if access_ok 4 addr m i
      then copy_to (le_bytes 4 (toLowerAscii32 (le_word (take 4 (drop i m))))) m i
      else Inl RangeUB)"

definition lower64_at :: "nat \<Rightarrow> bytes \<Rightarrow> nat \<Rightarrow> range_error + bytes" where
  "lower64_at addr m i =
     (if access_ok 8 addr m i
      then copy_to (le_bytes 8 (toLowerAscii64 (le_word (take 8 (drop i m))))) m i
      else Inl RangeUB)"

section \<open>The loops\<close>

function head_loop :: "nat \<Rightarrow> bytes \<Rightarrow> nat \<Rightarrow> range_error + (bytes \<times> nat)" where
  "head_loop n m offset =
     bindE (lower8_at m offset) (\<lambda>m.
       if offset + 1 < n then head_loop n m (offset + 1) else Inr (m, offset + 1))"
  by pat_completeness auto
termination
  by (relation "measure (\<lambda>(n, _, offset). n - offset)") auto

function loop64 :: "nat \<Rightarrow> nat \<Rightarrow> bytes \<Rightarrow> nat \<Rightarrow> range_error + (bytes \<times> nat)" where
  "loop64 addr len m offset =
     (if offset + 8 \<le> len
      then bindE (lower64_at addr m offset) (\<lambda>m. loop64 addr len m (offset + 8))
      else Inr (m, offset))"
  by pat_completeness auto
termination
  by (relation "measure (\<lambda>(_, len, _, offset). len - offset)") auto

function loop32 :: "nat \<Rightarrow> nat \<Rightarrow> bytes \<Rightarrow> nat \<Rightarrow> range_error + (bytes \<times> nat)" where
  "loop32 addr len m offset =
     (if offset + 4 \<le> len
      then bindE (lower32_at addr m offset) (\<lambda>m. loop32 addr len m (offset + 4))
      else Inr (m, offset))"
  by pat_completeness auto
termination
  by (relation "measure (\<lambda>(_, len, _, offset). len - offset)") auto

function loop8 :: "nat \<Rightarrow> bytes \<Rightarrow> nat \<Rightarrow> range_error + bytes" where
  "loop8 len m offset =
     (if offset < len then bindE (lower8_at m offset) (\<lambda>m. loop8 len m (offset + 1)) else Inr m)"
  by pat_completeness auto
termination
  by (relation "measure (\<lambda>(len, _, offset). len - offset)") auto

declare head_loop.simps [simp del] loop64.simps [simp del] loop32.simps [simp del]
  loop8.simps [simp del]

definition align_head :: "nat \<Rightarrow> bytes \<Rightarrow> range_error + (bytes \<times> nat)" where
  "align_head addr m =
     (let len = length m;
          n = min (addr mod 4) len
      in if n \<noteq> 0 then head_loop (min (4 - n) len) m 0 else Inr (m, 0))"

definition align_mid :: "nat \<Rightarrow> nat \<Rightarrow> bytes \<Rightarrow> nat \<Rightarrow> range_error + (bytes \<times> nat)" where
  "align_mid addr len m offset =
     (let n = (addr + offset) mod 8
      in if n \<noteq> 0 \<and> offset + 4 \<le> len
         then bindE (lower32_at addr m offset) (\<lambda>m. Inr (m, offset + 4))
         else Inr (m, offset))"

definition toLowerAscii :: "nat \<Rightarrow> bytes \<Rightarrow> range_error + bytes" where
  "toLowerAscii addr m =
     (let len = length m in
      bindE (align_head addr m) (\<lambda>(m, offset).
      bindE (align_mid addr len m offset) (\<lambda>(m, offset).
      bindE (loop64 addr len m offset) (\<lambda>(m, offset).
      bindE (loop32 addr len m offset) (\<lambda>(m, offset).
        loop8 len m offset)))))"

section \<open>One byte\<close>

definition lower :: "byte \<Rightarrow> byte" where
  "lower c = (if 0x41 \<le> c \<and> c \<le> 0x5a then c + 0x20 else c)"

text \<open>The intermediate values of one byte; no addition overflows a byte.\<close>

definition rot2 :: "byte \<Rightarrow> byte" where "rot2 c = (c AND 0x7f) + 0x25"
definition rot4 :: "byte \<Rightarrow> byte" where "rot4 c = (rot2 c AND 0x7f) + 0x1a"
definition rot6 :: "byte \<Rightarrow> byte" where "rot6 c = drop_bit 2 (rot4 c AND NOT c) AND 0x20"

lemma toLowerAscii8_rot: "toLowerAscii8 c = c + rot6 c"
  by (simp add: toLowerAscii8_def rot2_def rot4_def rot6_def Let_def)

lemma lower_bytes:
  "c + rot6 c = lower c \<and> unat (c AND 0x7f) + unat (0x25 :: byte) < 256 \<and>
   unat (rot2 c AND 0x7f) + unat (0x1a :: byte) < 256 \<and> unat c + unat (rot6 c) < 256"
proof -
  have "list_all (\<lambda>i. (of_nat i :: byte) + rot6 (of_nat i) = lower (of_nat i) \<and>
      unat (of_nat i AND 0x7f :: byte) + unat (0x25 :: byte) < 256 \<and>
      unat (rot2 (of_nat i) AND 0x7f) + unat (0x1a :: byte) < 256 \<and>
      unat (of_nat i :: byte) + unat (rot6 (of_nat i)) < 256) [0..<256]"
    by code_simp
  then show ?thesis by (rule all_bytes)
qed

lemmas no_overflow = lower_bytes [THEN conjunct2, THEN conjunct1]
  lower_bytes [THEN conjunct2, THEN conjunct2, THEN conjunct1]
  lower_bytes [THEN conjunct2, THEN conjunct2, THEN conjunct2]

lemma toLowerAscii8_lower: "toLowerAscii8 c = lower c"
  using lower_bytes [of c] by (simp add: toLowerAscii8_rot)

section \<open>Packed bytes\<close>

lemma le_word_Cons: "(le_word (b # bs) :: 'a::len word) = ucast b OR push_bit 8 (le_word bs)"
proof -
  have "(256 :: 'a word) * le_word bs = push_bit 8 (le_word bs)"
    by (simp add: push_bit_eq_mult mult.commute)
  moreover have "(ucast b :: 'a word) + push_bit 8 (le_word bs) = ucast b OR push_bit 8 (le_word bs)"
    by (rule disjunctive_add) (auto simp: bit_simps dest: byte_bitD)
  ultimately show ?thesis by simp
qed

lemma bit_le_word:
  "bit (le_word bs :: 'a::len word) n \<longleftrightarrow>
     n < LENGTH('a) \<and> n < 8 * length bs \<and> bit (bs ! (n div 8)) (n mod 8)"
proof (induction bs arbitrary: n)
  case Nil
  then show ?case by simp
next
  case (Cons b bs)
  show ?case
  proof (cases "n < 8")
    case True
    then show ?thesis
      unfolding le_word_Cons by (auto simp: bit_simps)
  next
    case False
    then have "n div 8 = Suc ((n - 8) div 8)" "n mod 8 = (n - 8) mod 8"
      by (simp_all add: le_div_geq le_mod_geq)
    with False Cons.IH [of "n - 8"] show ?thesis
      unfolding le_word_Cons by (auto simp: bit_simps)
  qed
qed

lemma le_word_add:
  "(\<And>b. unat (f b) + unat (g b) < 256) \<Longrightarrow>
   (le_word (map f bs) + le_word (map g bs) :: 'a::len word) = le_word (map (\<lambda>b. f b + g b) bs)"
proof (induction bs)
  case (Cons b bs)
  have "unat (f b + g b) = unat (f b) + unat (g b)"
    using Cons.prems [of b] by (intro unat_add_lem [THEN iffD1]) simp
  then have "(ucast (f b + g b) :: 'a word) = ucast (f b) + ucast (g b)"
    by (metis of_nat_add of_nat_unat)
  moreover have "(le_word (map f bs) + le_word (map g bs) :: 'a word) = le_word (map (\<lambda>b. f b + g b) bs)"
    by (rule Cons.IH [OF Cons.prems])
  moreover have "x + 256 * y + (x' + 256 * y') = (x + x') + 256 * (y + y')" for x x' y y' :: "'a word"
    by (simp add: algebra_simps)
  ultimately show ?case by (simp only: list.map le_word.simps)
qed simp

lemma le_word_and:
  "(le_word (map f bs) AND le_word (map g bs) :: 'a::len word) = le_word (map (\<lambda>b. f b AND g b) bs)"
  by (rule bit_word_eqI) (auto simp: bit_le_word bit_simps less_mult_imp_div_less mult.commute)

lemma le_word_and_not:
  "(le_word (map f bs) AND NOT (le_word (map g bs)) :: 'a::len word) =
     le_word (map (\<lambda>b. f b AND NOT (g b)) bs)"
  by (rule bit_word_eqI) (auto simp: bit_le_word bit_simps less_mult_imp_div_less mult.commute)

lemma bit_0x20: "bit (0x20 :: byte) k \<longleftrightarrow> k = 5"
proof -
  have "(0x20 :: byte) = push_bit 5 1" by simp
  then show ?thesis
    by (simp only: bit_push_bit_iff bit_1_iff possible_bit_word) auto
qed

lemma le_word_shift:
  assumes "8 * length bs \<le> LENGTH('a::len)"
  shows "(drop_bit 2 (le_word (map f bs)) AND le_word (map (\<lambda>_. 0x20) bs) :: 'a word) =
    le_word (map (\<lambda>b. drop_bit 2 (f b) AND 0x20) bs)"
proof (rule bit_word_eqI)
  fix n :: nat
  have "(2 + n) div 8 = n div 8" "(2 + n) mod 8 = 7" if "n mod 8 = 5"
    using that by presburger+
  moreover have "2 + n < 8 * length bs" if "n mod 8 = 5" "n < 8 * length bs"
    using that by presburger
  moreover have "n div 8 < length bs" if "n < 8 * length bs"
    using that by (simp add: less_mult_imp_div_less mult.commute)
  moreover have "\<not> bit (0x20 :: byte) (n mod 8)" if "n mod 8 \<noteq> 5"
    using that unfolding bit_0x20 .
  ultimately show "bit (drop_bit 2 (le_word (map f bs)) AND le_word (map (\<lambda>_. 0x20) bs) :: 'a word) n \<longleftrightarrow>
      bit (le_word (map (\<lambda>b. drop_bit 2 (f b) AND 0x20) bs) :: 'a word) n"
    using assms by (cases "n < 8 * length bs"; cases "n mod 8 = 5")
      (simp_all add: bit_le_word bit_and_iff bit_drop_bit_eq)
qed

lemma le_bytes_le_word:
  assumes "length bs = n" "8 * n \<le> LENGTH('a::len)"
  shows "le_bytes n (le_word bs :: 'a word) = bs"
proof (rule nth_equalityI)
  fix i
  assume "i < length (le_bytes n (le_word bs :: 'a word))"
  then have i: "i < n" by (simp add: le_bytes_def)
  have "bit (ucast (drop_bit (8 * i) (le_word bs :: 'a word)) :: byte) k \<longleftrightarrow> bit (bs ! i) k" if "k < 8" for k
  proof -
    have "8 * i + k < 8 * n" using i that by presburger
    moreover have "(8 * i + k) div 8 = i" "(8 * i + k) mod 8 = k" using that by simp_all
    ultimately show ?thesis
      using assms that by (simp add: bit_simps bit_le_word)
  qed
  then show "le_bytes n (le_word bs :: 'a word) ! i = bs ! i"
    using i by (intro bit_word_eqI) (simp add: le_bytes_def)
qed (simp add: le_bytes_def assms)

lemma lower_lanes:
  assumes "8 * length bs \<le> LENGTH('a::len)"
  defines "c \<equiv> (le_word bs :: 'a word)"
  defines "M \<equiv> \<lambda>x. (le_word (map (\<lambda>_. x) bs) :: 'a word)"
  shows "c + (drop_bit 2 ((((c AND M 0x7f) + M 0x25) AND M 0x7f) + M 0x1a AND NOT c) AND M 0x20) =
    le_word (map lower bs)"
proof -
  have c: "c = le_word (map (\<lambda>b. b) bs)" by (simp add: c_def)
  have "(c AND M 0x7f) + M 0x25 = le_word (map rot2 bs)"
    unfolding c M_def le_word_and using le_word_add [OF no_overflow(1), where bs = bs] by (simp add: rot2_def [abs_def])
  moreover have "(le_word (map rot2 bs) AND M 0x7f) + M 0x1a = le_word (map rot4 bs)"
    unfolding M_def le_word_and using le_word_add [OF no_overflow(2), where bs = bs] by (simp add: rot4_def [abs_def])
  moreover have "drop_bit 2 (le_word (map rot4 bs) AND NOT c) AND M 0x20 = le_word (map rot6 bs)"
    unfolding c M_def le_word_and_not le_word_shift [OF assms(1)] by (simp add: rot6_def [abs_def])
  moreover have "c + le_word (map rot6 bs) = le_word (map lower bs)"
    unfolding c using le_word_add [of "\<lambda>b. b" rot6 bs] no_overflow(3) lower_bytes by simp
  ultimately show ?thesis by simp
qed

lemma lower_word32: "length bs = 4 \<Longrightarrow> le_bytes 4 (toLowerAscii32 (le_word bs)) = map lower bs"
proof -
  assume len: "length bs = 4"
  then obtain a b c d where bs: "bs = [a, b, c, d]"
    by (auto simp: length_Suc_conv numeral_eq_Suc)
  have "toLowerAscii32 (le_word bs) = le_word (map lower bs)"
    using lower_lanes [where 'a = 32, of bs] len by (simp add: toLowerAscii32_def Let_def bs)
  then show ?thesis using le_bytes_le_word [where 'a = 32, of "map lower bs" 4] len by simp
qed

lemma lower_word64: "length bs = 8 \<Longrightarrow> le_bytes 8 (toLowerAscii64 (le_word bs)) = map lower bs"
proof -
  assume len: "length bs = 8"
  then obtain a b c d e f g h where bs: "bs = [a, b, c, d, e, f, g, h]"
    by (auto simp: length_Suc_conv numeral_eq_Suc)
  have "toLowerAscii64 (le_word bs) = le_word (map lower bs)"
    using lower_lanes [where 'a = 64, of bs] len by (simp add: toLowerAscii64_def Let_def bs)
  then show ?thesis using le_bytes_le_word [where 'a = 64, of "map lower bs" 8] len by simp
qed

section \<open>The loops lower a growing prefix\<close>

definition lowered :: "bytes \<Rightarrow> nat \<Rightarrow> bytes" where
  "lowered m k = map lower (take k m) @ drop k m"

lemma length_lowered [simp]: "length (lowered m k) = length m"
  by (simp add: lowered_def)

lemma lowered_0 [simp]: "lowered m 0 = m"
  by (simp add: lowered_def)

lemma lowered_all [simp]: "lowered m (length m) = map lower m"
  by (simp add: lowered_def)

lemma lowered_extend:
  assumes "k + n \<le> length m"
  shows "take k (lowered m k) @ map lower (take n (drop k (lowered m k))) @ drop (k + n) (lowered m k) =
    lowered m (k + n)"
proof -
  have "take (k + n) m = take k m @ take n (drop k m)" by (simp add: take_add)
  with assms show ?thesis by (simp add: lowered_def ac_simps)
qed

lemma lower8_at_lowered: "k < length m \<Longrightarrow> lower8_at (lowered m k) k = Inr (lowered m (k + 1))"
  using lowered_extend [of k 1 m]
  by (simp add: lower8_at_def store_def toLowerAscii8_lower upd_conv_take_nth_drop take_Suc
      hd_drop_conv_nth)

lemma lower32_at_lowered:
  "(addr + k) mod 4 = 0 \<Longrightarrow> k + 4 \<le> length m \<Longrightarrow> lower32_at addr (lowered m k) k = Inr (lowered m (k + 4))"
  using lowered_extend [of k 4 m] lower_word32 [of "take 4 (drop k (lowered m k))"]
  by (simp add: lower32_at_def access_ok_def copy_to_in)

lemma lower64_at_lowered:
  "(addr + k) mod 8 = 0 \<Longrightarrow> k + 8 \<le> length m \<Longrightarrow> lower64_at addr (lowered m k) k = Inr (lowered m (k + 8))"
  using lowered_extend [of k 8 m] lower_word64 [of "take 8 (drop k (lowered m k))"]
  by (simp add: lower64_at_def access_ok_def copy_to_in)

lemma head_loop_lowered:
  "k < n \<Longrightarrow> n \<le> length m \<Longrightarrow> head_loop n (lowered m k) k = Inr (lowered m n, n)"
proof (induction "n - k" arbitrary: k)
  case (Suc d)
  show ?case
  proof (cases "k + 1 < n")
    case True
    with Suc show ?thesis by (subst head_loop.simps) (simp add: lower8_at_lowered)
  next
    case False
    with Suc.prems have "n = k + 1" by simp
    with Suc.prems show ?thesis by (subst head_loop.simps) (simp add: lower8_at_lowered)
  qed
qed simp

lemma aligned_step: "(addr + k) mod n = 0 \<Longrightarrow> (addr + (k + n)) mod n = (0 :: nat)"
  by (simp flip: add.assoc)

lemma distance_step:
  assumes "(j - (k + n)) mod n = 0" "k + n \<le> j"
  shows "(j - k) mod n = (0 :: nat)"
proof -
  have "j - k = (j - (k + n)) + n" using assms(2) by simp
  then have "(j - k) mod n = (j - (k + n)) mod n" by (simp only: mod_add_self2)
  with assms(1) show ?thesis by simp
qed

lemma loop64_lowered:
  "(k + 8 \<le> length m \<longrightarrow> (addr + k) mod 8 = 0) \<Longrightarrow> k \<le> length m \<Longrightarrow>
   \<exists>j. loop64 addr (length m) (lowered m k) k = Inr (lowered m j, j) \<and> j \<le> length m \<and>
     (j - k) mod 8 = 0 \<and> k \<le> j"
proof (induction "length m - k" arbitrary: k rule: less_induct)
  case less
  show ?case
  proof (cases "k + 8 \<le> length m")
    case True
    with less.prems have al: "(addr + k) mod 8 = 0" by simp
    then have nxt: "k + 8 + 8 \<le> length m \<longrightarrow> (addr + (k + 8)) mod 8 = 0"
      by (intro impI aligned_step)
    have dec: "length m - (k + 8) < length m - k" using True by linarith
    from less.hyps [OF dec nxt True] obtain j where
      j: "loop64 addr (length m) (lowered m (k + 8)) (k + 8) = Inr (lowered m j, j) \<and> j \<le> length m \<and>
        (j - (k + 8)) mod 8 = 0 \<and> k + 8 \<le> j" ..
    note d = j [THEN conjunct2, THEN conjunct2, THEN conjunct1]
      j [THEN conjunct2, THEN conjunct2, THEN conjunct2]
    have "loop64 addr (length m) (lowered m k) k = Inr (lowered m j, j)"
      using True al j by (subst loop64.simps) (simp add: lower64_at_lowered)
    moreover have "k \<le> j" using d(2) by simp
    moreover have "j \<le> length m" using j by simp
    ultimately show ?thesis using distance_step [OF d] by (intro exI [of _ j] conjI)
  next
    case False
    with less.prems show ?thesis by (subst loop64.simps) auto
  qed
qed

lemma loop32_lowered:
  "(k + 4 \<le> length m \<longrightarrow> (addr + k) mod 4 = 0) \<Longrightarrow> k \<le> length m \<Longrightarrow>
   \<exists>j. loop32 addr (length m) (lowered m k) k = Inr (lowered m j, j) \<and> j \<le> length m"
proof (induction "length m - k" arbitrary: k rule: less_induct)
  case less
  show ?case
  proof (cases "k + 4 \<le> length m")
    case True
    with less.prems have al: "(addr + k) mod 4 = 0" by simp
    then have nxt: "k + 4 + 4 \<le> length m \<longrightarrow> (addr + (k + 4)) mod 4 = 0"
      by (intro impI aligned_step)
    have dec: "length m - (k + 4) < length m - k" using True by linarith
    have "loop32 addr (length m) (lowered m k) k = loop32 addr (length m) (lowered m (k + 4)) (k + 4)"
      using True al by (subst loop32.simps) (simp add: lower32_at_lowered)
    with less.hyps [OF dec nxt True] show ?thesis by simp
  next
    case False
    with less.prems show ?thesis by (subst loop32.simps) auto
  qed
qed

lemma loop8_lowered: "k \<le> length m \<Longrightarrow> loop8 (length m) (lowered m k) k = Inr (map lower m)"
proof (induction "length m - k" arbitrary: k rule: less_induct)
  case less
  show ?case
  proof (cases "k < length m")
    case True
    then have "length m - (k + 1) < length m - k" by linarith
    with True less.hyps [of "k + 1"] show ?thesis
      by (subst loop8.simps) (simp add: lower8_at_lowered)
  next
    case False
    with less.prems have "k = length m" by simp
    then show ?thesis by (subst loop8.simps) simp
  qed
qed

lemma align_head_lowered:
  "\<exists>k. align_head addr m = Inr (lowered m k, k) \<and> k \<le> length m \<and>
     (k + 4 \<le> length m \<longrightarrow> (addr + k) mod 4 = 0)"
proof -
  let ?n = "min (addr mod 4) (length m)"
  show ?thesis
  proof (cases "?n = 0")
    case True
    then have "align_head addr m = Inr (lowered m 0, 0)" "4 \<le> length m \<longrightarrow> addr mod 4 = 0"
      unfolding align_head_def Let_def by (simp, linarith)
    then show ?thesis by (metis add_0 add_0_right le0)
  next
    case False
    let ?k = "min (4 - ?n) (length m)"
    have "addr mod 4 < 4" by simp
    then have "0 < ?k" "?k \<le> length m" using False by auto
    moreover have "(addr + ?k) mod 4 = 0" if "?k + 4 \<le> length m"
    proof -
      have "?k = 4 - addr mod 4" using that \<open>addr mod 4 < 4\<close> by auto
      then show ?thesis by presburger
    qed
    ultimately show ?thesis
      using False head_loop_lowered [of 0 ?k m] by (auto simp: align_head_def Let_def)
  qed
qed

lemma align_mid_lowered:
  assumes "k \<le> length m" "k + 4 \<le> length m \<longrightarrow> (addr + k) mod 4 = 0"
  shows "\<exists>j. align_mid addr (length m) (lowered m k) k = Inr (lowered m j, j) \<and> j \<le> length m \<and>
    (j + 8 \<le> length m \<longrightarrow> (addr + j) mod 8 = 0) \<and> (j + 4 \<le> length m \<longrightarrow> (addr + j) mod 4 = 0)"
proof (cases "(addr + k) mod 8 \<noteq> 0 \<and> k + 4 \<le> length m")
  case True
  then have "(addr + k) mod 4 = 0" using assms by blast
  with True have "(addr + (k + 4)) mod 8 = 0" "(addr + (k + 4)) mod 4 = 0" by presburger+
  with True \<open>(addr + k) mod 4 = 0\<close> show ?thesis
    by (intro exI [of _ "k + 4"]) (simp add: align_mid_def lower32_at_lowered)
next
  case False
  with assms show ?thesis
    by (intro exI [of _ k]) (auto simp: align_mid_def Let_def)
qed

lemma aligned_after:
  assumes "(addr + j) mod 4 = 0" "(i - j) mod 8 = 0" "j \<le> i"
  shows "(addr + i) mod 4 = (0 :: nat)"
proof -
  from assms(2) obtain q where "i - j = 8 * q" by auto
  with assms(3) have "addr + i = addr + j + 4 * (2 * q)" by simp
  then show ?thesis using assms(1) by (simp only: mod_mult_self2)
qed

section \<open>Property\<close>

text \<open>C38: At every address and for every array, \<open>toLowerAscii\<close> ends, makes only aligned word
  accesses inside the array, and replaces exactly the letters A to Z by a to z; bytes with
  the high bit set are unchanged. The packed 32- and 64-bit steps agree with the conversion
  of the single bytes.\<close>

theorem toLowerAscii_every_alignment: "toLowerAscii addr m = Inr (map lower m)"
proof -
  from align_head_lowered obtain k where k: "align_head addr m = Inr (lowered m k, k) \<and>
      k \<le> length m \<and> (k + 4 \<le> length m \<longrightarrow> (addr + k) mod 4 = 0)" ..
  with align_mid_lowered [of k m addr] obtain j where
    j: "align_mid addr (length m) (lowered m k) k = Inr (lowered m j, j) \<and> j \<le> length m \<and>
      (j + 8 \<le> length m \<longrightarrow> (addr + j) mod 8 = 0) \<and> (j + 4 \<le> length m \<longrightarrow> (addr + j) mod 4 = 0)"
    by (elim conjE) (drule (1) meta_mp | assumption | erule exE)+
  with loop64_lowered [of j m addr] obtain i where
    i: "loop64 addr (length m) (lowered m j) j = Inr (lowered m i, i) \<and> i \<le> length m \<and>
      (i - j) mod 8 = 0 \<and> j \<le> i"
    by (elim conjE) (drule (1) meta_mp | assumption | erule exE)+
  have al: "i + 4 \<le> length m \<longrightarrow> (addr + i) mod 4 = 0"
  proof
    assume "i + 4 \<le> length m"
    then have "(addr + j) mod 4 = 0" using i j by simp
    then show "(addr + i) mod 4 = 0" using i by (intro aligned_after [of addr j i]) simp_all
  qed
  have "i \<le> length m" using i by simp
  from loop32_lowered [OF al this] obtain h where
    "loop32 addr (length m) (lowered m i) i = Inr (lowered m h, h) \<and> h \<le> length m" ..
  with k j i loop8_lowered [of h m] show ?thesis
    by (simp add: toLowerAscii_def Let_def)
qed

end
