(* ===== verification/Acc_Conv.thy ===== *)
theory Acc_Conv
  imports Acc_Prelude
begin

text \<open>
  The integral part of \<open>Conv\<close> (\<open>src/accelerator/Conv.h\<close>, \<open>src/accelerator/Conv.cpp\<close>): checked
  conversions between integral types, integers to decimal text, and decimal text to integers
  and booleans. Text is a list of bytes, a pair of pointers is the list between them. An
  unsigned target type is a word type; the definitions that depend on the type take its width
  from it, and so apply to the widths for which the source instantiates \<open>MaxString\<close>.
\<close>

datatype conv_error =
    RangeError      \<comment> \<open>a failed \<open>ACC_RANGE_CHECK\<close>, thrown as \<open>std::range_error\<close>\<close>
  | ConvAssert      \<comment> \<open>a failed \<open>assert\<close>\<close>
  | SignedOverflow  \<comment> \<open>an overflow of signed arithmetic\<close>
  | TableUB         \<comment> \<open>an access outside a table or a buffer\<close>

definition range_check :: "bool \<Rightarrow> conv_error + unit" where
  "range_check c = (if c then Inr () else Inl RangeError)"

section \<open>Integral to integral\<close>

text \<open>
  An integral type is its signedness and its width. A comparison converts both sides to their
  common type first: types below 32 bits are promoted to \<open>int\<close>, and where signedness differs the
  unsigned type wins unless the signed one is wider.
\<close>

record integral = is_signed :: bool  width :: nat

definition lim_min :: "integral \<Rightarrow> int" where
  "lim_min T = (if is_signed T then - (2 ^ (width T - 1)) else 0)"

definition lim_max :: "integral \<Rightarrow> int" where
  "lim_max T = (if is_signed T then 2 ^ (width T - 1) - 1 else 2 ^ width T - 1)"

definition convert :: "integral \<Rightarrow> int \<Rightarrow> int" where
  "convert T v = (if is_signed T then signed_take_bit (width T - 1) v else take_bit (width T) v)"

definition promote :: "integral \<Rightarrow> integral" where
  "promote T = (if width T < 32 then \<lparr>is_signed = True, width = 32\<rparr> else T)"

definition common_type :: "integral \<Rightarrow> integral \<Rightarrow> integral" where
  "common_type A B = (let A = promote A; B = promote B in
     if is_signed A = is_signed B then (if width A < width B then B else A)
     else let S = (if is_signed A then A else B); U = (if is_signed A then B else A) in
       if width S \<le> width U then U else S)"

definition c_le :: "integral \<Rightarrow> int \<Rightarrow> integral \<Rightarrow> int \<Rightarrow> bool" where
  "c_le A a B b = (let C = common_type A B in convert C a \<le> convert C b)"

definition to_integral :: "integral \<Rightarrow> integral \<Rightarrow> int \<Rightarrow> conv_error + int" where
  "to_integral Src Tgt v =
     bindE (if \<not> c_le Src (lim_max Src) Tgt (lim_max Tgt)
            then range_check (c_le Src v Tgt (lim_max Tgt)) else Inr ()) (\<lambda>_.
     bindE (if is_signed Src \<and> (\<not> is_signed Tgt \<or> width Tgt < width Src)
            then range_check (c_le Tgt (lim_min Tgt) Src v) else Inr ()) (\<lambda>_.
     Inr (convert Tgt v)))"

section \<open>Integers to text\<close>

definition powersOf10 :: "u64 list" where
  "powersOf10 = [1, 10, 100, 1000, 10000, 100000, 1000000, 10000000, 100000000, 1000000000,
    10000000000, 100000000000, 1000000000000, 10000000000000, 100000000000000,
    1000000000000000, 10000000000000000, 100000000000000000,
    1000000000000000000, 10000000000000000000]"

text \<open>\<open>__builtin_clzll\<close> on a value that is not zero: 63 less the position of the highest one bit.\<close>

fun top_bit :: "nat \<Rightarrow> nat" where
  "top_bit n = (if n < 2 then 0 else Suc (top_bit (n div 2)))"

declare top_bit.simps [simp del]

definition clzll :: "u64 \<Rightarrow> nat" where
  "clzll v = 63 - top_bit (unat v)"

definition digits10 :: "u64 \<Rightarrow> conv_error + nat" where
  "digits10 v =
     (if v = 0 then Inr 1
      else
        let bits = 63 - clzll v; minLength = 1 + bits * 77 div 256 in
        if minLength < length powersOf10
        then Inr (minLength + (if powersOf10 ! minLength \<le> v then 1 else 0))
        else Inl TableUB)"

definition put_digit :: "byte list \<Rightarrow> u32 \<Rightarrow> nat \<Rightarrow> conv_error + byte list" where
  "put_digit buffer pos r =
     (case put buffer (unat pos) (of_nat (48 + r)) of None \<Rightarrow> Inl TableUB | Some b \<Rightarrow> Inr b)"

function digits_out :: "u64 \<Rightarrow> u32 \<Rightarrow> byte list \<Rightarrow> conv_error + byte list" where
  "digits_out v pos buffer =
     (if v < 10 then put_digit buffer pos (unat v)
      else bindE (put_digit buffer pos (unat (v mod 10))) (digits_out (v div 10) (pos - 1)))"
  by pat_completeness auto
termination
proof (relation "measure (\<lambda>(v, _, _). unat v)")
  fix v :: u64 and pos :: u32 and buffer x :: "byte list"
  assume "\<not> v < 10"
  then have "10 \<le> unat v" by (simp add: word_less_nat_alt)
  then have "unat v div 10 < unat v" by simp
  then show "((v div 10, pos - 1, x), (v, pos, buffer)) \<in> measure (\<lambda>(v, _, _). unat v)"
    by (simp add: unat_div)
qed simp

declare digits_out.simps [simp del]

definition uint64ToBufferUnsafe :: "u64 \<Rightarrow> byte list \<Rightarrow> conv_error + nat \<times> byte list" where
  "uint64ToBufferUnsafe v buffer =
     bindE (digits10 v) (\<lambda>result.
     bindE (digits_out v (of_nat result - 1) buffer) (\<lambda>buffer. Inr (result, buffer)))"

text \<open>\<open>result->append(buffer, n)\<close>; \<open>buffer\<close> is the uninitialised array of 20 characters.\<close>

definition append_digits :: "u64 \<Rightarrow> byte list \<Rightarrow> byte list \<Rightarrow> conv_error + byte list" where
  "append_digits v buffer result =
     bindE (uint64ToBufferUnsafe v buffer) (\<lambda>(n, buffer).
     if n \<le> length buffer then Inr (result @ take n buffer) else Inl TableUB)"

definition toAppend_signed :: "int \<Rightarrow> byte list \<Rightarrow> byte list \<Rightarrow> conv_error + byte list" where
  "toAppend_signed v buffer result =
     (if v < 0 then append_digits (- of_int v) buffer (result @ [45])
      else append_digits (of_int v) buffer result)"

definition toAppend_unsigned :: "nat \<Rightarrow> byte list \<Rightarrow> byte list \<Rightarrow> conv_error + byte list" where
  "toAppend_unsigned v buffer result = append_digits (of_nat v) buffer result"

text \<open>
  The space a value will need. The negation is done in the (promoted) type of the value before
  the cast, so it overflows on the least value of the type.
\<close>

definition estimateSpaceNeeded_unsigned :: "nat \<Rightarrow> conv_error + nat" where
  "estimateSpaceNeeded_unsigned v = digits10 (of_nat v)"

definition estimateSpaceNeeded_signed :: "integral \<Rightarrow> int \<Rightarrow> conv_error + nat" where
  "estimateSpaceNeeded_signed Src v =
     (if v < 0 then
        if lim_max Src < - v then Inl SignedOverflow
        else bindE (digits10 (of_int (- v))) (\<lambda>n. Inr (1 + n))
      else digits10 (of_int v))"

section \<open>Text to integers\<close>

definition OOR :: nat where "OOR = 10000"

definition shift_table :: "nat \<Rightarrow> nat list" where
  "shift_table m = replicate 48 OOR @ map (\<lambda>d. m * d) [0..<10] @ replicate 198 OOR"

definition shift1 :: "nat list" where "shift1 = shift_table 1"
definition shift10 :: "nat list" where "shift10 = shift_table 10"
definition shift100 :: "nat list" where "shift100 = shift_table 100"
definition shift1000 :: "nat list" where "shift1000 = shift_table 1000"

text \<open>
  The index \<open>static_cast<size_t>(b[i])\<close> of a signed \<open>char\<close>: a byte from 128 on becomes an index far
  behind the table.
\<close>

definition char_index :: "byte \<Rightarrow> u64" where
  "char_index c = scast c"

definition shift_at :: "nat list \<Rightarrow> byte \<Rightarrow> conv_error + nat" where
  "shift_at tab c =
     (let i = unat (char_index c) in if i < length tab then Inr (tab ! i) else Inl TableUB)"

text \<open>The sum of the looked-up values of up to four characters, and the assertion on it.\<close>

fun shift_sum :: "(nat list \<times> byte) list \<Rightarrow> conv_error + nat" where
  "shift_sum [] = Inr 0"
| "shift_sum ((tab, c) # r) =
     bindE (shift_at tab c) (\<lambda>r0. bindE (shift_sum r) (\<lambda>s. Inr (r0 + s)))"

definition digits_sum :: "(nat list \<times> byte) list \<Rightarrow> conv_error + nat" where
  "digits_sum r = bindE (shift_sum r) (\<lambda>sum. if sum < OOR then Inr sum else Inl ConvAssert)"

fun digits_loop :: "nat \<Rightarrow> byte list \<Rightarrow> 'a::len word \<Rightarrow> conv_error + 'a word" where
  "digits_loop sz (b0 # b1 # b2 # b3 # b) result =
     bindE (digits_sum [(shift1000, b0), (shift100, b1), (shift10, b2), (shift1, b3)]) (\<lambda>sum.
     digits_loop sz b (result * 10000 + of_nat sum))"
| "digits_loop sz [b0, b1, b2] result =
     bindE (digits_sum [(shift100, b0), (shift10, b1), (shift1, b2)]) (\<lambda>sum.
     Inr (result * 1000 + of_nat sum))"
| "digits_loop sz [b0, b1] result =
     bindE (digits_sum [(shift10, b0), (shift1, b1)]) (\<lambda>sum. Inr (result * 100 + of_nat sum))"
| "digits_loop sz [b0] result =
     bindE (digits_sum [(shift1, b0)]) (\<lambda>sum. Inr (result * 10 + of_nat sum))"
| "digits_loop sz [] result = bindE (range_check (0 < sz)) (\<lambda>_. Inr result)"

text \<open>\<open>std::numeric_limits<Tgt>::digits10\<close> and \<open>MaxString<Tgt>::value\<close>, by the width of the type.\<close>

definition limits_digits10 :: "nat \<Rightarrow> nat" where
  "limits_digits10 w = w * 643 div 2136"

definition MaxString :: "nat \<Rightarrow> byte list" where
  "MaxString w = map (\<lambda>d. of_nat (48 + d))
     (if w = 8 then [2,5,5]
      else if w = 16 then [6,5,5,3,5]
      else if w = 32 then [4,2,9,4,9,6,7,2,9,5]
      else if w = 64 then [1,8,4,4,6,7,4,4,0,7,3,7,0,9,5,5,1,6,1,5]
      else [])"

text \<open>\<open>strncmp(a, b, n) <= 0\<close> for strings of at least \<open>n\<close> characters, none of them NUL.\<close>

fun strncmp_le :: "byte list \<Rightarrow> byte list \<Rightarrow> nat \<Rightarrow> bool" where
  "strncmp_le (a # as) (b # bs) (Suc n) = (a < b \<or> a = b \<and> strncmp_le as bs n)"
| "strncmp_le as bs n = True"

function digits_to :: "byte list \<Rightarrow> conv_error + 'a::len word" where
  "digits_to b =
     (let sz = length b; lim = limits_digits10 LENGTH('a) + 1 in
      if lim \<le> sz \<and> b \<noteq> [] \<and> hd b = 48 then
        (case dropWhile (\<lambda>c. c = 48) (tl b) of [] \<Rightarrow> Inr 0 | c # cs \<Rightarrow> digits_to (c # cs))
      else
        bindE (if lim \<le> sz then range_check (sz = lim \<and> strncmp_le b (MaxString LENGTH('a)) sz)
               else Inr ()) (\<lambda>_.
        digits_loop sz b 0))"
  by pat_completeness auto
termination
proof (relation "measure length")
  fix b :: "byte list" and sz lim :: nat and c :: byte and cs :: "byte list"
  assume "sz = length b" and "lim \<le> sz \<and> b \<noteq> [] \<and> hd b = 48" and "dropWhile (\<lambda>c. c = 48) (tl b) = c # cs"
  then have "length (c # cs) \<le> length (tl b)" "b \<noteq> []" by (metis length_dropWhile_le, simp)
  then show "(c # cs, b) \<in> measure length" by (cases b) auto
qed simp

declare digits_to.simps [simp del]

definition isdigit :: "byte \<Rightarrow> bool" where
  "isdigit c \<longleftrightarrow> 48 \<le> c \<and> c \<le> 57"

definition isspace :: "byte \<Rightarrow> bool" where
  "isspace c \<longleftrightarrow> c = 32 \<or> (9 \<le> c \<and> c \<le> 13)"

text \<open>
  The signed conversion of a pointer pair. The result of a signed type of the width of \<open>'a\<close> is the
  word read as signed.
\<close>

definition to_signed :: "'a::len itself \<Rightarrow> byte list \<Rightarrow> conv_error + int" where
  "to_signed T b =
     bindE (range_check (b \<noteq> [])) (\<lambda>_.
     if \<not> isdigit (hd b) \<and> hd b = 45 then
       bindE (digits_to (tl b)) (\<lambda>t. let result = sint (- t :: 'a word) in
       bindE (range_check (result \<le> 0)) (\<lambda>_. Inr result))
     else
       bindE (if \<not> isdigit (hd b) then bindE (range_check (hd b = 43)) (\<lambda>_. Inr (tl b)) else Inr b) (\<lambda>b.
       bindE (digits_to b) (\<lambda>t. let result = sint (t :: 'a word) in
       bindE (range_check (0 \<le> result)) (\<lambda>_. Inr result))))"

definition to_unsigned :: "byte list \<Rightarrow> conv_error + 'a::len word" where
  "to_unsigned b = digits_to b"

definition findFirstNonDigit :: "byte list \<Rightarrow> byte list \<times> byte list" where
  "findFirstNonDigit b = (takeWhile (\<lambda>c. unat (scast c - 48 :: u32) < 10) b,
     dropWhile (\<lambda>c. unat (scast c - 48 :: u32) < 10) b)"

text \<open>
  \<open>to<Tgt>(StringPiece*)\<close>: the value and what is left of the piece. \<open>negative\<close> can only be set for a
  signed type.
\<close>

definition to_piece_u :: "byte list \<Rightarrow> conv_error + 'a::len word \<times> byte list" where
  "to_piece_u src =
     (let b = dropWhile isspace src in
      bindE (range_check (b \<noteq> [])) (\<lambda>_.
      bindE (range_check (isdigit (hd b))) (\<lambda>_.
      let (ds, rest) = findFirstNonDigit (tl b) in
      bindE (digits_to (hd b # ds)) (\<lambda>t. Inr (t, rest)))))"

definition to_piece_s :: "'a::len itself \<Rightarrow> byte list \<Rightarrow> conv_error + int \<times> byte list" where
  "to_piece_s T src =
     (let b = dropWhile isspace src in
      bindE (range_check (b \<noteq> [])) (\<lambda>_.
      bindE (if \<not> isdigit (hd b) then
          bindE (if hd b = 45 then Inr () else range_check (hd b = 43)) (\<lambda>_. Inr (hd b = 45, tl b))
        else Inr (False, b)) (\<lambda>(negative, b).
      bindE (range_check (b \<noteq> [])) (\<lambda>_.
      bindE (range_check (isdigit (hd b))) (\<lambda>_.
      let (ds, rest) = findFirstNonDigit (tl b) in
      bindE (digits_to (hd b # ds)) (\<lambda>t :: 'a word.
      if negative then
        let result = sint (- t) in bindE (range_check (result \<le> 0)) (\<lambda>_. Inr (result, rest))
      else
        let result = sint t in bindE (range_check (0 \<le> result)) (\<lambda>_. Inr (result, rest))))))))"

fun enforceWhitespace :: "byte list \<Rightarrow> conv_error + unit" where
  "enforceWhitespace [] = Inr ()"
| "enforceWhitespace (c # b) = bindE (range_check (isspace c)) (\<lambda>_. enforceWhitespace b)"

definition to_u :: "byte list \<Rightarrow> conv_error + 'a::len word" where
  "to_u src = bindE (to_piece_u src) (\<lambda>(result, rest).
     bindE (enforceWhitespace rest) (\<lambda>_. Inr result))"

definition to_s :: "'a::len itself \<Rightarrow> byte list \<Rightarrow> conv_error + int" where
  "to_s T src = bindE (to_piece_s T src) (\<lambda>(result, rest).
     bindE (enforceWhitespace rest) (\<lambda>_. Inr result))"


section \<open>Text to booleans\<close>

definition tolower :: "byte \<Rightarrow> byte" where
  "tolower c = (if 65 \<le> c \<and> c \<le> 90 then c + 32 else c)"

text \<open>What follows the value in the text, if the text starts with it in any case.\<close>

fun bool_str_cmp :: "byte list \<Rightarrow> byte list \<Rightarrow> byte list option" where
  "bool_str_cmp b [] = Some b"
| "bool_str_cmp [] (v # vs) = None"
| "bool_str_cmp (p # b) (v # vs) = (if tolower p \<noteq> v then None else bool_str_cmp b vs)"

fun bool_digits :: "bool \<Rightarrow> byte list \<Rightarrow> conv_error + bool \<times> byte list" where
  "bool_digits result [] = Inr (result, [])"
| "bool_digits result (c # b) =
     (if isdigit c then
        bindE (range_check (\<not> result \<and> (c = 48 \<or> c = 49))) (\<lambda>_. bool_digits (c = 49) b)
      else Inr (result, c # b))"

definition str_to_bool :: "byte list \<Rightarrow> conv_error + bool \<times> byte list" where
  "str_to_bool src =
     (let b = dropWhile isspace src;
          word = (\<lambda>w. case bool_str_cmp b (lit w) of Some r \<Rightarrow> r | None \<Rightarrow> tl b) in
      bindE (range_check (b \<noteq> [])) (\<lambda>_.
      let c = hd b in
      if c = 48 \<or> c = 49 then bool_digits False b
      else if c = 121 \<or> c = 89 then Inr (True, word ''yes'')
      else if c = 110 \<or> c = 78 then Inr (False, word ''no'')
      else if c = 116 \<or> c = 84 then Inr (True, word ''true'')
      else if c = 102 \<or> c = 70 then Inr (False, word ''false'')
      else if c = 111 \<or> c = 79 then
        (case bool_str_cmp b (lit ''on'') of
           Some r \<Rightarrow> Inr (True, r)
         | None \<Rightarrow> (case bool_str_cmp b (lit ''off'') of
             Some r \<Rightarrow> Inr (False, r)
           | None \<Rightarrow> Inl RangeError))
      else Inl RangeError))"

end
