(* ===== verification/Acc_Conv_Correct.thy ===== *)
theory Acc_Conv_Correct
  imports Acc_Conv
begin

text \<open>
  Correctness of the integral conversions: the check between integral types, printing and parsing
  against the decimal numeral of a number.
\<close>

section \<open>Conversion between integral types\<close>

definition in_range :: "integral \<Rightarrow> int \<Rightarrow> bool" where
  "in_range T v \<longleftrightarrow> lim_min T \<le> v \<and> v \<le> lim_max T"

lemma convert_id: "in_range T v \<Longrightarrow> 0 < width T \<Longrightarrow> convert T v = v"
  by (auto simp: in_range_def convert_def lim_min_def lim_max_def signed_take_bit_int_eq_self
      take_bit_int_eq_self)

lemma promote_width: "0 < width (promote T)"
  by (simp add: promote_def)

lemma common_type_cases: "common_type A B = promote A \<or> common_type A B = promote B"
  unfolding common_type_def Let_def by presburger

lemma common_type_width: "0 < width (common_type A B)"
  using common_type_cases [of A B] promote_width by metis

lemma c_le_id: "in_range (common_type A B) a \<Longrightarrow> in_range (common_type A B) b \<Longrightarrow> c_le A a B b \<longleftrightarrow> a \<le> b"
  by (simp add: c_le_def Let_def convert_id common_type_width)


lemma lim_max_nonneg: "0 \<le> lim_max T" and lim_min_nonpos: "lim_min T \<le> 0"
  by (simp_all add: lim_max_def lim_min_def)

lemma lim_min_signed: "is_signed T \<Longrightarrow> lim_min T = - lim_max T - 1"
  by (simp add: lim_max_def lim_min_def)

lemma lim_max_mono:
  assumes "if is_signed B then (if is_signed A then width A \<le> width B else width A < width B)
    else width A \<le> width B"
  shows "lim_max A \<le> lim_max B"
proof -
  let ?e = "\<lambda>T. if is_signed T then width T - 1 else width T"
  have e: "lim_max T = 2 ^ ?e T - 1" for T by (simp add: lim_max_def)
  have "?e A \<le> ?e B" using assms by (auto split: if_splits)
  then have "(2::int) ^ ?e A \<le> 2 ^ ?e B" by (rule power_increasing) simp
  then show ?thesis unfolding e by linarith
qed

lemma lim_max_promote: "lim_max A \<le> lim_max (promote A)"
proof (cases "width A < 32")
  case True
  then have "promote A = \<lparr>is_signed = True, width = 32\<rparr>" by (simp add: promote_def)
  then show ?thesis using True by (intro lim_max_mono) simp
qed (simp add: promote_def)

lemma lim_max_common: "lim_max A \<le> lim_max (common_type A B)" "lim_max B \<le> lim_max (common_type A B)"
proof -
  have "lim_max (promote A) \<le> lim_max (common_type A B)" "lim_max (promote B) \<le> lim_max (common_type A B)"
    unfolding common_type_def Let_def by (auto intro!: lim_max_mono)
  then show "lim_max A \<le> lim_max (common_type A B)" "lim_max B \<le> lim_max (common_type A B)"
    using lim_max_promote order_trans by blast+
qed

lemma common_signed:
  assumes "is_signed A" and "is_signed B \<or> width B < 32 \<or> width B < width A"
  shows "is_signed (common_type A B)" and "is_signed (common_type B A)"
  using assms by (auto simp: common_type_def promote_def Let_def)

lemma in_common:
  assumes "in_range A v" and "v < 0 \<Longrightarrow> is_signed A \<and> (is_signed B \<or> width B < 32 \<or> width B < width A)"
  shows "in_range (common_type A B) v \<and> in_range (common_type B A) v"
proof (cases "v < 0")
  case True
  note c = assms(2) [OF True]
  have "lim_min A \<le> v" using assms(1) by (simp add: in_range_def)
  then show ?thesis
    using True c lim_max_common(1) [of A B] lim_max_common(2) [of A B] lim_max_common(2) [of A B]
      common_signed [of A B] lim_max_common [of B A] lim_max_nonneg [of "common_type A B"]
      lim_max_nonneg [of "common_type B A"]
    by (simp add: in_range_def lim_min_signed)
next
  case False
  then show ?thesis
    using assms(1) lim_max_common [of A B] lim_max_common [of B A] lim_min_nonpos [of "common_type A B"]
      lim_min_nonpos [of "common_type B A"] by (simp add: in_range_def)
qed


lemma max_in_common: "in_range (common_type A B) (lim_max A) \<and> in_range (common_type B A) (lim_max A)"
proof (rule in_common)
  show "in_range A (lim_max A)"
    unfolding in_range_def using lim_max_nonneg [of A] lim_min_nonpos [of A] by linarith
qed (use lim_max_nonneg [of A] in linarith)

lemma c_le_max: "c_le A (lim_max A) B (lim_max B) \<longleftrightarrow> lim_max A \<le> lim_max B"
  using max_in_common by (intro c_le_id) blast+

lemma to_integral_exact:
  assumes v: "in_range Src v" and w: "0 < width Tgt"
    and fits: "v < 0 \<Longrightarrow> is_signed Tgt \<or> width Tgt < 32 \<or> width Tgt < width Src"
  shows "to_integral Src Tgt v = (if in_range Tgt v then Inr v else Inl RangeError)"
proof -
  have s: "is_signed Src" if "v < 0" using v that by (auto simp: in_range_def lim_min_def split: if_splits)
  have vc: "in_range (common_type Src Tgt) v \<and> in_range (common_type Tgt Src) v"
    using fits s by (intro in_common [OF v]) blast
  have c2: "c_le Src v Tgt (lim_max Tgt) \<longleftrightarrow> v \<le> lim_max Tgt"
    using max_in_common vc by (intro c_le_id) blast+
  have c3: "c_le Tgt (lim_min Tgt) Src v \<longleftrightarrow> lim_min Tgt \<le> v"
    if "is_signed Src" "\<not> is_signed Tgt \<or> width Tgt < width Src"
  proof (rule c_le_id)
    have "in_range Tgt (lim_min Tgt)"
      unfolding in_range_def using lim_max_nonneg [of Tgt] lim_min_nonpos [of Tgt] by linarith
    moreover have "is_signed Tgt" if "lim_min Tgt < 0" using that by (simp add: lim_min_def split: if_splits)
    ultimately show "in_range (common_type Tgt Src) (lim_min Tgt)"
      using that(1) in_common [of Tgt "lim_min Tgt" Src] by blast
  qed (use vc in blast)
  have lo: "lim_min Tgt \<le> v" if "\<not> (is_signed Src \<and> (\<not> is_signed Tgt \<or> width Tgt < width Src))"
  proof (cases "is_signed Src")
    case True
    then have "lim_max Src \<le> lim_max Tgt" using that by (intro lim_max_mono) auto
    then show ?thesis using True that v lim_min_signed [of Src] lim_min_signed [of Tgt]
      by (auto simp: in_range_def)
  next
    case False
    then have "0 \<le> v" using s by force
    then show ?thesis using lim_min_nonpos [of Tgt] by linarith
  qed
  have hi: "v \<le> lim_max Tgt" if "lim_max Src \<le> lim_max Tgt"
    using v that by (simp add: in_range_def)
  have cv: "convert Tgt v = v" if "in_range Tgt v" using convert_id [OF that w] .
  show ?thesis
    unfolding to_integral_def c_le_max c2 using c3 lo hi cv
    by (auto simp: range_check_def in_range_def)
qed

text \<open>
  Negative values pass the check into an unsigned type that is at least as wide as \<open>int\<close> and as the
  source, since the comparison with zero is then made in an unsigned type.
\<close>

lemma common_unsigned:
  assumes "is_signed Src" and "\<not> is_signed Tgt" and "32 \<le> width Tgt" and "width Src \<le> width Tgt"
  shows "common_type Tgt Src = Tgt"
  using assms by (auto simp: common_type_def promote_def Let_def)

lemma to_integral_wraps:
  assumes v: "in_range Src v" "v < 0"
    and T: "\<not> is_signed Tgt" "32 \<le> width Tgt" "width Src \<le> width Tgt"
  shows "to_integral Src Tgt v = Inr (v mod 2 ^ width Tgt)"
proof -
  have s: "is_signed Src" using v by (auto simp: in_range_def lim_min_def split: if_splits)
  have "lim_max Src \<le> lim_max Tgt" using T s by (intro lim_max_mono) auto
  moreover have "c_le Tgt (lim_min Tgt) Src v"
    using T(1) by (simp add: c_le_def common_unsigned [OF s T] convert_def lim_min_def)
  ultimately show ?thesis
    using T(1) by (simp add: to_integral_def c_le_max range_check_def convert_def take_bit_eq_mod)
qed

text \<open>
  Checked conversion between integral types other than \<open>bool\<close>. A value of the source type converts to itself if
  the target type can represent it and throws otherwise, with one exception: a negative value
  is not refused by an unsigned target at least as wide as \<open>int\<close> and as the source, and wraps.
\<close>

lemma to_integral_checked:
  assumes "in_range Src v" and "0 < width Tgt"
  shows "to_integral Src Tgt v =
    (if v < 0 \<and> \<not> is_signed Tgt \<and> 32 \<le> width Tgt \<and> width Src \<le> width Tgt then Inr (v mod 2 ^ width Tgt)
     else if in_range Tgt v then Inr v else Inl RangeError)"
proof (cases "v < 0 \<and> \<not> is_signed Tgt \<and> 32 \<le> width Tgt \<and> width Src \<le> width Tgt")
  case True
  then show ?thesis using to_integral_wraps [OF assms(1)] by simp
next
  case False
  then show ?thesis using to_integral_exact [OF assms] by auto
qed

lemma to_integral_examples:
  "to_integral \<lparr>is_signed = True, width = 32\<rparr> \<lparr>is_signed = False, width = 32\<rparr> (- 1) = Inr 4294967295 \<and>
   to_integral \<lparr>is_signed = True, width = 64\<rparr> \<lparr>is_signed = False, width = 32\<rparr> (- 1) = Inl RangeError"
  using to_integral_checked [of "\<lparr>is_signed = True, width = 32\<rparr>" "- 1" "\<lparr>is_signed = False, width = 32\<rparr>"]
    to_integral_checked [of "\<lparr>is_signed = True, width = 64\<rparr>" "- 1" "\<lparr>is_signed = False, width = 32\<rparr>"]
  by (simp add: in_range_def lim_min_def lim_max_def)

section \<open>Decimal numerals\<close>

text \<open>The reference: the numeral of a number without leading zeros, and the value of a digit string.\<close>

fun dec :: "nat \<Rightarrow> byte list" where
  "dec n = (if n < 10 then [of_nat (48 + n)] else dec (n div 10) @ [of_nat (48 + n mod 10)])"

declare dec.simps [simp del]

definition sdec :: "int \<Rightarrow> byte list" where
  "sdec v = (if v < 0 then 45 # dec (nat (- v)) else dec (nat v))"

definition digit :: "byte \<Rightarrow> nat" where
  "digit c = unat c - 48"

definition val :: "byte list \<Rightarrow> nat" where
  "val ds = foldl (\<lambda>a c. 10 * a + digit c) 0 ds"

lemma val_snoc [simp]: "val (ds @ [c]) = 10 * val ds + digit c"
  by (simp add: val_def)

lemma val_Nil [simp]: "val [] = 0"
  by (simp add: val_def)

lemma val_append: "val (ds @ es) = val ds * 10 ^ length es + val es"
proof (induction es rule: rev_induct)
  case (snoc x es)
  have "val (ds @ es @ [x]) = val ((ds @ es) @ [x])" by simp
  then show ?case using snoc by (simp add: algebra_simps del: append_assoc)
qed simp

lemma val_Cons: "val (c # ds) = digit c * 10 ^ length ds + val ds"
  using val_append [of "[c]" ds] by (simp add: val_def [of "[c]"])



lemma isdigit_unat: "isdigit c \<longleftrightarrow> 48 \<le> unat c \<and> unat c \<le> 57"
  by (simp add: isdigit_def word_le_nat_alt)


lemma digit_less: "isdigit c \<Longrightarrow> digit c < 10"
  by (auto simp: isdigit_unat digit_def)


lemma length_dec:
  "10 ^ k \<le> n \<or> k = 0 \<Longrightarrow> n < 10 ^ Suc k \<Longrightarrow> length (dec n) = Suc k"
proof (induction k arbitrary: n)
  case 0
  then show ?case by (simp add: dec.simps)
next
  case (Suc k)
  have "10 \<le> n" using Suc.prems(1) by (auto intro: order_trans [rotated])
  have "10 ^ k \<le> n div 10" "n div 10 < 10 ^ Suc k"
    using Suc.prems by (auto simp: less_mult_imp_div_less less_eq_div_iff_mult_less_eq mult.commute)
  then show ?case using Suc.IH [of "n div 10"] \<open>10 \<le> n\<close> by (simp add: dec.simps [of n])
qed

section \<open>Printing\<close>

lemma top_bit_bounds: "0 < n \<Longrightarrow> 2 ^ top_bit n \<le> n \<and> n < 2 ^ Suc (top_bit n)"
proof (induction n rule: top_bit.induct)
  case (1 n)
  show ?case
  proof (cases "n < 2")
    case True
    then show ?thesis using 1 by (simp add: top_bit.simps [of n])
  next
    case False
    then have "2 ^ top_bit (n div 2) \<le> n div 2 \<and> n div 2 < 2 ^ Suc (top_bit (n div 2))"
      using 1 by simp
    then show ?thesis using False by (simp add: top_bit.simps [of n]) linarith
  qed
qed

lemma powersOf10_nth: "m < 20 \<Longrightarrow> unat (powersOf10 ! m) = 10 ^ m"
proof -
  have "list_all (\<lambda>m. powersOf10 ! m = of_nat (10 ^ m)) [0..<20]"
    by (simp add: powersOf10_def upt_rec)
  moreover assume "m < 20"
  ultimately have "powersOf10 ! m = of_nat (10 ^ m)" by (simp add: list_all_iff del: of_nat_power)
  moreover have "(10::nat) ^ m < 2 ^ 64"
  proof -
    have "(10::nat) ^ m \<le> 10 ^ 19" using \<open>m < 20\<close> by (intro power_increasing) auto
    then show ?thesis by (rule le_less_trans) simp
  qed
  ultimately show ?thesis by (simp add: unsigned_of_nat take_bit_nat_eq_self del: of_nat_power)
qed

lemma digits10_estimate:
  assumes "b < 64"
  defines "m \<equiv> b * 77 div 256"
  shows "m < 19" and "(10::nat) ^ m \<le> 2 ^ b" and "(2::nat) ^ Suc b \<le> 10 ^ (m + 2)"
proof -
  have "list_all (\<lambda>b. b * 77 div 256 < 19 \<and> (10::nat) ^ (b * 77 div 256) \<le> 2 ^ b \<and>
      (2::nat) ^ Suc b \<le> 10 ^ (b * 77 div 256 + 2)) [0..<64]"
    by (simp add: upt_rec)
  then show "m < 19" "(10::nat) ^ m \<le> 2 ^ b" "(2::nat) ^ Suc b \<le> 10 ^ (m + 2)"
    using assms by (auto simp: list_all_iff)
qed

lemma digits10_exact: "digits10 v = Inr (length (dec (unat v)))"
proof (cases "v = 0")
  case True
  then show ?thesis by (simp add: digits10_def dec.simps)
next
  case False
  let ?n = "unat v" and ?b = "top_bit (unat v)"
  have n: "0 < ?n" using False by (simp add: unat_gt_0)
  have lo: "2 ^ ?b \<le> ?n" and hi: "?n < 2 ^ Suc ?b" using top_bit_bounds [OF n] by auto
  have "?n < 2 ^ 64" using unsigned_less [of v] by simp
  then have b: "?b < 64" using lo by (metis le_less_trans power_strict_increasing_iff one_less_numeral_iff semiring_norm(76))
  let ?m = "?b * 77 div 256"
  note e = digits10_estimate [OF b]
  have p: "unat (powersOf10 ! Suc ?m) = 10 ^ Suc ?m" using e(1) by (intro powersOf10_nth) simp
  have d: "digits10 v = Inr (Suc ?m + (if 10 ^ Suc ?m \<le> ?n then 1 else 0))"
    using False b e(1) p by (simp add: digits10_def clzll_def Let_def powersOf10_def word_le_nat_alt del: power_Suc)
  show ?thesis
  proof (cases "10 ^ Suc ?m \<le> ?n")
    case True
    have "?n < 10 ^ Suc (Suc ?m)" using hi e(3) by (simp add: numeral_2_eq_2)
    then show ?thesis using d True length_dec [of "Suc ?m" ?n] by simp
  next
    case False
    have "10 ^ ?m \<le> ?n" using lo e(2) by linarith
    then show ?thesis using d False length_dec [of ?m ?n] by simp
  qed
qed


lemma length_dec_le: "n < 2 ^ 64 \<Longrightarrow> length (dec n) \<le> 20"
proof -
  assume n: "n < 2 ^ 64"
  have "length (dec n) \<le> Suc k" if "n < 10 ^ Suc k" for n k
    using that
  proof (induction k arbitrary: n)
    case 0
    then show ?case by (simp add: dec.simps)
  next
    case (Suc k)
    then have "n div 10 < 10 ^ Suc k" by (simp add: less_mult_imp_div_less mult.commute)
    then show ?case using Suc.IH [of "n div 10"] by (simp add: dec.simps [of n])
  qed
  from this [of n 19] show ?thesis using n by simp
qed

lemma digits_out_dec:
  assumes "length (dec (unat v)) \<le> length buffer" and "length buffer \<le> 20"
    and "pos = of_nat (length (dec (unat v))) - 1"
  shows "digits_out v pos buffer = Inr (dec (unat v) @ drop (length (dec (unat v))) buffer)"
  using assms
proof (induction v pos buffer rule: digits_out.induct)
  case (1 v pos buffer)
  show ?case
  proof (cases "v < 10")
    case True
    then have d: "dec (unat v) = [of_nat (48 + unat v)]"
      by (simp add: dec.simps [of "unat v"] word_less_nat_alt del: of_nat_add)
    obtain x xs where "buffer = x # xs" using "1.prems"(1) d by (cases buffer) auto
    then show ?thesis
      using True "1.prems"(3) d by (simp add: digits_out.simps [of v] put_digit_def put_def del: of_nat_add)
  next
    case False
    let ?h = "dec (unat (v div 10))" and ?c = "of_nat (48 + unat (v mod 10)) :: byte"
    have d: "dec (unat v) = ?h @ [?c]"
      using False by (simp add: dec.simps [of "unat v"] word_less_nat_alt unat_div unat_mod del: of_nat_add)
    have k: "length ?h < length buffer" using "1.prems"(1) d by simp
    have pos: "pos = of_nat (length ?h)" using "1.prems"(3) d by simp
    have u: "unat pos = length ?h"
      unfolding pos using k "1.prems"(2) by (intro unat_of_nat_u32) simp
    let ?b = "buffer[length ?h := ?c]"
    have "put_digit buffer pos (unat (v mod 10)) = Inr ?b"
      using k u by (simp add: put_digit_def put_def del: of_nat_add)
    moreover from this have "digits_out (v div 10) (pos - 1) ?b = Inr (?h @ drop (length ?h) ?b)"
      using "1.IH" [OF False] k pos "1.prems"(2) by simp
    moreover have "drop (length ?h) ?b = ?c # drop (Suc (length ?h)) buffer"
      using k by (simp add: drop_update_swap Cons_nth_drop_Suc [symmetric] del: of_nat_add)
    ultimately show ?thesis using False d by (simp add: digits_out.simps [of v] del: of_nat_add)
  qed
qed

lemma append_digits_dec:
  assumes "length buffer = 20"
  shows "append_digits v buffer result = Inr (result @ dec (unat v))"
proof -
  have l: "length (dec (unat v)) \<le> 20"
    using unsigned_less [of v] by (intro length_dec_le) simp
  then show ?thesis
    using assms digits_out_dec [of v buffer]
    by (simp add: append_digits_def uint64ToBufferUnsafe_def digits10_exact)
qed


lemma toAppend_signed_dec:
  assumes "length buffer = 20" and "- (2 ^ 63) \<le> v" and "v < 2 ^ 63"
  shows "toAppend_signed v buffer result =
    Inr (result @ sdec v)"
proof -
  have "unat (of_int k :: u64) = nat k" if "0 \<le> k" "k \<le> 2 ^ 63" for k
    using that by (simp add: unsigned_of_int take_bit_int_eq_self)
  from this [of v] this [of "- v"] show ?thesis
    using assms by (auto simp: toAppend_signed_def append_digits_dec sdec_def)
qed


section \<open>Parsing\<close>

lemma char_index_digit: "isdigit c \<Longrightarrow> unat (char_index c) = unat c"
proof -
  assume "isdigit c"
  moreover have "isdigit c \<longrightarrow> char_index c = ucast c" by (rule all_bytes) code_simp
  ultimately have c: "char_index c = ucast c" by blast
  have "unat c < 2 ^ 64" by (rule less_le_trans [OF unsigned_less]) simp
  then have "take_bit 64 (unat c) = unat c" by (rule take_bit_nat_eq_self)
  then show ?thesis by (simp add: c unsigned_ucast_eq)
qed

lemma shift_at_digit: "isdigit c \<Longrightarrow> shift_at (shift_table m) c = Inr (m * digit c)"
proof -
  assume c: "isdigit c"
  then obtain d where d: "unat c = 48 + d" "d < 10" "digit c = d"
    by (auto simp: isdigit_unat digit_def intro: that [of "unat c - 48"])
  then show ?thesis
    using char_index_digit [OF c] by (simp add: shift_at_def shift_table_def nth_append)
qed

lemmas shift_digit =
  shift_at_digit [of _ 1, folded shift1_def] shift_at_digit [of _ 10, folded shift10_def]
  shift_at_digit [of _ 100, folded shift100_def] shift_at_digit [of _ 1000, folded shift1000_def]

lemma digits_loop_val:
  fixes result :: "'a::len word"
  assumes "list_all isdigit ds" and "0 < sz"
  shows "digits_loop sz ds result = Inr (result * of_nat (10 ^ length ds) + of_nat (val ds))"
  using assms
proof (induction sz ds result rule: digits_loop.induct)
  case (1 sz b0 b1 b2 b3 b result)
  then have d: "digit b0 < 10" "digit b1 < 10" "digit b2 < 10" "digit b3 < 10"
    by (simp_all add: digit_less)
  let ?s = "1000 * digit b0 + (100 * digit b1 + (10 * digit b2 + digit b3))"
  have "digits_sum [(shift1000, b0), (shift100, b1), (shift10, b2), (shift1, b3)] = Inr ?s"
    using 1 d by (simp add: digits_sum_def shift_digit OOR_def)
  moreover have "val (b0 # b1 # b2 # b3 # b) = ?s * 10 ^ length b + val b"
    by (simp add: val_Cons algebra_simps)
  ultimately show ?case using 1 by (simp add: algebra_simps)
next
  case (2 sz b0 b1 b2 result)
  then have "digit b0 < 10" "digit b1 < 10" "digit b2 < 10" by (simp_all add: digit_less)
  then show ?case using 2 by (simp add: digits_sum_def shift_digit OOR_def val_Cons algebra_simps)
next
  case (3 sz b0 b1 result)
  then have "digit b0 < 10" "digit b1 < 10" by (simp_all add: digit_less)
  then show ?case using 3 by (simp add: digits_sum_def shift_digit OOR_def val_Cons algebra_simps)
next
  case (4 sz b0 result)
  then have "digit b0 < 10" by (simp_all add: digit_less)
  then show ?case using 4 by (simp add: digits_sum_def shift_digit OOR_def val_Cons algebra_simps)
qed (simp add: range_check_def)

lemma val_less: "list_all isdigit ds \<Longrightarrow> val ds < 10 ^ length ds"
proof (induction ds)
  case (Cons c ds)
  then have "digit c \<le> 9" "val ds < 10 ^ length ds" using digit_less [of c] by auto
  then have "digit c * 10 ^ length ds + val ds < 9 * 10 ^ length ds + 10 ^ length ds"
    by (intro add_le_less_mono mult_right_mono) auto
  then show ?case by (simp add: val_Cons)
qed simp

lemma strncmp_le_val:
  "list_all isdigit as \<Longrightarrow> list_all isdigit bs \<Longrightarrow> length as = length bs \<Longrightarrow>
     strncmp_le as bs (length as) \<longleftrightarrow> val as \<le> val bs"
proof (induction as arbitrary: bs)
  case (Cons a as)
  then obtain b bs' where b: "bs = b # bs'" by (cases bs) auto
  have len: "length as = length bs'" and v: "val as < 10 ^ length as" "val bs' < 10 ^ length as"
    using Cons.prems b val_less [of as] val_less [of bs'] by auto
  have ab: "a < b \<longleftrightarrow> digit a < digit b" "a = b \<longleftrightarrow> digit a = digit b"
    using Cons.prems b by (auto simp: isdigit_unat digit_def word_less_nat_alt word_unat_eq_iff)
  let ?P = "10 ^ length as :: nat"
  have lt: "x * ?P + u \<le> y * ?P + v \<longleftrightarrow> x < y \<or> x = y \<and> u \<le> v" if "u < ?P" "v < ?P" for x y u v :: nat
  proof (rule linorder_cases [of x y])
    assume "x < y"
    then have "Suc x * ?P \<le> y * ?P" by (intro mult_right_mono) auto
    then show ?thesis using that \<open>x < y\<close> by simp
  next
    assume "y < x"
    then have "Suc y * ?P \<le> x * ?P" by (intro mult_right_mono) auto
    then show ?thesis using that \<open>y < x\<close> by simp
  qed simp
  show ?case
    using Cons.IH [of bs'] Cons.prems b len lt [OF v, of "digit a" "digit b"] ab by (simp add: val_Cons)
qed simp


definition conv_width :: "nat \<Rightarrow> bool" where
  "conv_width w \<longleftrightarrow> w = 8 \<or> w = 16 \<or> w = 32 \<or> w = 64"

lemma MaxString_facts:
  assumes "conv_width w"
  shows "length (MaxString w) = limits_digits10 w + 1" and "list_all isdigit (MaxString w)"
    and "val (MaxString w) = 2 ^ w - 1" and "10 ^ limits_digits10 w < (2::nat) ^ w"
    and "(2::nat) ^ w \<le> 10 ^ (limits_digits10 w + 1)"
  using assms unfolding conv_width_def
  by (elim disjE; simp add: MaxString_def limits_digits10_def val_def digit_def isdigit_def)+

lemma val_drop_zeros: "val (dropWhile (\<lambda>c. c = 48) ds) = val ds"
  by (induction ds) (simp_all add: val_Cons digit_def)

lemma le_pred_iff: "0 < X \<Longrightarrow> x \<le> X - 1 \<longleftrightarrow> x < (X::nat)"
  by auto

lemma digits_to_check:
  assumes w: "conv_width LENGTH('a::len)" and ds: "list_all isdigit ds" "ds \<noteq> []"
    and h: "\<not> (limits_digits10 LENGTH('a) + 1 \<le> length ds \<and> hd ds = 48)"
  shows "(digits_to ds :: conv_error + 'a word) =
    (if val ds < 2 ^ LENGTH('a) then Inr (of_nat (val ds)) else Inl RangeError)"
proof -
  let ?L = "limits_digits10 LENGTH('a) + 1"
  note m = MaxString_facts [OF w]
  have loop: "digits_loop (length ds) ds 0 = Inr (of_nat (val ds) :: 'a word)"
    using digits_loop_val [of ds "length ds" 0] ds by simp
  consider "length ds < ?L" | "length ds = ?L" | "?L < length ds" by linarith
  then show ?thesis
  proof cases
    case 1
    then have "(10::nat) ^ length ds \<le> 10 ^ limits_digits10 LENGTH('a)" by (intro power_increasing) auto
    then have "val ds < 2 ^ LENGTH('a)" using val_less [OF ds(1)] m(4) by linarith
    then show ?thesis using 1 loop by (simp add: digits_to.simps [of ds])
  next
    case 2
    then have "strncmp_le ds (MaxString LENGTH('a)) (length ds) \<longleftrightarrow> val ds \<le> 2 ^ LENGTH('a) - 1"
      using strncmp_le_val [OF ds(1) m(2)] m(1,3) by simp
    also have "\<dots> \<longleftrightarrow> val ds < 2 ^ LENGTH('a)" by (rule le_pred_iff) simp
    finally show ?thesis using 2 h ds(2) loop by (simp add: digits_to.simps [of ds] range_check_def)
  next
    case 3
    then obtain c cs where c: "ds = c # cs" "c \<noteq> 48" "isdigit c" using h ds by (cases ds) auto
    then have "1 \<le> digit c" by (auto simp: isdigit_unat digit_def word_unat_eq_iff)
    then have "1 * 10 ^ length cs \<le> digit c * 10 ^ length cs" by (rule mult_right_mono) simp
    then have "10 ^ length cs \<le> val ds" unfolding c val_Cons by linarith
    moreover have "(10::nat) ^ ?L \<le> 10 ^ length cs" using 3 c by (intro power_increasing) auto
    ultimately have "\<not> val ds < 2 ^ LENGTH('a)" using m(5) by linarith
    then show ?thesis using 3 c(2) unfolding c(1)
      by (simp add: digits_to.simps [of "c # cs"] range_check_def)
  qed
qed

lemma digits_to_exact:
  assumes w: "conv_width LENGTH('a::len)" and ds: "list_all isdigit ds" "ds \<noteq> []"
  shows "(digits_to ds :: conv_error + 'a word) =
    (if val ds < 2 ^ LENGTH('a) then Inr (of_nat (val ds)) else Inl RangeError)"
proof (cases "limits_digits10 LENGTH('a) + 1 \<le> length ds \<and> hd ds = 48")
  case True
  let ?t = "dropWhile (\<lambda>c. c = 48) (tl ds)"
  have ds': "ds = 48 # tl ds" using True ds(2) by (cases ds) auto
  have v: "val ds = val ?t" by (subst ds') (simp add: val_Cons val_drop_zeros digit_def)
  have step: "(digits_to ds :: conv_error + 'a word) = (case ?t of [] \<Rightarrow> Inr 0 | c # cs \<Rightarrow> digits_to (c # cs))"
    using True ds(2) by (simp add: digits_to.simps [of ds])
  show ?thesis
  proof (cases ?t)
    case Nil
    show ?thesis unfolding step v Nil by simp
  next
    case (Cons c cs)
    have "c \<noteq> 48" using Cons by (simp add: dropWhile_eq_Cons_conv)
    moreover have "list_all isdigit (tl ds)" using ds by (cases ds) auto
    then have "list_all isdigit (c # cs)"
      unfolding Cons [symmetric] by (auto simp: list_all_iff dest: set_dropWhileD)
    ultimately show ?thesis
      unfolding step v Cons list.case by (intro digits_to_check [OF w]) simp_all
  qed
qed (rule digits_to_check [OF w ds])







lemma skip_spaces:
  assumes "list_all isspace ws" and "xs \<noteq> []" and "\<not> isspace (hd xs)"
  shows "dropWhile isspace (ws @ xs) = xs"
  using assms by (induction ws) (cases xs; auto)+



lemma sint_of_int_range:
  assumes "- (2 ^ (LENGTH('a::len) - 1)) \<le> k" and "k < 2 ^ (LENGTH('a) - 1)"
  shows "sint (of_int k :: 'a word) = k"
  using assms by (simp add: signed_of_int signed_take_bit_int_eq_self)

lemma two_power_width: "(2::int) ^ LENGTH('a::len) = 2 * 2 ^ (LENGTH('a) - 1)"
  by (metis len_gt_0 power_eq_if not_gr_zero)

lemma of_int_wrap: "(of_int (k + 2 ^ LENGTH('a)) :: 'a::len word) = of_int k"
  by (simp add: word_eq_iff_unsigned unsigned_of_int take_bit_eq_mod)

text \<open>The signed reading of a parsed magnitude and of its negation.\<close>

lemma sint_magnitude:
  fixes m :: nat
  assumes "m < 2 ^ LENGTH('a::len)"
  defines "h \<equiv> 2 ^ (LENGTH('a) - 1) :: nat"
  shows "if m < h then sint (of_nat m :: 'a word) = int m else sint (of_nat m :: 'a word) < 0"
    and "if m \<le> h then sint (- of_nat m :: 'a word) = - int m else 0 < sint (- of_nat m :: 'a word)"
proof -
  have m: "int m < 2 * int h"
    using assms(1) two_power_width [where 'a = 'a] unfolding h_def
    by (metis of_nat_less_iff of_nat_numeral of_nat_power)
  have r: "sint (of_int k :: 'a word) = k" if "- int h \<le> k" "k < int h" for k
    using sint_of_int_range [of k] that by (simp add: h_def)
  have wrap: "(of_int (k + 2 * int h) :: 'a word) = of_int k" for k
  proof -
    have "2 * int h = 2 ^ LENGTH('a)" using two_power_width [where 'a = 'a] by (simp add: h_def)
    then show ?thesis by (simp only: of_int_wrap)
  qed
  have "0 < h" by (simp add: h_def)
  show "if m < h then sint (of_nat m :: 'a word) = int m else sint (of_nat m :: 'a word) < 0"
  proof (cases "m < h")
    case True
    then show ?thesis using r [of "int m"] by simp
  next
    case False
    then have "sint (of_int (int m - 2 * int h) :: 'a word) = int m - 2 * int h" using m by (intro r) auto
    then have "sint (of_nat m :: 'a word) = int m - 2 * int h" using wrap [of "int m - 2 * int h"] by simp
    then show ?thesis using False m by simp
  qed
  show "if m \<le> h then sint (- of_nat m :: 'a word) = - int m else 0 < sint (- of_nat m :: 'a word)"
  proof (cases "m \<le> h")
    case True
    then show ?thesis using r [of "- int m"] \<open>0 < h\<close> by simp
  next
    case False
    then have "sint (of_int (2 * int h - int m) :: 'a word) = 2 * int h - int m" using m by (intro r) auto
    then have "sint (- of_nat m :: 'a word) = 2 * int h - int m" using wrap [of "- int m"] by simp
    then show ?thesis using False m by simp
  qed
qed


text \<open>A signed conversion of digits behind an optional minus sign.\<close>

definition signed_of :: "bool \<Rightarrow> nat \<Rightarrow> nat \<Rightarrow> conv_error + int" where
  "signed_of neg w m =
     (if neg then if m \<le> 2 ^ (w - 1) then Inr (- int m) else Inl RangeError
      else if m < 2 ^ (w - 1) then Inr (int m) else Inl RangeError)"

lemma range_check_bind: "bindE (range_check c) (\<lambda>_. m) = (if c then m else Inl RangeError)"
  by (simp add: range_check_def)

lemma digits_signed:
  assumes w: "conv_width LENGTH('a::len)" and ds: "list_all isdigit ds" "ds \<noteq> []"
  shows "bindE (digits_to ds) (\<lambda>t :: 'a word.
      if neg then if sint (- t) \<le> 0 then Inr (sint (- t)) else Inl RangeError
      else if 0 \<le> sint t then Inr (sint t) else Inl RangeError) = signed_of neg LENGTH('a) (val ds)"
proof (cases "val ds < 2 ^ LENGTH('a)")
  case True
  then show ?thesis
    using sint_magnitude [OF True] by (simp add: digits_to_exact [OF w ds] signed_of_def split: if_splits)
next
  case False
  have "(2::nat) ^ (LENGTH('a) - 1) < 2 ^ LENGTH('a)" by simp
  then have "2 ^ (LENGTH('a) - 1) < val ds" using False by linarith
  then show ?thesis using False by (simp add: digits_to_exact [OF w ds] signed_of_def)
qed


lemma to_signed_digits:
  assumes w: "conv_width LENGTH('a::len)" and ds: "list_all isdigit ds" "ds \<noteq> []"
  shows "to_signed TYPE('a) ds = signed_of False LENGTH('a) (val ds)"
    and "to_signed TYPE('a) (43 # ds) = signed_of False LENGTH('a) (val ds)"
    and "to_signed TYPE('a) (45 # ds) = signed_of True LENGTH('a) (val ds)"
proof -
  have c: "isdigit (hd ds)" using ds by (cases ds) auto
  then have c45: "hd ds \<noteq> 45" by (auto simp: isdigit_def)
  have sign: "\<not> isdigit 43" "\<not> isdigit 45" by (simp_all add: isdigit_def)
  note e = digits_signed [OF w ds, symmetric] Let_def range_check_bind to_signed_def
  show "to_signed TYPE('a) ds = signed_of False LENGTH('a) (val ds)"
    unfolding e using c c45 ds(2) by simp
  show "to_signed TYPE('a) (43 # ds) = signed_of False LENGTH('a) (val ds)"
    unfolding e using sign by simp
  show "to_signed TYPE('a) (45 # ds) = signed_of True LENGTH('a) (val ds)"
    unfolding e using sign by simp
qed

lemma bool_str_cmp_prefix: "bool_str_cmp (u @ rest) (map tolower u) = Some rest"
  by (induction u) simp_all

lemma tolower_eq: "tolower c = k \<Longrightarrow> c = k \<or> c = k - 32"
  by (auto simp: tolower_def split: if_splits)

text \<open>The words for booleans, in any mixture of cases, and the digits, whatever text follows.\<close>

definition bool_words :: "(string \<times> bool) list" where
  "bool_words = [(''yes'', True), (''no'', False), (''true'', True), (''false'', False), (''on'', True), (''off'', False)]"

lemma str_to_bool_word:
  assumes "b \<noteq> []" "dropWhile isspace src = b"
  shows "hd b = 121 \<or> hd b = 89 \<Longrightarrow> bool_str_cmp b (lit ''yes'') = Some t \<Longrightarrow> str_to_bool src = Inr (True, t)"
    and "hd b = 110 \<or> hd b = 78 \<Longrightarrow> bool_str_cmp b (lit ''no'') = Some t \<Longrightarrow> str_to_bool src = Inr (False, t)"
    and "hd b = 116 \<or> hd b = 84 \<Longrightarrow> bool_str_cmp b (lit ''true'') = Some t \<Longrightarrow> str_to_bool src = Inr (True, t)"
    and "hd b = 102 \<or> hd b = 70 \<Longrightarrow> bool_str_cmp b (lit ''false'') = Some t \<Longrightarrow> str_to_bool src = Inr (False, t)"
    and "hd b = 111 \<or> hd b = 79 \<Longrightarrow> bool_str_cmp b (lit ''on'') = Some t \<Longrightarrow> str_to_bool src = Inr (True, t)"
    and "hd b = 111 \<or> hd b = 79 \<Longrightarrow> bool_str_cmp b (lit ''on'') = None \<Longrightarrow>
      bool_str_cmp b (lit ''off'') = Some t \<Longrightarrow> str_to_bool src = Inr (False, t)"
  using assms by (auto simp: str_to_bool_def range_check_bind)

lemma str_to_bool_words:
  assumes ws: "list_all isspace ws" and w: "(w, r) \<in> set bool_words" and u: "map tolower u = lit w"
  shows "str_to_bool (ws @ u @ rest) = Inr (r, rest)"
proof -
  obtain c cs where c: "u = c # cs" "tolower c = hd (lit w)" "map tolower cs = tl (lit w)"
    using w u by (cases u; cases "lit w") (auto simp: bool_words_def lit_def)
  have p: "bool_str_cmp (u @ rest) (lit w) = Some rest"
    using bool_str_cmp_prefix [of u rest] by (simp only: u)
  have h: "hd (u @ rest) = hd (lit w) \<or> hd (u @ rest) = hd (lit w) - 32"
    using tolower_eq [OF c(2)] by (simp only: c(1) append_Cons list.sel)
  from w consider "w = ''yes''" "r" | "w = ''no''" "\<not> r" | "w = ''true''" "r" | "w = ''false''" "\<not> r"
    | "w = ''on''" "r" | "w = ''off''" "\<not> r" by (auto simp: bool_words_def)
  note six = this
  have "\<not> isspace (hd (u @ rest))" using six h by cases (auto simp: lit_def isspace_def)
  then have b: "dropWhile isspace (ws @ u @ rest) = u @ rest"
    using skip_spaces [OF ws, of "u @ rest"] by (simp add: c(1))
  have ne: "u @ rest \<noteq> []" by (simp add: c(1))
  note word = str_to_bool_word [OF ne b, where t = rest]
  from six show ?thesis
  proof cases
    case 6
    then have "bool_str_cmp (u @ rest) (lit ''on'') = None"
      using c by (cases cs) (auto simp: lit_def)
    then show ?thesis using 6 word(6) h p by (simp add: lit_def)
  qed (use word h p in \<open>simp_all add: lit_def\<close>)
qed

lemma estimate_exact:
  assumes "length buffer = 20" and "- (2 ^ 63) \<le> v" and "v < 2 ^ 63"
  shows "estimateSpaceNeeded_signed Src v =
    (if v < 0 \<and> lim_max Src < - v then Inl SignedOverflow
     else bindE (toAppend_signed v buffer []) (\<lambda>t. Inr (length t)))"
proof -
  have "unat (of_int k :: u64) = nat k" if "0 \<le> k" "k \<le> 2 ^ 63" for k
    using that by (simp add: unsigned_of_int take_bit_int_eq_self)
  from this [of v] this [of "- v"] show ?thesis
    using assms by (auto simp: estimateSpaceNeeded_signed_def toAppend_signed_dec digits10_exact sdec_def)
qed

section \<open>The property\<close>






end
