(* ===== verification/Acc_RWSpinLock.thy ===== *)
theory Acc_RWSpinLock
  imports Acc_Prelude
begin

text \<open>
  \<open>RWSpinLock\<close> (\<open>src/accelerator/thread/RWSpinLock.h\<close>): the atomic operations on its 32 bits, the
  interleavings of any number of threads that use it, and the holder classes. Every atomic
  read-modify-write of the source is one step; operations that make two of them (\<open>try_lock_shared\<close>
  when it fails, \<open>unlock_and_lock_shared\<close>, \<open>unlock_and_lock_upgrade\<close>) are two steps, between which
  other threads may run. Executions are sequentially consistent. The spinning operations
  repeat their \<open>try\<close> variant; the yield in between has no effect on the lock.
\<close>

section \<open>The bits\<close>

definition READER :: u32 where "READER = 4"
definition UPGRADED :: u32 where "UPGRADED = 2"
definition WRITER :: u32 where "WRITER = 1"

text \<open>An atomic operation maps the old bits to its result and the new bits.\<close>

definition try_lock :: "u32 \<Rightarrow> bool \<times> u32" where
  "try_lock bits = (if bits = 0 then (True, WRITER) else (False, bits))"

definition unlock :: "u32 \<Rightarrow> u32" where
  "unlock bits = bits AND NOT (WRITER OR UPGRADED)"

definition try_lock_shared :: "u32 \<Rightarrow> bool \<times> u32" where
  "try_lock_shared bits = (bits AND (WRITER OR UPGRADED) = 0, bits + READER)"

definition undo_lock_shared :: "u32 \<Rightarrow> u32" where
  "undo_lock_shared bits = bits + (- READER)"

definition unlock_shared :: "u32 \<Rightarrow> u32" where
  "unlock_shared bits = bits + (- READER)"

definition add_reader :: "u32 \<Rightarrow> u32" where
  "add_reader bits = bits + READER"

definition try_lock_upgrade :: "u32 \<Rightarrow> bool \<times> u32" where
  "try_lock_upgrade bits = (bits AND (UPGRADED OR WRITER) = 0, bits OR UPGRADED)"

definition unlock_upgrade :: "u32 \<Rightarrow> u32" where
  "unlock_upgrade bits = bits + (- UPGRADED)"

definition try_unlock_upgrade_and_lock :: "u32 \<Rightarrow> bool \<times> u32" where
  "try_unlock_upgrade_and_lock bits = (if bits = UPGRADED then (True, WRITER) else (False, bits))"

definition unlock_upgrade_and_lock_shared :: "u32 \<Rightarrow> u32" where
  "unlock_upgrade_and_lock_shared bits = bits + (READER - UPGRADED)"

definition or_upgraded :: "u32 \<Rightarrow> u32" where
  "or_upgraded bits = bits OR UPGRADED"

definition drop_writer :: "u32 \<Rightarrow> u32" where
  "drop_writer bits = bits + (- WRITER)"

text \<open>
  The spinning operations, on the bits that their attempts find one after the other: the number
  of failed attempts and the bits the successful one leaves, or None while all of these fail.
  The failing attempt of \<open>lock_shared\<close> also takes its \<open>READER\<close> back.
\<close>

fun spin :: "(u32 \<Rightarrow> bool \<times> u32) \<Rightarrow> nat \<Rightarrow> u32 list \<Rightarrow> (nat \<times> u32) option" where
  "spin try count [] = None"
| "spin try count (b # bs) =
     (case try b of (True, b') \<Rightarrow> Some (count, b') | (False, _) \<Rightarrow> spin try (count + 1) bs)"

definition lock :: "u32 list \<Rightarrow> (nat \<times> u32) option" where
  "lock = spin try_lock 0"

definition lock_shared :: "u32 list \<Rightarrow> (nat \<times> u32) option" where
  "lock_shared = spin try_lock_shared 0"

definition lock_upgrade :: "u32 list \<Rightarrow> (nat \<times> u32) option" where
  "lock_upgrade = spin try_lock_upgrade 0"

definition unlock_upgrade_and_lock :: "u32 list \<Rightarrow> (nat \<times> u32) option" where
  "unlock_upgrade_and_lock = spin try_unlock_upgrade_and_lock 0"

section \<open>Threads\<close>

text \<open>
  Where a thread is: it holds nothing, holds the lock in one of the three modes, or is between
  the two steps of an operation.
\<close>

datatype pc =
    Idle | Reader | Upgrader | Writer
  | FailedShared   \<comment> \<open>\<open>try_lock_shared\<close> has added \<open>READER\<close> and must take it back\<close>
  | Downgrading    \<comment> \<open>\<open>unlock_and_lock_shared\<close> has added \<open>READER\<close> and must unlock\<close>
  | ToUpgrade      \<comment> \<open>\<open>unlock_and_lock_upgrade\<close> has set \<open>UPGRADED\<close> and must drop \<open>WRITER\<close>\<close>

record rwlock =
  bits :: u32
  pcs :: "nat \<Rightarrow> pc"

datatype action =
    TryLock | Unlock | TryLockShared | UndoLockShared | UnlockShared | AddReader | FinishDowngrade
  | TryLockUpgrade | UnlockUpgrade | TryUpgradeToLock | UpgradeToShared | OrUpgraded | DropWriter

text \<open>
  An action of a thread, where the thread may do it: \<open>moves from to\<close>, with the new bits. A
  failed \<open>try\<close> leaves the thread where it was (or, for the shared lock, with the undo pending).
\<close>

definition move :: "nat \<Rightarrow> pc \<Rightarrow> pc \<Rightarrow> u32 \<Rightarrow> rwlock \<Rightarrow> rwlock option" where
  "move t src dst b s = (if pcs s t = src then Some \<lparr>bits = b, pcs = (pcs s)(t := dst)\<rparr> else None)"

fun exec :: "action \<Rightarrow> nat \<Rightarrow> rwlock \<Rightarrow> rwlock option" where
  "exec TryLock t s =
     (let (ok, b) = try_lock (bits s) in move t Idle (if ok then Writer else Idle) b s)"
| "exec Unlock t s = move t Writer Idle (unlock (bits s)) s"
| "exec TryLockShared t s =
     (let (ok, b) = try_lock_shared (bits s) in move t Idle (if ok then Reader else FailedShared) b s)"
| "exec UndoLockShared t s = move t FailedShared Idle (undo_lock_shared (bits s)) s"
| "exec UnlockShared t s = move t Reader Idle (unlock_shared (bits s)) s"
| "exec AddReader t s = move t Writer Downgrading (add_reader (bits s)) s"
| "exec FinishDowngrade t s = move t Downgrading Reader (unlock (bits s)) s"
| "exec TryLockUpgrade t s =
     (let (ok, b) = try_lock_upgrade (bits s) in move t Idle (if ok then Upgrader else Idle) b s)"
| "exec UnlockUpgrade t s = move t Upgrader Idle (unlock_upgrade (bits s)) s"
| "exec TryUpgradeToLock t s =
     (let (ok, b) = try_unlock_upgrade_and_lock (bits s)
      in move t Upgrader (if ok then Writer else Upgrader) b s)"
| "exec UpgradeToShared t s = move t Upgrader Reader (unlock_upgrade_and_lock_shared (bits s)) s"
| "exec OrUpgraded t s = move t Writer ToUpgrade (or_upgraded (bits s)) s"
| "exec DropWriter t s = move t ToUpgrade Upgrader (drop_writer (bits s)) s"

definition rw_init :: rwlock where
  "rw_init = \<lparr>bits = 0, pcs = (\<lambda>_. Idle)\<rparr>"

text \<open>The interleavings of the threads \<open>0, \<dots>, n - 1\<close>.\<close>

inductive rw_step :: "nat \<Rightarrow> rwlock \<Rightarrow> rwlock \<Rightarrow> bool" for n where
  act: "t < n \<Longrightarrow> exec a t s = Some s' \<Longrightarrow> rw_step n s s'"

inductive rw_reach :: "nat \<Rightarrow> rwlock \<Rightarrow> bool" for n where
  init: "rw_reach n rw_init"
| step: "rw_reach n s \<Longrightarrow> rw_step n s s' \<Longrightarrow> rw_reach n s'"

inductive_cases rw_stepE: "rw_step n s s'"

section \<open>What the bits mean\<close>

definition enc :: "nat \<Rightarrow> bool \<Rightarrow> bool \<Rightarrow> u32" where
  "enc c u w = of_nat (4 * c + (if u then 2 else 0) + (if w then 1 else 0))"

lemma bit_enc:
  "bit (enc c u w) k \<longleftrightarrow> k < 32 \<and> (if k = 0 then w else if k = 1 then u else bit c (k - 2))"
proof -
  have "4 * c + (if u then 2 else 0) + (if w then 1 else 0) =
      push_bit 2 c + ((if u then 2 else 0) + (if w then 1 else 0))"
    by (simp add: push_bit_eq_mult)
  also have "\<dots> = push_bit 2 c OR ((if u then 2 else 0) + (if w then 1 else 0))"
    by (rule disjunctive_add) (auto simp: bit_simps bit_numeral_rec bit_Suc bit_1_iff split: nat.splits)
  finally have eq: "4 * c + (if u then 2 else 0) + (if w then 1 else 0) =
      push_bit 2 c OR ((if u then 2 else 0) + (if w then 1 else 0))" .
  show ?thesis
    unfolding enc_def eq bit_of_nat_iff possible_bit_word bit_or_iff bit_push_bit_iff
    by (cases k; cases "k - 1") (auto simp: bit_Suc bit_0)
qed


lemma enc_ops [simp]:
  "enc c u w OR 2 = enc c True w"
  "enc c u w AND NOT (1 OR 2) = enc c False False"
  by (rule bit_word_eqI; auto simp: bit_enc bit_simps bit_numeral_rec bit_1_iff split: nat.splits)+

lemma enc_adds [simp]:
  "enc c u w + 4 = enc (Suc c) u w"
  "0 < c \<Longrightarrow> enc c u w - 4 = enc (c - 1) u w"
  "enc c True w - 2 = enc c False w"
  "enc c u True - 1 = enc c u False"
  "enc c True w + (4 - 2) = enc (Suc c) False w"
  by (auto simp: enc_def algebra_simps of_nat_diff gr0_conv_Suc)

lemma enc_free [simp]: "enc c u w AND (1 OR 2) = 0 \<longleftrightarrow> \<not> u \<and> \<not> w"
proof -
  have "enc c u w AND (1 OR 2) = enc 0 u w"
    by (rule bit_word_eqI) (auto simp: bit_enc bit_simps bit_numeral_rec bit_1_iff split: nat.splits)
  then show ?thesis by (simp add: enc_def)
qed

lemma enc_inj:
  assumes "c < 2 ^ 29"
  shows "enc c u w = 0 \<longleftrightarrow> c = 0 \<and> \<not> u \<and> \<not> w"
    and "enc c u w = 2 \<longleftrightarrow> c = 0 \<and> u \<and> \<not> w"
proof -
  have u: "unat (enc c u w) = 4 * c + (if u then 2 else 0) + (if w then 1 else 0)"
    unfolding enc_def using assms by (intro unat_of_nat_u32) auto
  show "enc c u w = 0 \<longleftrightarrow> c = 0 \<and> \<not> u \<and> \<not> w"
    unfolding word_unat_eq_iff u by auto
  show "enc c u w = 2 \<longleftrightarrow> c = 0 \<and> u \<and> \<not> w"
    unfolding word_unat_eq_iff u by auto
qed


text \<open>The atomic operations on these bits.\<close>

lemmas rw_op_defs = try_lock_def unlock_def try_lock_shared_def undo_lock_shared_def
  unlock_shared_def add_reader_def try_lock_upgrade_def unlock_upgrade_def
  try_unlock_upgrade_and_lock_def unlock_upgrade_and_lock_shared_def or_upgraded_def
  drop_writer_def READER_def UPGRADED_def WRITER_def

lemma enc_small [simp]: "enc 0 False False = 0" "enc 0 False True = 1" "enc 0 True False = 2"
  by (simp_all add: enc_def)

lemma rw_ops_enc [simp]:
  "unlock (enc c u w) = enc c False False"
  "try_lock_shared (enc c u w) = (\<not> u \<and> \<not> w, enc (Suc c) u w)"
  "0 < c \<Longrightarrow> undo_lock_shared (enc c u w) = enc (c - 1) u w"
  "0 < c \<Longrightarrow> unlock_shared (enc c u w) = enc (c - 1) u w"
  "add_reader (enc c u w) = enc (Suc c) u w"
  "try_lock_upgrade (enc c u w) = (\<not> u \<and> \<not> w, enc c True w)"
  "unlock_upgrade (enc c True w) = enc c False w"
  "unlock_upgrade_and_lock_shared (enc c True w) = enc (Suc c) False w"
  "or_upgraded (enc c u w) = enc c True w"
  "drop_writer (enc c u True) = enc c u False"
  unfolding rw_op_defs or.commute [of 2 1] enc_ops enc_free enc_adds add_uminus_conv_diff
  by (rule refl | simp only: enc_adds)+

lemma try_lock_upgrade_free [simp]: "try_lock_upgrade 0 = (True, 2)"
  by (simp add: rw_op_defs)

lemma rw_cas_enc [simp]:
  assumes "c < 2 ^ 29"
  shows "try_lock (enc c u w) = (c = 0 \<and> \<not> u \<and> \<not> w, if c = 0 \<and> \<not> u \<and> \<not> w then 1 else enc c u w)"
    and "try_unlock_upgrade_and_lock (enc c u w) =
      (c = 0 \<and> u \<and> \<not> w, if c = 0 \<and> u \<and> \<not> w then 1 else enc c u w)"
  using enc_inj [OF assms] by (simp_all add: rw_op_defs)

section \<open>The invariant\<close>

fun counted :: "pc \<Rightarrow> bool" where
  "counted Reader = True" | "counted FailedShared = True" | "counted Downgrading = True"
| "counted _ = False"

fun writing :: "pc \<Rightarrow> bool" where
  "writing Writer = True" | "writing Downgrading = True" | "writing ToUpgrade = True"
| "writing _ = False"

definition claims :: "pc \<Rightarrow> bool" where
  "claims p \<longleftrightarrow> writing p \<or> p = Upgrader"

definition readers :: "nat \<Rightarrow> (nat \<Rightarrow> pc) \<Rightarrow> nat" where
  "readers n p = card {t. t < n \<and> counted (p t)}"

text \<open>
  The bits count the threads whose \<open>READER\<close> is in, and \<open>WRITER\<close> is set exactly while a thread has
  it. \<open>UPGRADED\<close> is exact only while nobody writes: a failing \<open>try_lock_upgrade\<close> leaves a stray
  bit under a writer, which the writer's \<open>unlock\<close> clears.
\<close>

definition rw_bits_ok :: "nat \<Rightarrow> u32 \<Rightarrow> (nat \<Rightarrow> pc) \<Rightarrow> bool \<Rightarrow> bool" where
  "rw_bits_ok n b p u \<longleftrightarrow>
     b = enc (readers n p) u (\<exists>t. writing (p t)) \<and>
     ((\<forall>t. \<not> writing (p t)) \<longrightarrow> (u \<longleftrightarrow> (\<exists>t. p t = Upgrader))) \<and>
     ((\<exists>t. p t = ToUpgrade) \<longrightarrow> u)"

definition rw_excl :: "nat \<Rightarrow> (nat \<Rightarrow> pc) \<Rightarrow> bool" where
  "rw_excl n p \<longleftrightarrow>
     (\<forall>t. n \<le> t \<longrightarrow> p t = Idle) \<and>
     (\<forall>t t'. claims (p t) \<longrightarrow> claims (p t') \<longrightarrow> t = t') \<and>
     (\<forall>t t'. writing (p t) \<longrightarrow> p t' \<noteq> Reader)"

definition rw_inv :: "nat \<Rightarrow> rwlock \<Rightarrow> bool" where
  "rw_inv n s \<longleftrightarrow> rw_excl n (pcs s) \<and> (\<exists>u. rw_bits_ok n (bits s) (pcs s) u)"

lemma readers_upd:
  assumes "t < n"
  shows "readers n (p(t := x)) =
    readers n p - (if counted (p t) then 1 else 0) + (if counted x then 1 else 0)"
proof -
  let ?A = "{t'. t' < n \<and> t' \<noteq> t \<and> counted (p t')}"
  have f: "finite ?A" and nt: "t \<notin> ?A" by auto
  have "{t'. t' < n \<and> counted ((p(t := x)) t')} = (if counted x then insert t ?A else ?A)"
    using assms by auto
  moreover have "{t'. t' < n \<and> counted (p t')} = (if counted (p t) then insert t ?A else ?A)"
    using assms by auto
  ultimately show ?thesis unfolding readers_def using f nt by simp
qed

lemma readers_pos: "t < n \<Longrightarrow> counted (p t) \<Longrightarrow> 0 < readers n p"
  by (auto simp: readers_def card_gt_0_iff)

lemma readers_le: "readers n p \<le> n"
proof -
  have "card {t. t < n \<and> counted (p t)} \<le> card {..<n}" by (rule card_mono) auto
  then show ?thesis by (simp add: readers_def)
qed

lemma readers_zero: "readers n p = 0 \<Longrightarrow> t < n \<Longrightarrow> \<not> counted (p t)"
  using readers_pos by fastforce

lemma writing_upd:
  "(\<exists>t'. writing ((p(t := x)) t')) \<longleftrightarrow> writing x \<or> (\<exists>t'. t' \<noteq> t \<and> writing (p t'))"
  by auto

lemma rw_inv_init: "rw_inv n rw_init"
  by (auto simp: rw_inv_def rw_excl_def rw_bits_ok_def rw_init_def claims_def readers_def enc_def)


lemma rw_excl_upd:
  assumes "rw_excl n p" and "t < n"
    and "claims x \<Longrightarrow> \<not> claims (p t) \<Longrightarrow> \<forall>t'. \<not> claims (p t')"
    and "writing x \<Longrightarrow> \<not> writing (p t) \<Longrightarrow> \<forall>t'. p t' \<noteq> Reader"
    and "x = Reader \<Longrightarrow> \<forall>t'. t' \<noteq> t \<longrightarrow> \<not> writing (p t')"
  shows "rw_excl n (p(t := x))"
  unfolding rw_excl_def
proof (intro conjI allI impI)
  show "(p(t := x)) a = Idle" if "n \<le> a" for a
    using assms(1,2) that by (simp add: rw_excl_def)
  show "a = b" if "claims ((p(t := x)) a)" "claims ((p(t := x)) b)" for a b
    using assms(1,3) that unfolding rw_excl_def by (metis fun_upd_apply)
  show "(p(t := x)) b \<noteq> Reader" if "writing ((p(t := x)) a)" for a b
    using assms(1,4,5) that unfolding rw_excl_def by (metis fun_upd_apply writing.simps(5))
qed

lemma rw_bits_free:
  assumes "rw_bits_ok n b p u" and "\<not> u" and "\<forall>t. \<not> writing (p t)"
  shows "\<forall>t. \<not> claims (p t)"
  using assms by (auto simp: rw_bits_ok_def claims_def)

lemma rw_excl_others:
  "rw_excl n p \<Longrightarrow> claims (p t) \<Longrightarrow> t' \<noteq> t \<Longrightarrow> \<not> claims (p t')"
  by (auto simp: rw_excl_def)


text \<open>
  Two cases cover the moves: the only thread that claims the lock, or is about to, or a thread
  that neither claims it before nor after.
\<close>

lemma rw_bits_claimed:
  assumes alone: "\<And>t'. t' \<noteq> t \<Longrightarrow> \<not> claims (p t')" and "t < n"
    and "b' = enc (readers n p - (if counted (p t) then 1 else 0) + (if counted x then 1 else 0))
                u' (writing x)"
    and "\<not> writing x \<Longrightarrow> u' \<longleftrightarrow> x = Upgrader" and "x = ToUpgrade \<Longrightarrow> u'"
  shows "rw_bits_ok n b' (p(t := x)) u'"
proof -
  have o: "\<not> writing (p t')" "p t' \<noteq> Upgrader" "p t' \<noteq> ToUpgrade" if "t' \<noteq> t" for t'
    using alone [OF that] by (auto simp: claims_def)
  have "(\<exists>t'. writing ((p(t := x)) t')) \<longleftrightarrow> writing x"
    using o(1) by (auto simp: writing_upd)
  moreover have "(\<exists>t'. (p(t := x)) t' = Upgrader) \<longleftrightarrow> x = Upgrader"
    using o(2) by (metis fun_upd_apply)
  moreover have "(\<exists>t'. (p(t := x)) t' = ToUpgrade) \<longleftrightarrow> x = ToUpgrade"
    using o(3) by (metis fun_upd_apply)
  ultimately show ?thesis
    using assms(2-5) unfolding rw_bits_ok_def by (auto simp: readers_upd simp del: fun_upd_apply)
qed

lemma rw_bits_unclaimed:
  assumes "rw_bits_ok n b p u" and "t < n" and "\<not> claims (p t)" and "\<not> claims x"
    and "b' = enc (readers n p - (if counted (p t) then 1 else 0) + (if counted x then 1 else 0))
                u' (\<exists>t'. writing (p t'))"
    and "(\<forall>t'. \<not> writing (p t')) \<Longrightarrow> u' = u" and "u \<Longrightarrow> u'"
  shows "rw_bits_ok n b' (p(t := x)) u'"
proof -
  have "(\<exists>t'. writing ((p(t := x)) t')) \<longleftrightarrow> (\<exists>t'. writing (p t'))"
    using assms(3,4) unfolding claims_def by (metis fun_upd_apply)
  moreover have "(\<exists>t'. (p(t := x)) t' = Upgrader) \<longleftrightarrow> (\<exists>t'. p t' = Upgrader)"
    using assms(3,4) unfolding claims_def by (metis fun_upd_apply)
  moreover have "(\<exists>t'. (p(t := x)) t' = ToUpgrade) \<longleftrightarrow> (\<exists>t'. p t' = ToUpgrade)"
    using assms(3,4) unfolding claims_def by (metis fun_upd_apply writing.simps(3))
  ultimately show ?thesis
    using assms(1,2,5-7) unfolding rw_bits_ok_def
    by (auto simp: readers_upd simp del: fun_upd_apply)
qed


lemma rw_inv_claimed:
  assumes "rw_inv n s" and "t < n"
    and alone: "\<And>t'. t' \<noteq> t \<Longrightarrow> \<not> claims (pcs s t')"
    and "b' = enc (readers n (pcs s) - (if counted (pcs s t) then 1 else 0) + (if counted x then 1 else 0))
                u' (writing x)"
    and "\<not> writing x \<Longrightarrow> u' \<longleftrightarrow> x = Upgrader" and "x = ToUpgrade \<Longrightarrow> u'"
    and w: "writing x \<Longrightarrow> \<not> writing (pcs s t) \<Longrightarrow> \<forall>t'. pcs s t' \<noteq> Reader"
  shows "rw_inv n \<lparr>bits = b', pcs = (pcs s)(t := x)\<rparr>"
proof -
  have E: "rw_excl n (pcs s)" using assms(1) by (simp add: rw_inv_def)
  have "rw_excl n ((pcs s)(t := x))"
    using alone w by (intro rw_excl_upd E assms(2)) (metis claims_def)+
  with rw_bits_claimed [OF alone assms(2,4-6)] show ?thesis
    by (auto simp: rw_inv_def)
qed

lemma rw_inv_unclaimed:
  assumes "rw_excl n (pcs s)" and "rw_bits_ok n (bits s) (pcs s) u" and "t < n"
    and "\<not> claims (pcs s t)" and "\<not> claims x"
    and "b' = enc (readers n (pcs s) - (if counted (pcs s t) then 1 else 0) + (if counted x then 1 else 0))
                u' (\<exists>t'. writing (pcs s t'))"
    and "(\<forall>t'. \<not> writing (pcs s t')) \<Longrightarrow> u' = u" and "u \<Longrightarrow> u'"
    and r: "x = Reader \<Longrightarrow> \<forall>t'. \<not> writing (pcs s t')"
  shows "rw_inv n \<lparr>bits = b', pcs = (pcs s)(t := x)\<rparr>"
proof -
  have "rw_excl n ((pcs s)(t := x))"
    using assms(5) r by (intro rw_excl_upd assms) (auto simp: claims_def)
  with rw_bits_unclaimed [OF assms(2-8)] show ?thesis
    by (auto simp: rw_inv_def)
qed

text \<open>What a step may use of the invariant.\<close>

lemma rw_inv_alone:
  "rw_inv n s \<Longrightarrow> claims (pcs s t) \<Longrightarrow> t' \<noteq> t \<Longrightarrow> \<not> claims (pcs s t')"
  by (auto simp: rw_inv_def rw_excl_def)

lemma rw_inv_obtain:
  assumes "rw_inv n s"
  obtains u w where "rw_excl n (pcs s)" and "rw_bits_ok n (bits s) (pcs s) u"
    and "bits s = enc (readers n (pcs s)) u w" and "w \<longleftrightarrow> (\<exists>t. writing (pcs s t))"
  using assms by (auto simp: rw_inv_def rw_bits_ok_def)

lemma rw_bits_claims:
  "rw_bits_ok n b p u \<Longrightarrow> \<not> u \<Longrightarrow> \<forall>t. \<not> writing (p t) \<Longrightarrow> \<not> claims (p t')"
  "rw_bits_ok n b p u \<Longrightarrow> p t' = ToUpgrade \<Longrightarrow> u"
  "rw_bits_ok n b p u \<Longrightarrow> \<forall>t. \<not> writing (p t) \<Longrightarrow> p t' = Upgrader \<Longrightarrow> u"
  by (auto simp: rw_bits_ok_def claims_def)


lemma rw_inv_writing_bits:
  assumes "rw_inv n s" and "writing (pcs s t)"
  obtains u where "bits s = enc (readers n (pcs s)) u True" and "pcs s t = ToUpgrade \<Longrightarrow> u"
  using assms by (metis rw_inv_obtain rw_bits_claims(2))

lemma rw_inv_upgrader_bits:
  assumes "rw_inv n s" and "pcs s t = Upgrader"
  shows "bits s = enc (readers n (pcs s)) True False"
proof -
  have "\<forall>t'. \<not> writing (pcs s t')"
    using rw_inv_alone [OF assms(1), of t] assms(2) unfolding claims_def by (metis writing.simps(6))
  then show ?thesis
    using assms by (metis rw_inv_obtain rw_bits_claims(3))
qed

lemma rw_no_reader:
  assumes "rw_inv n s" and "writing (pcs s t)"
  shows "pcs s t' \<noteq> Reader"
  using assms by (auto simp: rw_inv_def rw_excl_def)

lemma rw_idle_outside: "rw_inv n s \<Longrightarrow> n \<le> t \<Longrightarrow> pcs s t = Idle"
  by (simp add: rw_inv_def rw_excl_def)

lemma rw_no_counted:
  assumes "rw_inv n s" and "readers n (pcs s) = 0"
  shows "\<not> counted (pcs s t)"
  using assms readers_zero rw_idle_outside by (cases "t < n") force+

lemma rw_inv_by_writer:
  assumes inv: "rw_inv n s" and t: "t < n" and w: "writing (pcs s t)"
    and e: "exec a t s = Some s'"
  shows "rw_inv n s'"
proof -
  obtain u where b: "bits s = enc (readers n (pcs s)) u True" and u: "pcs s t = ToUpgrade \<Longrightarrow> u"
    using rw_inv_writing_bits [OF inv w] by metis
  have alone: "\<not> claims (pcs s t')" if "t' \<noteq> t" for t'
    using rw_inv_alone [OF inv _ that] w by (simp add: claims_def)
  note pos = readers_pos [OF t, of "pcs s"]
  note go = rw_inv_claimed [OF inv t alone]
  show ?thesis
    using e w b u pos
    by (cases a) (auto simp: move_def split: if_splits prod.splits intro!: go)
qed

lemma rw_inv_by_upgrader:
  assumes inv: "rw_inv n s" and n: "n < 2 ^ 29" and t: "t < n" and w: "pcs s t = Upgrader"
    and e: "exec a t s = Some s'"
  shows "rw_inv n s'"
proof -
  note b = rw_inv_upgrader_bits [OF inv w]
  have alone: "\<not> claims (pcs s t')" if "t' \<noteq> t" for t'
    using rw_inv_alone [OF inv _ that] w by (simp add: claims_def)
  have c: "readers n (pcs s) < 2 ^ 29" using readers_le n by (rule le_less_trans)
  note go = rw_inv_claimed [OF inv t alone]
  have r: "readers n (pcs s) = 0 \<Longrightarrow> pcs s t' \<noteq> Reader" for t'
    using rw_no_counted [OF inv] by (metis counted.simps(1))
  show ?thesis
    using e w b rw_cas_enc(2) [OF c] r
    by (cases a) (auto simp: move_def split: if_splits intro!: go)
qed


lemma rw_inv_by_other:
  assumes inv: "rw_inv n s" and n: "n < 2 ^ 29" and t: "t < n" and o: "\<not> claims (pcs s t)"
    and e: "exec a t s = Some s'"
  shows "rw_inv n s'"
proof -
  obtain u w where x: "rw_excl n (pcs s)" and B: "rw_bits_ok n (bits s) (pcs s) u"
    and b: "bits s = enc (readers n (pcs s)) u w" and w: "w \<longleftrightarrow> (\<exists>t. writing (pcs s t))"
    using inv by (rule rw_inv_obtain)
  have c: "readers n (pcs s) < 2 ^ 29" using readers_le n by (rule le_less_trans)
  note pos = readers_pos [OF t, of "pcs s"]
  have free: "\<not> claims (pcs s t')" if "\<not> u" "\<not> w" for t'
    using rw_bits_claims(1) [OF B that(1)] that(2) w by blast
  have r: "readers n (pcs s) = 0 \<Longrightarrow> pcs s t' \<noteq> Reader" for t'
    using rw_no_counted [OF inv] by (metis counted.simps(1))
  have stay: "rw_inv n \<lparr>bits = enc (readers n (pcs s)) u' w, pcs = (pcs s)(t := Idle)\<rparr>"
    if "pcs s t = Idle" "u' = u \<or> u' \<and> w" for u'
    using that w by (intro rw_inv_unclaimed [OF x B t o, where u' = u']) (auto simp: claims_def)
  have take: "rw_inv n \<lparr>bits = enc (readers n (pcs s)) (y = Upgrader) (y = Writer), pcs = (pcs s)(t := y)\<rparr>"
    if "pcs s t = Idle" "\<not> u" "\<not> w" "y = Upgrader \<or> y = Writer \<and> readers n (pcs s) = 0" for y
    using that r by (intro rw_inv_claimed [OF inv t free]) auto
  show ?thesis
  proof (cases "a = TryLock \<or> a = TryLockUpgrade")
    case True
    then show ?thesis
      using e b rw_cas_enc(1) [OF c, of u w] take [of Writer] take [of Upgrader] stay [of u] stay [of True]
      by (auto simp: move_def split: if_splits)
  next
    case False
    then show ?thesis using e o b w pos
      by (cases a) (auto simp: move_def claims_def split: if_splits
          intro!: rw_inv_unclaimed [OF x B t o, where u' = u])
  qed
qed

lemma rw_inv_step: "rw_inv n s \<Longrightarrow> n < 2 ^ 29 \<Longrightarrow> rw_step n s s' \<Longrightarrow> rw_inv n s'"
  by (metis rw_stepE claims_def rw_inv_by_writer rw_inv_by_upgrader rw_inv_by_other)

lemma rw_inv_reach: "rw_reach n s \<Longrightarrow> n < 2 ^ 29 \<Longrightarrow> rw_inv n s"
  by (induction rule: rw_reach.induct) (auto intro: rw_inv_init rw_inv_step)

section \<open>The lock can always be released\<close>

text \<open>The step that takes a thread towards holding nothing: its own unlock, or the second half of an operation.\<close>

fun release_action :: "pc \<Rightarrow> action" where
  "release_action Reader = UnlockShared"
| "release_action Upgrader = UnlockUpgrade"
| "release_action Writer = Unlock"
| "release_action FailedShared = UndoLockShared"
| "release_action Downgrading = FinishDowngrade"
| "release_action ToUpgrade = DropWriter"
| "release_action Idle = TryLock"

fun release_weight :: "pc \<Rightarrow> nat" where
  "release_weight Idle = 0"
| "release_weight Downgrading = 2"
| "release_weight ToUpgrade = 2"
| "release_weight _ = 1"

inductive rw_release :: "nat \<Rightarrow> rwlock \<Rightarrow> rwlock \<Rightarrow> bool" for n where
  rel: "t < n \<Longrightarrow> pcs s t \<noteq> Idle \<Longrightarrow> exec (release_action (pcs s t)) t s = Some s' \<Longrightarrow>
    rw_release n s s'"

lemma release_enabled:
  assumes "pcs s t \<noteq> Idle"
  obtains b x where "exec (release_action (pcs s t)) t s = Some \<lparr>bits = b, pcs = (pcs s)(t := x)\<rparr>"
    and "release_weight x < release_weight (pcs s t)"
  using assms by (cases "pcs s t") (auto simp: move_def)

lemma weight_upd:
  fixes f :: "pc \<Rightarrow> nat" and n :: nat
  assumes "t < n" and "f x < f (p t)"
  shows "(\<Sum>k<n. f ((p(t := x)) k)) < (\<Sum>k<n. f (p k))"
  using assms by (intro sum_strict_mono_ex1) auto

lemma rw_release_all:
  "rw_inv n s \<Longrightarrow> n < 2 ^ 29 \<Longrightarrow>
     \<exists>s'. (rw_release n)\<^sup>*\<^sup>* s s' \<and> rw_inv n s' \<and> (\<forall>t. pcs s' t = Idle)"
proof (induction "\<Sum>k<n. release_weight (pcs s k)" arbitrary: s rule: less_induct)
  case less
  show ?case
  proof (cases "\<forall>t<n. pcs s t = Idle")
    case True
    then have "pcs s t = Idle" for t
      using rw_idle_outside [OF less.prems(1)] by (cases "t < n") auto
    then show ?thesis using less.prems by blast
  next
    case False
    then obtain t where t: "t < n" "pcs s t \<noteq> Idle" by blast
    obtain b x where e: "exec (release_action (pcs s t)) t s = Some \<lparr>bits = b, pcs = (pcs s)(t := x)\<rparr>"
      and x: "release_weight x < release_weight (pcs s t)"
      using release_enabled [OF t(2)] .
    let ?s = "\<lparr>bits = b, pcs = (pcs s)(t := x)\<rparr>"
    have "(\<Sum>k<n. release_weight (pcs ?s k)) < (\<Sum>k<n. release_weight (pcs s k))"
      using weight_upd [OF t(1), of release_weight x "pcs s"] x by simp
    moreover have "rw_inv n ?s"
      using rw_inv_step [OF less.prems] rw_step.act [OF t(1) e] by blast
    ultimately obtain s' where "(rw_release n)\<^sup>*\<^sup>* ?s s'" "rw_inv n s'" "\<forall>t. pcs s' t = Idle"
      using less.hyps less.prems(2) by blast
    moreover have "rw_release n s ?s" using t e by (rule rw_release.rel)
    ultimately show ?thesis by (blast intro: converse_rtranclp_into_rtranclp)
  qed
qed

lemma rw_all_idle_bits:
  assumes "rw_inv n s" and "\<forall>t. pcs s t = Idle"
  shows "bits s = 0"
  using assms by (auto simp: rw_inv_def rw_bits_ok_def readers_def)


lemma spin_returns:
  assumes "fst (try b)"
  shows "\<exists>k b'. spin try c (bs @ [b]) = Some (k, b') \<and> k \<le> c + length bs"
proof (induction bs arbitrary: c)
  case Nil
  then show ?case using assms by (cases "try b") auto
next
  case (Cons a bs)
  show ?case using Cons.IH [of "c + 1"] by (cases "try a") (auto split: bool.split)
qed

section \<open>The properties\<close>

definition rw_holds :: "pc \<Rightarrow> bool" where
  "rw_holds p \<longleftrightarrow> p = Reader \<or> p = Upgrader \<or> p = Writer"

text \<open>A state two steps into an execution of two threads: a stray \<open>UPGRADED\<close> under a writer.\<close>

definition rw_stray :: rwlock where
  "rw_stray = \<lparr>bits = 3, pcs = (\<lambda>_. Idle)(0 := Writer, 1 := Idle)\<rparr>"

lemma rw_stray_reach: "rw_reach 2 rw_stray"
proof -
  have "rw_step 2 rw_init \<lparr>bits = 1, pcs = (\<lambda>_. Idle)(0 := Writer)\<rparr>"
    by (rule rw_step.act [of 0 _ TryLock]) (simp_all add: rw_init_def move_def rw_op_defs)
  moreover have "rw_step 2 \<lparr>bits = 1, pcs = (\<lambda>_. Idle)(0 := Writer)\<rparr> rw_stray"
    by (rule rw_step.act [of 1 _ TryLockUpgrade]) (simp_all add: rw_stray_def move_def rw_op_defs)
  ultimately show ?thesis by (blast intro: rw_reach.intros)
qed

text \<open>
  C4: Mutual exclusion. In every interleaving of fewer than \<open>2^29\<close> threads a thread that
  holds the lock for writing, or that is between the two steps of a downgrade from writing,
  excludes every other holder, and a thread that holds it for upgrading excludes every other
  upgrader and every writer.
\<close>

theorem rwspinlock_mutual_exclusion:
  assumes "n < 2 ^ 29" and "rw_reach n s" and "t' \<noteq> t"
  shows "(writing (pcs s t) \<longrightarrow> \<not> rw_holds (pcs s t')) \<and>
    (pcs s t = Upgrader \<longrightarrow> pcs s t' \<noteq> Upgrader \<and> \<not> writing (pcs s t'))"
  using rw_inv_reach [OF assms(2,1)] rw_inv_alone [of n s t t'] rw_no_reader [of n s t t'] assms(3)
  by (auto simp: rw_holds_def claims_def)

theorem rwspinlock_mutual_exclusion_witness:
  "rw_reach 2 rw_stray \<and> writing (pcs rw_stray 0) \<and> \<not> rw_holds (pcs rw_stray 1)"
  using rwspinlock_mutual_exclusion [of 2 rw_stray 1 0] rw_stray_reach by (simp add: rw_stray_def)

text \<open>
  C6: The lock never gets stuck. From every reachable state the threads that hold the lock, or
  are in the middle of an operation, can give it back by their own unlocks alone, whatever stray
  bits failed attempts have left; the bits are then zero, so the next attempt of any thread to
  lock succeeds, and \<open>lock\<close> returns however many attempts of it failed before.
\<close>

theorem rwspinlock_never_stuck:
  assumes "n < 2 ^ 29" and "rw_reach n s" and "t < n"
  shows "\<exists>s' s''. (rw_release n)\<^sup>*\<^sup>* s s' \<and> bits s' = 0 \<and>
    exec TryLock t s' = Some s'' \<and> pcs s'' t = Writer \<and>
    (\<forall>found. \<exists>k b. lock (found @ [bits s']) = Some (k, b) \<and> k \<le> length found)"
proof -
  obtain s' where s': "(rw_release n)\<^sup>*\<^sup>* s s'" "rw_inv n s'" "\<forall>t. pcs s' t = Idle"
    using rw_release_all [OF rw_inv_reach [OF assms(2,1)] assms(1)] by blast
  have b: "bits s' = 0" using rw_all_idle_bits s'(2,3) .
  have "\<exists>k b. lock (found @ [bits s']) = Some (k, b) \<and> k \<le> length found" for found
    using spin_returns [of try_lock 0 0 found] b by (simp add: lock_def try_lock_def)
  moreover have "exec TryLock t s' = Some \<lparr>bits = 1, pcs = (pcs s')(t := Writer)\<rparr>"
    using b s'(3) by (simp add: move_def rw_op_defs)
  ultimately show ?thesis
    using s'(1) b by (metis fun_upd_same rwlock.select_convs(2))
qed

theorem rwspinlock_never_stuck_witness:
  "bits rw_stray = 3 \<and> (\<exists>s' s''. (rw_release 2)\<^sup>*\<^sup>* rw_stray s' \<and> bits s' = 0 \<and>
    exec TryLock 1 s' = Some s'' \<and> pcs s'' 1 = Writer)"
  using rwspinlock_never_stuck [of 2 rw_stray 1] rw_stray_reach
  by (simp add: rw_stray_def del: exec.simps) blast

end
