(* ===== verification/Acc_RWHolder.thy ===== *)
theory Acc_RWHolder
  imports Acc_Prelude "HOL-Library.Multiset"
begin

text \<open>
  The holder classes of \<open>RWSpinLock\<close> (\<open>src/accelerator/thread/RWSpinLock.h\<close>): \<open>ReadHolder\<close>,
  \<open>UpgradedHolder\<close> and \<open>WriteHolder\<close> keep a lock in one mode for as long as they live. A holder
  is its \<open>lock_\<close> field (None the null pointer), and an operation yields the lock calls it makes,
  in order, and the new fields. A ledger of the modes in which locks are held judges the calls:
  giving back a mode that is not held is an error.
\<close>

section \<open>Calls and the ledger\<close>

type_synonym lock_id = nat

datatype lock_call =
    Lock lock_id | Unlock lock_id
  | LockShared lock_id | UnlockShared lock_id
  | LockUpgrade lock_id | UnlockUpgrade lock_id
  | UnlockAndLockShared lock_id | UnlockAndLockUpgrade lock_id
  | UnlockUpgradeAndLock lock_id | UnlockUpgradeAndLockShared lock_id

datatype hclass = Read | Upgraded | Write

type_synonym ledger = "(lock_id \<times> hclass) multiset"

text \<open>What a call gives back and what it takes, as the comments of \<open>RWSpinLock\<close> state it.\<close>

fun gives :: "lock_call \<Rightarrow> ledger" where
  "gives (Unlock l) = {#(l, Write)#}"
| "gives (UnlockShared l) = {#(l, Read)#}"
| "gives (UnlockUpgrade l) = {#(l, Upgraded)#}"
| "gives (UnlockAndLockShared l) = {#(l, Write)#}"
| "gives (UnlockAndLockUpgrade l) = {#(l, Write)#}"
| "gives (UnlockUpgradeAndLock l) = {#(l, Upgraded)#}"
| "gives (UnlockUpgradeAndLockShared l) = {#(l, Upgraded)#}"
| "gives _ = {#}"

fun takes :: "lock_call \<Rightarrow> ledger" where
  "takes (Lock l) = {#(l, Write)#}"
| "takes (LockShared l) = {#(l, Read)#}"
| "takes (LockUpgrade l) = {#(l, Upgraded)#}"
| "takes (UnlockAndLockShared l) = {#(l, Read)#}"
| "takes (UnlockAndLockUpgrade l) = {#(l, Upgraded)#}"
| "takes (UnlockUpgradeAndLock l) = {#(l, Write)#}"
| "takes (UnlockUpgradeAndLockShared l) = {#(l, Read)#}"
| "takes _ = {#}"

fun runs :: "lock_call list \<Rightarrow> ledger \<Rightarrow> ledger option" where
  "runs [] h = Some h"
| "runs (c # cs) h = (if gives c \<subseteq># h then runs cs (h - gives c + takes c) else None)"

section \<open>The classes\<close>

type_synonym ptr = "lock_id option"

text \<open>\<open>if (lock_) lock_->f();\<close>\<close>

definition on_lock :: "(lock_id \<Rightarrow> lock_call) \<Rightarrow> ptr \<Rightarrow> lock_call list" where
  "on_lock f p = (case p of None \<Rightarrow> [] | Some l \<Rightarrow> [f l])"

definition ReadHolder :: "ptr \<Rightarrow> lock_call list \<times> ptr" where
  "ReadHolder lk = (on_lock LockShared lk, lk)"

definition ReadHolder_ref :: "lock_id \<Rightarrow> lock_call list \<times> ptr" where
  "ReadHolder_ref lk = ([LockShared lk], Some lk)"

text \<open>Constructors from another holder return the new field and the field left in the other.\<close>

definition ReadHolder_move :: "ptr \<Rightarrow> lock_call list \<times> ptr \<times> ptr" where
  "ReadHolder_move other = ([], other, None)"

definition ReadHolder_upgraded :: "ptr \<Rightarrow> lock_call list \<times> ptr \<times> ptr" where
  "ReadHolder_upgraded upgraded = (on_lock UnlockUpgradeAndLockShared upgraded, upgraded, None)"

definition ReadHolder_writer :: "ptr \<Rightarrow> lock_call list \<times> ptr \<times> ptr" where
  "ReadHolder_writer writer = (on_lock UnlockAndLockShared writer, writer, None)"

definition ReadHolder_assign :: "ptr \<Rightarrow> ptr \<Rightarrow> lock_call list \<times> ptr \<times> ptr" where
  "ReadHolder_assign this other = ([], other, this)"

definition ReadHolder_delete :: "ptr \<Rightarrow> lock_call list" where
  "ReadHolder_delete lk = on_lock UnlockShared lk"

definition ReadHolder_reset :: "ptr \<Rightarrow> ptr \<Rightarrow> lock_call list \<times> ptr" where
  "ReadHolder_reset lk this =
     (if lk = this then ([], this) else (on_lock UnlockShared this @ on_lock LockShared lk, lk))"

definition ReadHolder_swap :: "ptr \<Rightarrow> ptr \<Rightarrow> lock_call list \<times> ptr \<times> ptr" where
  "ReadHolder_swap this other = ([], other, this)"

definition UpgradedHolder :: "ptr \<Rightarrow> lock_call list \<times> ptr" where
  "UpgradedHolder lk = (on_lock LockUpgrade lk, lk)"

definition UpgradedHolder_ref :: "lock_id \<Rightarrow> lock_call list \<times> ptr" where
  "UpgradedHolder_ref lk = ([LockUpgrade lk], Some lk)"

definition UpgradedHolder_writer :: "ptr \<Rightarrow> lock_call list \<times> ptr \<times> ptr" where
  "UpgradedHolder_writer writer = (on_lock UnlockAndLockUpgrade writer, writer, None)"

definition UpgradedHolder_move :: "ptr \<Rightarrow> lock_call list \<times> ptr \<times> ptr" where
  "UpgradedHolder_move other = ([], other, None)"

definition UpgradedHolder_assign :: "ptr \<Rightarrow> ptr \<Rightarrow> lock_call list \<times> ptr \<times> ptr" where
  "UpgradedHolder_assign this other = ([], other, this)"

definition UpgradedHolder_delete :: "ptr \<Rightarrow> lock_call list" where
  "UpgradedHolder_delete lk = on_lock UnlockUpgrade lk"

definition UpgradedHolder_reset :: "ptr \<Rightarrow> ptr \<Rightarrow> lock_call list \<times> ptr" where
  "UpgradedHolder_reset lk this =
     (if lk = this then ([], this) else (on_lock UnlockUpgrade this @ on_lock LockUpgrade lk, lk))"

definition UpgradedHolder_swap :: "ptr \<Rightarrow> ptr \<Rightarrow> lock_call list \<times> ptr \<times> ptr" where
  "UpgradedHolder_swap this other = ([], other, this)"

definition WriteHolder :: "ptr \<Rightarrow> lock_call list \<times> ptr" where
  "WriteHolder lk = (on_lock Lock lk, lk)"

definition WriteHolder_ref :: "lock_id \<Rightarrow> lock_call list \<times> ptr" where
  "WriteHolder_ref lk = ([Lock lk], Some lk)"

definition WriteHolder_upgraded :: "ptr \<Rightarrow> lock_call list \<times> ptr \<times> ptr" where
  "WriteHolder_upgraded upgraded = (on_lock UnlockUpgradeAndLock upgraded, upgraded, None)"

definition WriteHolder_move :: "ptr \<Rightarrow> lock_call list \<times> ptr \<times> ptr" where
  "WriteHolder_move other = ([], other, None)"

definition WriteHolder_assign :: "ptr \<Rightarrow> ptr \<Rightarrow> lock_call list \<times> ptr \<times> ptr" where
  "WriteHolder_assign this other = ([], other, this)"

definition WriteHolder_delete :: "ptr \<Rightarrow> lock_call list" where
  "WriteHolder_delete lk = on_lock Unlock lk"

definition WriteHolder_reset :: "ptr \<Rightarrow> ptr \<Rightarrow> lock_call list \<times> ptr" where
  "WriteHolder_reset lk this =
     (if lk = this then ([], this) else (on_lock Unlock this @ on_lock Lock lk, lk))"

definition WriteHolder_swap :: "ptr \<Rightarrow> ptr \<Rightarrow> lock_call list \<times> ptr \<times> ptr" where
  "WriteHolder_swap this other = ([], other, this)"

section \<open>Programs over holders\<close>

text \<open>
  A statement of a C++ program over named holder variables. A statement the compiler or the
  scoping rules refuse (a variable that is not alive, a constructor the class does not have)
  is None. A variable dies by \<open>Delete\<close>, the end of its scope.
\<close>

datatype stmt =
    New hclass nat ptr | NewRef hclass nat lock_id
  | MoveFrom hclass nat nat
  | Assign nat nat | Delete nat | Reset nat ptr | Swap nat nat

type_synonym holders = "nat \<Rightarrow> (hclass \<times> ptr) option"

definition construct_from :: "hclass \<Rightarrow> hclass \<Rightarrow> ptr \<Rightarrow> (lock_call list \<times> ptr \<times> ptr) option" where
  "construct_from c c' other = (case (c, c') of
     (Read, Read) \<Rightarrow> Some (ReadHolder_move other)
   | (Read, Upgraded) \<Rightarrow> Some (ReadHolder_upgraded other)
   | (Read, Write) \<Rightarrow> Some (ReadHolder_writer other)
   | (Upgraded, Upgraded) \<Rightarrow> Some (UpgradedHolder_move other)
   | (Upgraded, Write) \<Rightarrow> Some (UpgradedHolder_writer other)
   | (Write, Write) \<Rightarrow> Some (WriteHolder_move other)
   | (Write, Upgraded) \<Rightarrow> Some (WriteHolder_upgraded other)
   | _ \<Rightarrow> None)"

fun new_holder :: "hclass \<Rightarrow> ptr \<Rightarrow> lock_call list \<times> ptr" where
  "new_holder Read = ReadHolder" | "new_holder Upgraded = UpgradedHolder" | "new_holder Write = WriteHolder"

fun new_ref :: "hclass \<Rightarrow> lock_id \<Rightarrow> lock_call list \<times> ptr" where
  "new_ref Read = ReadHolder_ref" | "new_ref Upgraded = UpgradedHolder_ref" | "new_ref Write = WriteHolder_ref"

fun delete_holder :: "hclass \<Rightarrow> ptr \<Rightarrow> lock_call list" where
  "delete_holder Read = ReadHolder_delete" | "delete_holder Upgraded = UpgradedHolder_delete"
| "delete_holder Write = WriteHolder_delete"

fun reset_holder :: "hclass \<Rightarrow> ptr \<Rightarrow> ptr \<Rightarrow> lock_call list \<times> ptr" where
  "reset_holder Read = ReadHolder_reset" | "reset_holder Upgraded = UpgradedHolder_reset"
| "reset_holder Write = WriteHolder_reset"

fun assign_holder :: "hclass \<Rightarrow> ptr \<Rightarrow> ptr \<Rightarrow> lock_call list \<times> ptr \<times> ptr" where
  "assign_holder Read = ReadHolder_assign" | "assign_holder Upgraded = UpgradedHolder_assign"
| "assign_holder Write = WriteHolder_assign"

fun swap_holder :: "hclass \<Rightarrow> ptr \<Rightarrow> ptr \<Rightarrow> lock_call list \<times> ptr \<times> ptr" where
  "swap_holder Read = ReadHolder_swap" | "swap_holder Upgraded = UpgradedHolder_swap"
| "swap_holder Write = WriteHolder_swap"

fun exec_stmt :: "stmt \<Rightarrow> holders \<Rightarrow> (lock_call list \<times> holders) option" where
  "exec_stmt (New c x lk) hs = (if hs x \<noteq> None then None
     else let (cs, p) = new_holder c lk in Some (cs, hs(x \<mapsto> (c, p))))"
| "exec_stmt (NewRef c x lk) hs = (if hs x \<noteq> None then None
     else let (cs, p) = new_ref c lk in Some (cs, hs(x \<mapsto> (c, p))))"
| "exec_stmt (MoveFrom c x y) hs = (case hs y of
     None \<Rightarrow> None
   | Some (c', other) \<Rightarrow> if hs x \<noteq> None then None
     else case construct_from c c' other of
       None \<Rightarrow> None
     | Some (cs, p, p') \<Rightarrow> Some (cs, hs(y \<mapsto> (c', p'), x \<mapsto> (c, p))))"
| "exec_stmt (Assign x y) hs = (case (hs x, hs y) of
     (Some (c, p), Some (c', p')) \<Rightarrow> if c \<noteq> c' then None else if x = y then Some ([], hs)
       else let (cs, q, q') = assign_holder c p p' in Some (cs, hs(x \<mapsto> (c, q), y \<mapsto> (c', q')))
   | _ \<Rightarrow> None)"
| "exec_stmt (Delete x) hs = (case hs x of
     None \<Rightarrow> None | Some (c, p) \<Rightarrow> Some (delete_holder c p, hs(x := None)))"
| "exec_stmt (Reset x lk) hs = (case hs x of
     None \<Rightarrow> None
   | Some (c, p) \<Rightarrow> let (cs, q) = reset_holder c lk p in Some (cs, hs(x \<mapsto> (c, q))))"
| "exec_stmt (Swap x y) hs = (case (hs x, hs y) of
     (Some (c, p), Some (c', p')) \<Rightarrow> if c \<noteq> c' then None else if x = y then Some ([], hs)
       else let (cs, q, q') = swap_holder c p p' in Some (cs, hs(x \<mapsto> (c, q), y \<mapsto> (c', q')))
   | _ \<Rightarrow> None)"

fun exec_prog :: "stmt list \<Rightarrow> holders \<Rightarrow> (lock_call list \<times> holders) option" where
  "exec_prog [] hs = Some ([], hs)"
| "exec_prog (s # ss) hs = (case exec_stmt s hs of
     None \<Rightarrow> None
   | Some (cs, hs) \<Rightarrow> (case exec_prog ss hs of None \<Rightarrow> None | Some (cs', hs) \<Rightarrow> Some (cs @ cs', hs)))"

section \<open>What the holders hold\<close>

definition tag :: "hclass \<Rightarrow> ptr \<Rightarrow> ledger" where
  "tag c p = (case p of None \<Rightarrow> {#} | Some l \<Rightarrow> {#(l, c)#})"

definition held :: "holders \<Rightarrow> ledger" where
  "held hs = (\<Sum>x\<in>dom hs. case the (hs x) of (c, p) \<Rightarrow> tag c p)"

lemma runs_append: "runs (cs @ cs') h = (case runs cs h of None \<Rightarrow> None | Some h \<Rightarrow> runs cs' h)"
  by (induction cs arbitrary: h) auto

lemma held_upd:
  assumes "finite (dom hs)" and "hs x = None"
  shows "held (hs(x \<mapsto> (c, p))) = held hs + tag c p"
proof -
  have "(\<Sum>y\<in>dom hs. case the ((hs(x \<mapsto> (c, p))) y) of (c, p) \<Rightarrow> tag c p) = held hs"
    unfolding held_def using assms(2) by (intro sum.cong) auto
  moreover have "x \<notin> dom hs" using assms(2) by auto
  ultimately show ?thesis unfolding held_def using assms(1) by (simp add: add.commute)
qed

lemma held_split:
  assumes "finite (dom hs)" and "hs x = Some (c, p)"
  shows "held hs = held (hs(x := None)) + tag c p"
proof -
  have "hs = (hs(x := None))(x \<mapsto> (c, p))" using assms(2) by auto
  then show ?thesis using held_upd [of "hs(x := None)" x c p] assms(1) by simp
qed

lemma held_change:
  assumes "finite (dom hs)" and "hs x = Some (c, p)"
  shows "held (hs(x \<mapsto> (c', p'))) = held (hs(x := None)) + tag c' p'"
  using held_upd [of "hs(x := None)" x c' p'] assms(1) by simp


text \<open>What a holder class promises: its holder has the lock in the mode of the class, no more and no less.\<close>

locale holder_class =
  fixes m :: hclass
    and new :: "ptr \<Rightarrow> lock_call list \<times> ptr" and ref :: "lock_id \<Rightarrow> lock_call list \<times> ptr"
    and del :: "ptr \<Rightarrow> lock_call list" and reset :: "ptr \<Rightarrow> ptr \<Rightarrow> lock_call list \<times> ptr"
  assumes new_takes: "new lk = (cs, p) \<Longrightarrow> runs cs h = Some (h + tag m p)"
    and ref_takes: "ref l = (cs, p) \<Longrightarrow> runs cs h = Some (h + tag m p)"
    and del_gives: "runs (del p) (h + tag m p) = Some h"
    and reset_moves: "reset lk p = (cs, p') \<Longrightarrow> runs cs (h + tag m p) = Some (h + tag m p')"
begin

lemma new_held:
  "finite (dom hs) \<Longrightarrow> hs x = None \<Longrightarrow> new lk = (cs, p) \<Longrightarrow>
     runs cs (held hs) = Some (held (hs(x \<mapsto> (m, p))))"
  by (simp add: held_upd new_takes)

lemma ref_held:
  "finite (dom hs) \<Longrightarrow> hs x = None \<Longrightarrow> ref l = (cs, p) \<Longrightarrow>
     runs cs (held hs) = Some (held (hs(x \<mapsto> (m, p))))"
  by (simp add: held_upd ref_takes)

lemma del_held:
  "finite (dom hs) \<Longrightarrow> hs x = Some (m, p) \<Longrightarrow> runs (del p) (held hs) = Some (held (hs(x := None)))"
  by (simp add: held_split [of hs x] del_gives del: fun_upd_apply)

lemma reset_held:
  "finite (dom hs) \<Longrightarrow> hs x = Some (m, p) \<Longrightarrow> reset lk p = (cs, p') \<Longrightarrow>
     runs cs (held hs) = Some (held (hs(x \<mapsto> (m, p'))))"
  by (simp add: held_split [of hs x] held_change [of hs x] reset_moves del: fun_upd_apply)

end

lemmas holder_defs = ReadHolder_def ReadHolder_ref_def ReadHolder_move_def ReadHolder_upgraded_def
  ReadHolder_writer_def ReadHolder_assign_def ReadHolder_delete_def ReadHolder_reset_def
  ReadHolder_swap_def UpgradedHolder_def UpgradedHolder_ref_def UpgradedHolder_writer_def
  UpgradedHolder_move_def UpgradedHolder_assign_def UpgradedHolder_delete_def
  UpgradedHolder_reset_def UpgradedHolder_swap_def WriteHolder_def WriteHolder_ref_def
  WriteHolder_upgraded_def WriteHolder_move_def WriteHolder_assign_def WriteHolder_delete_def
  WriteHolder_reset_def WriteHolder_swap_def

interpretation reads: holder_class Read ReadHolder ReadHolder_ref ReadHolder_delete ReadHolder_reset
  by unfold_locales (auto simp: holder_defs on_lock_def tag_def split: option.splits if_splits)

interpretation upgrades: holder_class Upgraded UpgradedHolder UpgradedHolder_ref
  UpgradedHolder_delete UpgradedHolder_reset
  by unfold_locales (auto simp: holder_defs on_lock_def tag_def split: option.splits if_splits)

interpretation writes: holder_class Write WriteHolder WriteHolder_ref WriteHolder_delete WriteHolder_reset
  by unfold_locales (auto simp: holder_defs on_lock_def tag_def split: option.splits if_splits)

lemma construct_from_runs:
  assumes "construct_from c c' other = Some (cs, p, p')"
  shows "runs cs (h + tag c' other) = Some (h + tag c' p' + tag c p)"
  using assms
  by (auto simp: construct_from_def holder_defs on_lock_def tag_def split: hclass.splits option.splits)

lemma swaps_only:
  "assign_holder c p p' = ([], p', p)" "swap_holder c p p' = ([], p', p)"
  by (cases c; simp add: holder_defs)+

lemma held_two:
  assumes "finite (dom hs)" and "x \<noteq> y" and "hs y = Some (c', p')"
  shows "hs x = None \<Longrightarrow> held (hs(y \<mapsto> (c', q'), x \<mapsto> (c, q))) = held (hs(y := None)) + tag c' q' + tag c q"
    and "hs x = Some (c', p) \<Longrightarrow> held (hs(x \<mapsto> (c', p'), y \<mapsto> (c', p))) = held hs"
proof -
  assume "hs x = None"
  then show "held (hs(y \<mapsto> (c', q'), x \<mapsto> (c, q))) = held (hs(y := None)) + tag c' q' + tag c q"
    using held_upd [of "hs(y \<mapsto> (c', q'))" x c q] held_change [OF assms(1,3), of c' q'] assms by simp
next
  assume x: "hs x = Some (c', p)"
  let ?g = "hs(x := None, y := None)"
  have "held hs = held ?g + tag c' p' + tag c' p"
    using held_split [OF assms(1) x] held_split [of "hs(x := None)" y c' p'] assms by simp
  moreover have "hs(x \<mapsto> (c', p'), y \<mapsto> (c', p)) = ?g(x \<mapsto> (c', p'), y \<mapsto> (c', p))" by auto
  moreover have "held (?g(x \<mapsto> (c', p'), y \<mapsto> (c', p))) = held ?g + tag c' p' + tag c' p"
    using held_upd [of "?g(x \<mapsto> (c', p'))" y c' p] held_upd [of ?g x c' p'] assms by simp
  ultimately show "held (hs(x \<mapsto> (c', p'), y \<mapsto> (c', p))) = held hs" by simp
qed


text \<open>The three classes together.\<close>

lemma class_held:
  assumes "finite (dom hs)"
  shows "hs x = None \<Longrightarrow> new_holder c lk = (cs, p) \<Longrightarrow> runs cs (held hs) = Some (held (hs(x \<mapsto> (c, p))))"
    and "hs x = None \<Longrightarrow> new_ref c l = (cs, p) \<Longrightarrow> runs cs (held hs) = Some (held (hs(x \<mapsto> (c, p))))"
    and "hs x = Some (c, p) \<Longrightarrow> runs (delete_holder c p) (held hs) = Some (held (hs(x := None)))"
    and "hs x = Some (c, p) \<Longrightarrow> reset_holder c lk p = (cs, p') \<Longrightarrow>
      runs cs (held hs) = Some (held (hs(x \<mapsto> (c, p'))))"
  using assms
  by (cases c; simp only: new_holder.simps new_ref.simps delete_holder.simps reset_holder.simps
      reads.new_held upgrades.new_held writes.new_held reads.ref_held upgrades.ref_held
      writes.ref_held reads.del_held upgrades.del_held writes.del_held reads.reset_held
      upgrades.reset_held writes.reset_held)+

lemma move_held:
  assumes "finite (dom hs)" and "hs x = None" and "hs y = Some (c', other)"
    and "construct_from c c' other = Some (cs, p, p')"
  shows "runs cs (held hs) = Some (held (hs(y \<mapsto> (c', p'), x \<mapsto> (c, p))))"
proof -
  have "x \<noteq> y" using assms(2,3) by auto
  then show ?thesis
    using held_two(1) [OF assms(1) _ assms(3,2)] held_split [OF assms(1,3)]
      construct_from_runs [OF assms(4)] by simp
qed

lemma exec_stmt_held:
  assumes fin: "finite (dom hs)" and e: "exec_stmt st hs = Some (cs, hs')"
  shows "finite (dom hs') \<and> runs cs (held hs) = Some (held hs')"
proof (cases st)
  case (New c x lk)
  then show ?thesis
    using e fin class_held(1) [OF fin, of x c lk] by (cases "hs x") (auto split: prod.splits)
next
  case (NewRef c x l)
  then show ?thesis
    using e fin class_held(2) [OF fin, of x c l] by (cases "hs x") (auto split: prod.splits)
next
  case (MoveFrom c x y)
  then show ?thesis
    using e fin move_held [OF fin, of x y]
    by (cases "hs x") (auto split: if_splits prod.splits option.splits)
next
  case (Assign x y)
  then show ?thesis
    using e fin held_two(2) [OF fin, of x y]
    by (auto simp: swaps_only split: if_splits prod.splits option.splits)
next
  case (Delete x)
  then show ?thesis using e fin class_held(3) [OF fin, of x] by (auto split: option.splits)
next
  case (Reset x lk)
  then show ?thesis
    using e fin class_held(4) [OF fin, of x] by (auto split: prod.splits option.splits)
next
  case (Swap x y)
  then show ?thesis
    using e fin held_two(2) [OF fin, of x y]
    by (auto simp: swaps_only split: if_splits prod.splits option.splits)
qed

lemma exec_prog_held:
  assumes "finite (dom hs)" and "exec_prog ss hs = Some (cs, hs')"
  shows "runs cs (held hs) = Some (held hs')"
  using assms
proof (induction ss arbitrary: hs cs)
  case Nil
  then show ?case by simp
next
  case (Cons st ss)
  then obtain cs1 hs1 cs2 where st: "exec_stmt st hs = Some (cs1, hs1)"
    and ss: "exec_prog ss hs1 = Some (cs2, hs')" and cs: "cs = cs1 @ cs2"
    by (auto split: option.splits)
  show ?case
    using exec_stmt_held [OF Cons.prems(1) st] Cons.IH [OF _ ss] by (simp add: cs runs_append)
qed

section \<open>The property\<close>

text \<open>
  C7: Holders never misuse a lock. Whatever well-formed program of holder statements runs, from
  no holders at all, every unlock, downgrade and upgrade it makes is of a lock held in the mode
  that the call gives back; the modes held at any time are exactly those of the living holders,
  so when all have been destroyed every lock is released.
\<close>

theorem rwholder_typestate:
  assumes "exec_prog ss Map.empty = Some (cs, hs)"
  shows "runs cs {#} = Some (held hs) \<and> (hs = Map.empty \<longrightarrow> runs cs {#} = Some {#})"
  using exec_prog_held [OF _ assms] by (simp add: held_def)

text \<open>A holder upgraded, written through, moved, downgraded and reset, and all holders destroyed.\<close>

theorem rwholder_typestate_witness:
  "runs [LockUpgrade 4, UnlockUpgradeAndLock 4, UnlockAndLockShared 4, UnlockShared 4, LockShared 5,
     UnlockShared 5] {#} = Some {#}"
proof -
  have "exec_prog [New Upgraded 0 (Some 4), MoveFrom Write 1 0, MoveFrom Read 2 1, Delete 0, Delete 1,
      Reset 2 (Some 5), Delete 2] Map.empty =
    Some ([LockUpgrade 4, UnlockUpgradeAndLock 4, UnlockAndLockShared 4, UnlockShared 4, LockShared 5,
      UnlockShared 5], Map.empty)"
    by (auto simp: construct_from_def holder_defs on_lock_def fun_eq_iff)
  then show ?thesis using rwholder_typestate by blast
qed

end
