(* ===== verification/Acc_PCQueue.thy ===== *)
theory Acc_PCQueue
  imports Acc_Prelude
begin

text \<open>
  \<open>ProducerConsumerQueue\<close> (\<open>src/accelerator/thread/ProducerConsumerQueue.h\<close>), the ring of one
  producer and one consumer: its operations run alone, and the interleavings of a producer that
  calls \<open>write\<close> with a consumer that calls \<open>read\<close>, in which every access to shared memory is a
  step of its own. Executions are sequentially consistent. A slot of \<open>records_\<close> is raw memory
  (None) or holds an object; building an object over a live one, using a dead one and leaving
  the array are errors, so that the lemmas show the code does neither.
\<close>

section \<open>State and operations\<close>

datatype pcq_error = SlotOutOfRange | SlotAlive | SlotDead | AssertFailed | BadAlloc | DrainFuel

record 'a pcq =
  qsize :: u32
  records :: "'a option list"
  readIndex :: u32
  writeIndex :: u32

text \<open>The array operations: construct in place, move from, destroy.\<close>

definition slot :: "u32 \<Rightarrow> 'a pcq \<Rightarrow> pcq_error + 'a option" where
  "slot i q = (if unat i < length (records q) then Inr (records q ! unat i) else Inl SlotOutOfRange)"

definition construct :: "u32 \<Rightarrow> 'a \<Rightarrow> 'a pcq \<Rightarrow> pcq_error + 'a pcq" where
  "construct i x q = bindE (slot i q) (\<lambda>v. case v of
     Some _ \<Rightarrow> Inl SlotAlive
   | None \<Rightarrow> Inr (q\<lparr>records := (records q)[unat i := Some x]\<rparr>))"

definition move_out :: "u32 \<Rightarrow> 'a pcq \<Rightarrow> pcq_error + 'a" where
  "move_out i q = bindE (slot i q) (\<lambda>v. case v of None \<Rightarrow> Inl SlotDead | Some x \<Rightarrow> Inr x)"

definition destroy :: "u32 \<Rightarrow> 'a pcq \<Rightarrow> pcq_error + 'a pcq" where
  "destroy i q = bindE (slot i q) (\<lambda>v. case v of
     None \<Rightarrow> Inl SlotDead
   | Some _ \<Rightarrow> Inr (q\<lparr>records := (records q)[unat i := None]\<rparr>))"

definition next_record :: "u32 \<Rightarrow> u32 \<Rightarrow> u32" where
  "next_record sz i = (let nextRecord = i + 1 in if nextRecord = sz then 0 else nextRecord)"

text \<open>\<open>malloc_ok\<close> tells whether the allocation of the records succeeds.\<close>

definition pcq_new :: "bool \<Rightarrow> u32 \<Rightarrow> pcq_error + 'a pcq" where
  "pcq_new malloc_ok sz =
     (if \<not> 2 \<le> sz then Inl AssertFailed
      else if \<not> malloc_ok then Inl BadAlloc
      else Inr \<lparr>qsize = sz, records = replicate (unat sz) None, readIndex = 0, writeIndex = 0\<rparr>)"

definition write' :: "'a \<Rightarrow> 'a pcq \<Rightarrow> pcq_error + bool \<times> 'a pcq" where
  "write' x q =
     (let currentWrite = writeIndex q; nextRecord = next_record (qsize q) currentWrite in
      if nextRecord \<noteq> readIndex q then
        bindE (construct currentWrite x q) (\<lambda>q. Inr (True, q\<lparr>writeIndex := nextRecord\<rparr>))
      else Inr (False, q))"

definition read' :: "'a pcq \<Rightarrow> pcq_error + 'a option \<times> 'a pcq" where
  "read' q =
     (let currentRead = readIndex q in
      if currentRead = writeIndex q then Inr (None, q)
      else
        let nextRecord = next_record (qsize q) currentRead in
        bindE (move_out currentRead q) (\<lambda>x.
        bindE (destroy currentRead q) (\<lambda>q.
        Inr (Some x, q\<lparr>readIndex := nextRecord\<rparr>))))"

definition frontPtr :: "'a pcq \<Rightarrow> u32 option" where
  "frontPtr q = (if readIndex q = writeIndex q then None else Some (readIndex q))"

definition popFront :: "'a pcq \<Rightarrow> pcq_error + 'a pcq" where
  "popFront q =
     (let currentRead = readIndex q in
      if currentRead = writeIndex q then Inl AssertFailed
      else
        let nextRecord = next_record (qsize q) currentRead in
        bindE (destroy currentRead q) (\<lambda>q. Inr (q\<lparr>readIndex := nextRecord\<rparr>)))"

definition isEmpty :: "'a pcq \<Rightarrow> bool" where
  "isEmpty q \<longleftrightarrow> readIndex q = writeIndex q"

definition isFull :: "'a pcq \<Rightarrow> bool" where
  "isFull q \<longleftrightarrow> next_record (qsize q) (writeIndex q) = readIndex q"

text \<open>
  \<open>ret\<close> is an \<open>int\<close>: the unsigned difference is read as signed, \<open>ret += size_\<close> is unsigned again,
  and the result is sign-extended to \<open>size_t\<close>.
\<close>

definition sizeGuess :: "'a pcq \<Rightarrow> 64 word" where
  "sizeGuess q =
     (let ret = writeIndex q - readIndex q;
          ret = (if sint ret < 0 then ret + qsize q else ret)
      in scast ret)"

definition capacity :: "'a pcq \<Rightarrow> 64 word" where
  "capacity q = ucast (qsize q - 1)"

text \<open>The destructor's loop, with fuel for as many rounds as the ring has slots.\<close>

fun drain :: "nat \<Rightarrow> u32 \<Rightarrow> u32 \<Rightarrow> 'a pcq \<Rightarrow> pcq_error + 'a pcq" where
  "drain 0 i endIndex q = (if i = endIndex then Inr q else Inl DrainFuel)"
| "drain (Suc fuel) i endIndex q =
     (if i = endIndex then Inr q
      else bindE (destroy i q) (drain fuel (next_record (qsize q) i) endIndex))"

text \<open>
  The destructor skips the loop for element types without a destructor of their own. The storage is
  freed afterwards, which has no representation here.
\<close>

definition pcq_delete :: "bool \<Rightarrow> 'a pcq \<Rightarrow> pcq_error + 'a pcq" where
  "pcq_delete trivially_destructible q =
     (if \<not> trivially_destructible then drain (unat (qsize q)) (readIndex q) (writeIndex q) q
      else Inr q)"

section \<open>The producer and the consumer at the same time\<close>

text \<open>
  Where a call of \<open>write\<close> or of \<open>read\<close> is, with its local variables. Each step makes one access
  to the shared memory. \<open>written\<close> lists the arguments of the writes that returned true, and
  \<open>consumed\<close> the records of the reads that did.
\<close>

datatype 'a producer =
    PIdle
  | PLoaded u32 'a    \<comment> \<open>has loaded \<open>writeIndex_\<close>\<close>
  | PFree u32 'a      \<comment> \<open>has seen that the slot is free\<close>
  | PBuilt u32 'a     \<comment> \<open>has built the record\<close>

datatype 'a consumer =
    CIdle
  | CLoaded u32       \<comment> \<open>has loaded \<open>readIndex_\<close>\<close>
  | CFound u32        \<comment> \<open>has seen that the queue is not empty\<close>
  | CMoved u32 'a     \<comment> \<open>has moved the record out\<close>
  | CGone u32 'a      \<comment> \<open>has destroyed the slot\<close>

record 'a pcq_sys =
  mem :: "'a pcq"
  producer :: "'a producer"
  consumer :: "'a consumer"
  written :: "'a list"
  consumed :: "'a list"

fun producer_step :: "'a \<Rightarrow> 'a pcq_sys \<Rightarrow> 'a producer \<Rightarrow> pcq_error + 'a pcq_sys" where
  "producer_step x s PIdle = Inr (s\<lparr>producer := PLoaded (writeIndex (mem s)) x\<rparr>)"
| "producer_step _ s (PLoaded currentWrite x) =
     (if next_record (qsize (mem s)) currentWrite \<noteq> readIndex (mem s)
      then Inr (s\<lparr>producer := PFree currentWrite x\<rparr>)
      else Inr (s\<lparr>producer := PIdle\<rparr>))"
| "producer_step _ s (PFree currentWrite x) =
     bindE (construct currentWrite x (mem s)) (\<lambda>q.
     Inr (s\<lparr>mem := q, producer := PBuilt currentWrite x\<rparr>))"
| "producer_step _ s (PBuilt currentWrite x) =
     Inr (s\<lparr>mem := (mem s)\<lparr>writeIndex := next_record (qsize (mem s)) currentWrite\<rparr>,
            producer := PIdle, written := written s @ [x]\<rparr>)"

fun consumer_step :: "'a pcq_sys \<Rightarrow> 'a consumer \<Rightarrow> pcq_error + 'a pcq_sys" where
  "consumer_step s CIdle = Inr (s\<lparr>consumer := CLoaded (readIndex (mem s))\<rparr>)"
| "consumer_step s (CLoaded currentRead) =
     (if currentRead = writeIndex (mem s) then Inr (s\<lparr>consumer := CIdle\<rparr>)
      else Inr (s\<lparr>consumer := CFound currentRead\<rparr>))"
| "consumer_step s (CFound currentRead) =
     bindE (move_out currentRead (mem s)) (\<lambda>x. Inr (s\<lparr>consumer := CMoved currentRead x\<rparr>))"
| "consumer_step s (CMoved currentRead x) =
     bindE (destroy currentRead (mem s)) (\<lambda>q. Inr (s\<lparr>mem := q, consumer := CGone currentRead x\<rparr>))"
| "consumer_step s (CGone currentRead x) =
     Inr (s\<lparr>mem := (mem s)\<lparr>readIndex := next_record (qsize (mem s)) currentRead\<rparr>,
            consumer := CIdle, consumed := consumed s @ [x]\<rparr>)"

definition pcq_start :: "'a pcq \<Rightarrow> 'a pcq_sys" where
  "pcq_start q = \<lparr>mem = q, producer = PIdle, consumer = CIdle, written = [], consumed = []\<rparr>"

text \<open>What the interleavings from a new queue of the given size reach, errors included.\<close>

inductive pcq_reach :: "u32 \<Rightarrow> pcq_error + 'a pcq_sys \<Rightarrow> bool" for sz where
  start: "pcq_new True sz = Inr q \<Longrightarrow> pcq_reach sz (Inr (pcq_start q))"
| produce: "pcq_reach sz (Inr s) \<Longrightarrow> pcq_reach sz (producer_step x s (producer s))"
| consume: "pcq_reach sz (Inr s) \<Longrightarrow> pcq_reach sz (consumer_step s (consumer s))"

section \<open>The ring_at\<close>

text \<open>
  Positions count the elements since the queue was made: the slot of position \<open>k\<close> is
  \<open>k mod n\<close>. \<open>window n recs lo hi f\<close> says that the ring of \<open>n\<close> slots holds exactly the elements
  \<open>f lo, \<dots>, f (hi - 1)\<close>.
\<close>

definition window :: "nat \<Rightarrow> 'a option list \<Rightarrow> nat \<Rightarrow> nat \<Rightarrow> (nat \<Rightarrow> 'a) \<Rightarrow> bool" where
  "window n recs lo hi f \<longleftrightarrow>
     length recs = n \<and> lo \<le> hi \<and> hi - lo < n \<and>
     (\<forall>k. lo \<le> k \<and> k < hi \<longrightarrow> recs ! (k mod n) = Some (f k)) \<and>
     (\<forall>i<n. (\<forall>k. lo \<le> k \<and> k < hi \<longrightarrow> k mod n \<noteq> i) \<longrightarrow> recs ! i = None)"

definition index_at :: "u32 \<Rightarrow> nat \<Rightarrow> u32" where
  "index_at sz k = of_nat (k mod unat sz)"

lemma mod_window_eq:
  fixes a b n :: nat
  assumes "a \<le> b" and "b < a + n"
  shows "b mod n = a mod n \<longleftrightarrow> b = a"
proof
  assume "b mod n = a mod n"
  then have "n dvd b - a" using assms(1) by (simp add: mod_eq_dvd_iff_nat)
  moreover have "b - a < n" using assms by linarith
  ultimately have "b - a = 0" by (meson nat_dvd_not_less neq0_conv)
  then show "b = a" using assms(1) by simp
qed simp

lemma mod_window_full:
  fixes a b n :: nat
  assumes "a \<le> b" and "b < a + n"
  shows "(b + 1) mod n = a mod n \<longleftrightarrow> b + 1 = a + n \<or> n = 1"
proof (cases "b + 1 < a + n")
  case True
  then show ?thesis using mod_window_eq [of a "b + 1" n] assms by auto
next
  case False
  then have "b + 1 = a + n" using assms by simp
  then show ?thesis by (metis mod_add_self2)
qed

lemma unat_index_at: "0 < sz \<Longrightarrow> unat (index_at sz k) = k mod unat sz"
proof -
  assume "0 < sz"
  then have "k mod unat sz < unat sz" by (simp add: word_less_nat_alt)
  also have "unat sz < 2 ^ 32" using unsigned_less [of sz] by simp
  finally show ?thesis
    unfolding index_at_def by (rule unat_of_nat_u32)
qed

lemma index_at_eq_iff: "0 < sz \<Longrightarrow> index_at sz j = index_at sz k \<longleftrightarrow> j mod unat sz = k mod unat sz"
  using unat_index_at by (metis word_unat_eq_iff)

lemma next_index: 
  assumes "2 \<le> sz"
  shows "next_record sz (index_at sz k) = index_at sz (k + 1)"
proof -
  let ?n = "unat sz"
  have n: "2 \<le> ?n" "?n < 2 ^ 32" using assms unsigned_less [of sz] by (auto simp: word_le_nat_alt)
  have m: "k mod ?n < ?n" using n by (intro mod_less_divisor) linarith
  have "index_at sz k + 1 = of_nat (k mod ?n + 1)" by (simp add: index_at_def)
  moreover have "(of_nat (k mod ?n + 1) :: u32) = sz \<longleftrightarrow> k mod ?n + 1 = ?n"
  proof -
    have "unat (of_nat (k mod ?n + 1) :: u32) = k mod ?n + 1"
      using m n by (intro unat_of_nat_u32) linarith
    then show ?thesis by (metis word_unat_eq_iff)
  qed
  moreover have "(k + 1) mod ?n = (if k mod ?n + 1 = ?n then 0 else k mod ?n + 1)"
    using n by (metis mod_Suc Suc_eq_plus1)
  ultimately show ?thesis by (simp only: next_record_def index_at_def Let_def) simp
qed


text \<open>What the array operations do to the window.\<close>

lemma window_other:
  assumes "window n recs lo hi f" and "lo \<le> k" "k < hi" "lo \<le> j" "j < hi" "j \<noteq> k"
  shows "j mod n \<noteq> k mod n"
proof -
  have "hi < lo + n" using assms(1) by (auto simp: window_def)
  then show ?thesis
    using assms(2-) mod_window_eq [of j k n] mod_window_eq [of k j n] by (cases "j \<le> k") auto
qed

lemma window_push:
  assumes w: "window n recs lo hi f" and room: "hi + 1 < lo + n" and f': "f' hi = x"
    and same: "\<And>k. k < hi \<Longrightarrow> f' k = f k"
  shows "hi mod n < length recs" and "recs ! (hi mod n) = None"
    and "window n (recs[hi mod n := Some x]) lo (hi + 1) f'"
proof -
  have n: "length recs = n" "0 < n" "lo \<le> hi" using w room by (auto simp: window_def)
  show b: "hi mod n < length recs" using n by simp
  have fresh: "k mod n \<noteq> hi mod n" if "lo \<le> k" "k < hi" for k
    using mod_window_eq [of k hi n] that room by auto
  then show "recs ! (hi mod n) = None"
    using w n by (simp add: window_def)
  show "window n (recs[hi mod n := Some x]) lo (hi + 1) f'"
    unfolding window_def
  proof (intro conjI allI impI)
    fix k assume k: "lo \<le> k \<and> k < hi + 1"
    show "recs[hi mod n := Some x] ! (k mod n) = Some (f' k)"
    proof (cases "k = hi")
      case False
      then have "lo \<le> k" "k < hi" using k by auto
      then show ?thesis using w same fresh [of k] by (simp add: window_def)
    qed (use f' b in simp)
  next
    fix i assume "i < n" and out: "\<forall>k. lo \<le> k \<and> k < hi + 1 \<longrightarrow> k mod n \<noteq> i"
    then show "recs[hi mod n := Some x] ! i = None"
      using w n by (auto simp: window_def nth_list_update)
  qed (use w room in \<open>auto simp: window_def\<close>)
qed

lemma window_front:
  assumes "window n recs lo hi f" and "lo < hi"
  shows "lo mod n < length recs" and "recs ! (lo mod n) = Some (f lo)"
  using assms by (auto simp: window_def)

lemma window_pop:
  assumes w: "window n recs lo hi f" and "lo < hi"
  shows "window n (recs[lo mod n := None]) (lo + 1) hi f"
  unfolding window_def
proof (intro conjI allI impI)
  fix k assume k: "lo + 1 \<le> k \<and> k < hi"
  then have "k mod n \<noteq> lo mod n" using window_other [OF w, of lo k] assms(2) by auto
  then show "recs[lo mod n := None] ! (k mod n) = Some (f k)"
    using w k by (simp add: window_def)
next
  fix i assume i: "i < n" and out: "\<forall>k. lo + 1 \<le> k \<and> k < hi \<longrightarrow> k mod n \<noteq> i"
  show "recs[lo mod n := None] ! i = None"
  proof (cases "i = lo mod n")
    case False
    then have "\<forall>k. lo \<le> k \<and> k < hi \<longrightarrow> k mod n \<noteq> i"
      using out by (metis Suc_eq_plus1 Suc_leI le_neq_implies_less)
    then show ?thesis using w i False by (simp add: window_def)
  qed (use w i in \<open>simp add: window_def\<close>)
qed (use assms in \<open>auto simp: window_def\<close>)

lemma window_init: "0 < n \<Longrightarrow> window n (replicate n None) k k f"
  by (simp add: window_def)

text \<open>The queue as its positions: \<open>lo\<close> elements consumed and \<open>hi\<close> written so far.\<close>

definition ring_at :: "'a pcq \<Rightarrow> nat \<Rightarrow> nat \<Rightarrow> (nat \<Rightarrow> 'a) \<Rightarrow> bool" where
  "ring_at q lo hi f \<longleftrightarrow>
     2 \<le> qsize q \<and> window (unat (qsize q)) (records q) lo hi f \<and>
     readIndex q = index_at (qsize q) lo \<and> writeIndex q = index_at (qsize q) hi"

lemma pos_of_two: "(2 :: u32) \<le> sz \<Longrightarrow> 0 < sz \<and> 2 \<le> unat sz"
  by (simp add: word_le_nat_alt word_less_nat_alt)

lemma index_empty:
  assumes "2 \<le> sz" "lo \<le> hi" "hi < lo + unat sz"
  shows "index_at sz lo = index_at sz hi \<longleftrightarrow> lo = hi"
  using mod_window_eq [OF assms(2,3)] pos_of_two [OF assms(1)] by (auto simp: index_at_eq_iff)

lemma index_full:
  assumes "2 \<le> sz" "lo \<le> hi" "hi < lo + unat sz"
  shows "next_record sz (index_at sz hi) = index_at sz lo \<longleftrightarrow> hi + 1 = lo + unat sz"
  using mod_window_full [OF assms(2,3)] pos_of_two [OF assms(1)] next_index [OF assms(1)]
  by (auto simp: index_at_eq_iff)


lemma construct_window:
  assumes "2 \<le> qsize q" and "window (unat (qsize q)) (records q) lo hi f"
    and "hi + 1 < lo + unat (qsize q)"
  shows "construct (index_at (qsize q) hi) x q =
    Inr (q\<lparr>records := (records q)[hi mod unat (qsize q) := Some x]\<rparr>)"
  using window_push(1,2) [OF assms(2,3), of "f(hi := x)" x] pos_of_two [OF assms(1)]
  by (simp add: construct_def slot_def unat_index_at)

lemma destroy_window:
  assumes "2 \<le> qsize q" and "window (unat (qsize q)) (records q) lo hi f" and "lo < hi"
  shows "destroy (index_at (qsize q) lo) q =
      Inr (q\<lparr>records := (records q)[lo mod unat (qsize q) := None]\<rparr>)"
    and "move_out (index_at (qsize q) lo) q = Inr (f lo)"
  using window_front [OF assms(2,3)] pos_of_two [OF assms(1)]
  by (simp_all add: destroy_def move_out_def slot_def unat_index_at)

section \<open>The invariant of the interleavings\<close>

fun built :: "'a producer \<Rightarrow> 'a list" where
  "built (PBuilt _ x) = [x]" | "built _ = []"

fun gone :: "'a consumer \<Rightarrow> nat" where
  "gone (CGone _ _) = 1" | "gone _ = 0"

fun producer_ok :: "'a pcq \<Rightarrow> nat \<Rightarrow> nat \<Rightarrow> 'a producer \<Rightarrow> bool" where
  "producer_ok q lo hi PIdle = True"
| "producer_ok q lo hi (PLoaded i _) = (i = writeIndex q)"
| "producer_ok q lo hi (PFree i _) = (i = writeIndex q \<and> hi + 1 < lo + unat (qsize q))"
| "producer_ok q lo hi (PBuilt i _) = (i = writeIndex q \<and> hi + 1 < lo + unat (qsize q))"

fun consumer_ok :: "'a pcq \<Rightarrow> nat \<Rightarrow> 'a list \<Rightarrow> 'a consumer \<Rightarrow> bool" where
  "consumer_ok q lo xs CIdle = True"
| "consumer_ok q lo xs (CLoaded i) = (i = readIndex q)"
| "consumer_ok q lo xs (CFound i) = (i = readIndex q \<and> lo < length xs)"
| "consumer_ok q lo xs (CMoved i x) = (i = readIndex q \<and> lo < length xs \<and> x = xs ! lo)"
| "consumer_ok q lo xs (CGone i x) = (i = readIndex q \<and> lo < length xs \<and> x = xs ! lo)"

text \<open>The elements between the two indices, in order.\<close>

definition pending :: "'a pcq_sys \<Rightarrow> 'a list" where
  "pending s = drop (length (consumed s)) (written s)"

definition pcq_inv :: "'a pcq_sys \<Rightarrow> bool" where
  "pcq_inv s \<longleftrightarrow>
     (let q = mem s; lo = length (consumed s); hi = length (written s);
          xs = written s @ built (producer s) in
      2 \<le> qsize q \<and>
      window (unat (qsize q)) (records q) (lo + gone (consumer s)) (length xs) (\<lambda>k. xs ! k) \<and>
      readIndex q = index_at (qsize q) lo \<and> writeIndex q = index_at (qsize q) hi \<and>
      take lo (written s) = consumed s \<and> lo \<le> hi \<and> hi < lo + unat (qsize q) \<and>
      producer_ok q lo hi (producer s) \<and> consumer_ok q lo (written s) (consumer s))"

lemma pcq_inv_start:
  assumes "pcq_new True sz = Inr q"
  shows "pcq_inv (pcq_start q)"
  using assms pos_of_two [of sz]
  by (auto simp: pcq_new_def pcq_inv_def pcq_start_def index_at_def window_init split: if_splits)


lemma consumer_ok_append: "consumer_ok q lo xs c \<Longrightarrow> consumer_ok q lo (xs @ ys) c"
  by (cases c) (auto simp: nth_append)

lemma producer_ok_pop: "producer_ok q lo hi p \<Longrightarrow> producer_ok q (Suc lo) hi p"
  by (cases p) auto

text \<open>The checks \<open>producer_ok\<close> and \<open>consumer_ok\<close> read the indices and the size, and one index each.\<close>

lemma ok_cong [simp]:
  "producer_ok (q\<lparr>records := r\<rparr>) lo hi p = producer_ok q lo hi p"
  "producer_ok (q\<lparr>readIndex := i\<rparr>) lo hi p = producer_ok q lo hi p"
  "consumer_ok (q\<lparr>records := r\<rparr>) lo xs c = consumer_ok q lo xs c"
  "consumer_ok (q\<lparr>writeIndex := i\<rparr>) lo xs c = consumer_ok q lo xs c"
  by (cases p; simp; fail)+ (cases c; simp; fail)+

lemma producer_inv:
  assumes inv: "pcq_inv s"
  shows "\<exists>s'. producer_step x s (producer s) = Inr s' \<and> pcq_inv s'"
proof (cases "producer s")
  case PIdle
  then show ?thesis using inv by (simp add: pcq_inv_def Let_def)
next
  case (PLoaded i y)
  then show ?thesis
    using inv index_full [of "qsize (mem s)" "length (consumed s)" "length (written s)"]
    by (auto simp: pcq_inv_def Let_def)
next
  case (PFree i y)
  let ?q = "mem s"
  let ?lo = "length (consumed s) + gone (consumer s)" and ?hi = "length (written s)"
  have w: "2 \<le> qsize ?q" "window (unat (qsize ?q)) (records ?q) ?lo ?hi (\<lambda>k. written s ! k)"
    and i: "i = index_at (qsize ?q) ?hi" and room: "?hi + 1 < ?lo + unat (qsize ?q)"
    using inv PFree by (auto simp: pcq_inv_def Let_def)
  have "window (unat (qsize ?q)) ((records ?q)[?hi mod unat (qsize ?q) := Some y]) ?lo (?hi + 1)
      (\<lambda>k. (written s @ [y]) ! k)"
    by (rule window_push(3) [OF w(2) room]) (auto simp: nth_append)
  moreover have "producer_step x s (producer s) = Inr (s\<lparr>mem := ?q\<lparr>records :=
      (records ?q)[?hi mod unat (qsize ?q) := Some y]\<rparr>, producer := PBuilt i y\<rparr>)"
    using PFree construct_window [OF w room, of y] i by simp
  ultimately show ?thesis
    using inv PFree unfolding pcq_inv_def Let_def by simp
next
  case (PBuilt i y)
  let ?q = "mem s"
  have i: "2 \<le> qsize ?q" "i = index_at (qsize ?q) (length (written s))"
    and "consumer_ok ?q (length (consumed s)) (written s) (consumer s)"
    using inv PBuilt by (auto simp: pcq_inv_def Let_def)
  then have c: "consumer_ok ?q (length (consumed s)) (written s @ [y]) (consumer s)"
    by (intro consumer_ok_append)
  have "producer_step x s (producer s) = Inr (s\<lparr>mem := ?q\<lparr>writeIndex :=
      index_at (qsize ?q) (length (written s) + 1)\<rparr>, producer := PIdle, written := written s @ [y]\<rparr>)"
    using PBuilt i next_index by simp
  then show ?thesis
    using inv PBuilt c unfolding pcq_inv_def Let_def by simp
qed

lemma consumer_inv:
  assumes inv: "pcq_inv s"
  shows "\<exists>s'. consumer_step s (consumer s) = Inr s' \<and> pcq_inv s'"
proof (cases "consumer s")
  case CIdle
  then show ?thesis using inv by (simp add: pcq_inv_def Let_def)
next
  case (CLoaded i)
  have "i = index_at (qsize (mem s)) (length (consumed s))"
      "writeIndex (mem s) = index_at (qsize (mem s)) (length (written s))"
      "length (consumed s) \<le> length (written s)"
    using inv CLoaded unfolding pcq_inv_def Let_def by simp_all
  then have lt: "length (consumed s) < length (written s)" if "i \<noteq> writeIndex (mem s)"
    using that by (metis le_neq_implies_less)
  have "pcq_inv (s\<lparr>consumer := CIdle\<rparr>)"
    using inv CLoaded unfolding pcq_inv_def Let_def by simp
  moreover have "pcq_inv (s\<lparr>consumer := CFound i\<rparr>)" if "i \<noteq> writeIndex (mem s)"
    using inv CLoaded lt [OF that] unfolding pcq_inv_def Let_def by simp
  ultimately show ?thesis
    by (cases "i = writeIndex (mem s)") (simp_all add: CLoaded)
next
  case (CFound i)
  let ?xs = "written s @ built (producer s)"
  have w: "2 \<le> qsize (mem s)"
      "window (unat (qsize (mem s))) (records (mem s)) (length (consumed s)) (length ?xs) (\<lambda>k. ?xs ! k)"
      "length (consumed s) < length ?xs" and i: "i = index_at (qsize (mem s)) (length (consumed s))"
    using inv CFound by (auto simp: pcq_inv_def Let_def)
  have "consumer_step s (consumer s) = Inr (s\<lparr>consumer := CMoved i (?xs ! length (consumed s))\<rparr>)"
    using CFound destroy_window(2) [OF w] i by simp
  then show ?thesis
    using inv CFound unfolding pcq_inv_def Let_def by (simp add: nth_append)
next
  case (CMoved i y)
  let ?xs = "written s @ built (producer s)"
  have w: "2 \<le> qsize (mem s)"
      "window (unat (qsize (mem s))) (records (mem s)) (length (consumed s)) (length ?xs) (\<lambda>k. ?xs ! k)"
      "length (consumed s) < length ?xs" and i: "i = index_at (qsize (mem s)) (length (consumed s))"
    using inv CMoved by (auto simp: pcq_inv_def Let_def)
  have "consumer_step s (consumer s) = Inr (s\<lparr>mem := (mem s)\<lparr>records :=
      (records (mem s))[length (consumed s) mod unat (qsize (mem s)) := None]\<rparr>, consumer := CGone i y\<rparr>)"
    using CMoved destroy_window(1) [OF w] i by simp
  then show ?thesis
    using inv CMoved window_pop [OF w(2,3)] unfolding pcq_inv_def Let_def by simp
next
  case (CGone i y)
  let ?q = "mem s"
  have i: "2 \<le> qsize ?q" "i = index_at (qsize ?q) (length (consumed s))"
    and "producer_ok ?q (length (consumed s)) (length (written s)) (producer s)"
    using inv CGone by (auto simp: pcq_inv_def Let_def)
  then have c: "producer_ok ?q (Suc (length (consumed s))) (length (written s)) (producer s)"
    by (intro producer_ok_pop)
  have "consumer_step s (consumer s) = Inr (s\<lparr>mem := ?q\<lparr>readIndex :=
      index_at (qsize ?q) (length (consumed s) + 1)\<rparr>, consumer := CIdle, consumed := consumed s @ [y]\<rparr>)"
    using CGone i next_index by simp
  then show ?thesis
    using inv CGone c unfolding pcq_inv_def Let_def by (simp add: take_Suc_conv_app_nth)
qed

lemma pcq_inv_reach:
  fixes r :: "pcq_error + 'a pcq_sys"
  assumes "pcq_reach sz r"
  shows "\<exists>s. r = Inr s \<and> pcq_inv s"
  using assms
proof (induction rule: pcq_reach.induct)
  case (start q)
  then have "pcq_inv (pcq_start q)" by (rule pcq_inv_start)
  then show ?case by simp
next
  case (produce s x)
  then have "pcq_inv s" by simp
  then show ?case by (rule producer_inv)
next
  case (consume s)
  then have "pcq_inv s" by simp
  then show ?case by (rule consumer_inv)
qed


section \<open>The operations run alone\<close>

definition pcq_holds :: "'a pcq \<Rightarrow> 'a list \<Rightarrow> bool" where
  "pcq_holds q xs \<longleftrightarrow> (\<exists>lo f. ring_at q lo (lo + length xs) f \<and> (\<forall>i<length xs. f (lo + i) = xs ! i))"

lemma pcq_holdsE:
  assumes "pcq_holds q xs"
  obtains lo f where "\<forall>i<length xs. f (lo + i) = xs ! i"
    and "2 \<le> qsize q" and "window (unat (qsize q)) (records q) lo (lo + length xs) f"
    and "readIndex q = index_at (qsize q) lo" and "writeIndex q = index_at (qsize q) (lo + length xs)"
    and "length xs < unat (qsize q)"
  using assms by (auto simp: pcq_holds_def ring_at_def window_def)

lemma pcq_new_holds:
  assumes "pcq_new ok sz = Inr q"
  shows "pcq_holds q []"
proof -
  have "ring_at q 0 0 (\<lambda>_. undefined)"
    using assms pos_of_two [of sz]
    by (auto simp: pcq_new_def ring_at_def index_at_def window_init split: if_splits)
  then show ?thesis unfolding pcq_holds_def by (metis add_0 length_0_conv not_less_zero list.size(3))
qed

lemma write_holds:
  assumes "pcq_holds q xs"
  shows "if length xs + 1 = unat (qsize q) then write' x q = Inr (False, q)
    else \<exists>q'. write' x q = Inr (True, q') \<and> qsize q' = qsize q \<and> pcq_holds q' (xs @ [x])"
proof -
  obtain lo f where f: "\<forall>i<length xs. f (lo + i) = xs ! i"
    and w: "2 \<le> qsize q" "window (unat (qsize q)) (records q) lo (lo + length xs) f"
    and r: "readIndex q = index_at (qsize q) lo" "writeIndex q = index_at (qsize q) (lo + length xs)"
    and len: "length xs < unat (qsize q)"
    using assms by (rule pcq_holdsE)
  let ?n = "unat (qsize q)" and ?hi = "lo + length xs"
  have full: "next_record (qsize q) (writeIndex q) = readIndex q \<longleftrightarrow> length xs + 1 = ?n"
    using index_full [OF w(1), of lo ?hi] len r by auto
  show ?thesis
  proof (cases "length xs + 1 = ?n")
    case True
    then show ?thesis using full by (simp add: write'_def)
  next
    case False
    then have room: "?hi + 1 < lo + ?n" using len by simp
    let ?g = "f(?hi := x)"
    let ?q = "q\<lparr>records := (records q)[?hi mod ?n := Some x], writeIndex := index_at (qsize q) (?hi + 1)\<rparr>"
    have "window ?n ((records q)[?hi mod ?n := Some x]) lo (?hi + 1) ?g"
      by (rule window_push(3) [OF w(2) room]) auto
    then have "ring_at ?q lo (lo + length (xs @ [x])) ?g" using w(1) r by (simp add: ring_at_def)
    moreover have "\<forall>i<length (xs @ [x]). ?g (lo + i) = (xs @ [x]) ! i"
      using f by (auto simp: nth_append less_Suc_eq)
    ultimately have "pcq_holds ?q (xs @ [x])" unfolding pcq_holds_def by blast
    moreover have "write' x q = Inr (True, ?q)"
      using full False construct_window [OF w room, of x] next_index [OF w(1), of ?hi] r
      by (simp add: write'_def)
    ultimately show ?thesis using False by simp
  qed
qed

lemma pop_holds:
  assumes "pcq_holds q (x # xs)"
  defines "q' \<equiv> q\<lparr>records := (records q)[unat (readIndex q) := None],
    readIndex := next_record (qsize q) (readIndex q)\<rparr>"
  shows "readIndex q \<noteq> writeIndex q" and "move_out (readIndex q) q = Inr x"
    and "destroy (readIndex q) q = Inr (q\<lparr>records := (records q)[unat (readIndex q) := None]\<rparr>)"
    and "pcq_holds q' xs"
proof -
  obtain lo f where f: "\<forall>i<length (x # xs). f (lo + i) = (x # xs) ! i"
    and w: "2 \<le> qsize q" "window (unat (qsize q)) (records q) lo (lo + length (x # xs)) f"
    and r: "readIndex q = index_at (qsize q) lo" "writeIndex q = index_at (qsize q) (lo + length (x # xs))"
    and len: "length (x # xs) < unat (qsize q)"
    using assms(1) by (rule pcq_holdsE)
  have lt: "lo < lo + length (x # xs)" by simp
  have u: "unat (readIndex q) = lo mod unat (qsize q)"
    using r pos_of_two [OF w(1)] by (simp add: unat_index_at)
  have f0: "f lo = x" using f by (metis add_0_right length_greater_0_conv list.distinct(1) nth_Cons_0)
  show "readIndex q \<noteq> writeIndex q"
    using index_empty [OF w(1), of lo "lo + length (x # xs)"] len r by auto
  show "move_out (readIndex q) q = Inr x"
    "destroy (readIndex q) q = Inr (q\<lparr>records := (records q)[unat (readIndex q) := None]\<rparr>)"
    using destroy_window [OF w lt] r f0 u by auto
  have "ring_at q' (lo + 1) (lo + 1 + length xs) f"
    using window_pop [OF w(2) lt] w(1) r next_index [OF w(1)] u by (simp add: ring_at_def q'_def)
  moreover have "\<forall>i<length xs. f (lo + 1 + i) = xs ! i"
    using f by (metis Suc_less_eq add_Suc_shift length_Cons nth_Cons_Suc plus_1_eq_Suc add.commute add.assoc)
  ultimately show "pcq_holds q' xs" unfolding pcq_holds_def by blast
qed

lemma empty_holds: "pcq_holds q xs \<Longrightarrow> readIndex q = writeIndex q \<longleftrightarrow> xs = []"
proof (cases xs)
  case Nil
  then show "pcq_holds q xs \<Longrightarrow> ?thesis" by (auto elim!: pcq_holdsE)
next
  case (Cons y ys)
  then show "pcq_holds q xs \<Longrightarrow> ?thesis" using pop_holds(1) [of q y ys] by simp
qed

lemma full_holds:
  assumes "pcq_holds q xs"
  shows "isFull q \<longleftrightarrow> length xs + 1 = unat (qsize q)"
proof -
  obtain lo f where "\<forall>i<length xs. f (lo + i) = xs ! i"
    and w: "2 \<le> qsize q" "window (unat (qsize q)) (records q) lo (lo + length xs) f"
    and r: "readIndex q = index_at (qsize q) lo" "writeIndex q = index_at (qsize q) (lo + length xs)"
    and len: "length xs < unat (qsize q)"
    using assms by (rule pcq_holdsE)
  show ?thesis
    using index_full [OF w(1), of lo "lo + length xs"] len r by (auto simp: isFull_def)
qed


lemma drain_window:
  assumes "2 \<le> qsize q" and "window (unat (qsize q)) (records q) lo hi f" and "hi - lo \<le> fuel"
  shows "\<exists>q'. drain fuel (index_at (qsize q) lo) (index_at (qsize q) hi) q = Inr q' \<and>
    (\<forall>v \<in> set (records q'). v = None)"
  using assms
proof (induction fuel arbitrary: lo q)
  case 0
  then have "lo = hi" by (simp add: window_def)
  moreover from this have "\<forall>v \<in> set (records q). v = None"
    using 0 by (auto simp: window_def in_set_conv_nth)
  ultimately show ?case by simp
next
  case (Suc fuel)
  show ?case
  proof (cases "lo = hi")
    case True
    then have "\<forall>v \<in> set (records q). v = None"
      using Suc.prems by (auto simp: window_def in_set_conv_nth)
    then show ?thesis using True by simp
  next
    case False
    then have lt: "lo < hi" "hi < lo + unat (qsize q)" using Suc.prems(2) by (auto simp: window_def)
    let ?q = "q\<lparr>records := (records q)[lo mod unat (qsize q) := None]\<rparr>"
    have "index_at (qsize q) lo \<noteq> index_at (qsize q) hi"
      using index_empty [OF Suc.prems(1), of lo hi] lt by simp
    then have "drain (Suc fuel) (index_at (qsize q) lo) (index_at (qsize q) hi) q =
        drain fuel (index_at (qsize q) (lo + 1)) (index_at (qsize q) hi) ?q"
      using destroy_window(1) [OF Suc.prems(1,2) lt(1)] next_index [OF Suc.prems(1)] by simp
    then show ?thesis
      using Suc.IH [of ?q "lo + 1"] window_pop [OF Suc.prems(2) lt(1)] Suc.prems by simp
  qed
qed

lemma delete_holds:
  assumes "pcq_holds q xs"
  shows "\<exists>q'. pcq_delete False q = Inr q' \<and> (\<forall>v \<in> set (records q'). v = None)"
proof -
  obtain lo f where "\<forall>i<length xs. f (lo + i) = xs ! i"
    and w: "2 \<le> qsize q" "window (unat (qsize q)) (records q) lo (lo + length xs) f"
    and r: "readIndex q = index_at (qsize q) lo" "writeIndex q = index_at (qsize q) (lo + length xs)"
    and len: "length xs < unat (qsize q)"
    using assms by (rule pcq_holdsE)
  show ?thesis
    using drain_window [OF w, of "unat (qsize q)"] len r by (simp add: pcq_delete_def)
qed

lemma mod_add_cases:
  fixes a m n :: nat
  assumes "m < n"
  shows "(a + m) mod n = (if a mod n + m < n then a mod n + m else a mod n + m - n)"
proof -
  have "a mod n < n" using assms by (intro mod_less_divisor) simp
  then have lt: "a mod n + m - n < n" using assms by linarith
  have "(a mod n + m) mod n = a mod n + m - n" if "\<not> a mod n + m < n"
    using lt that by (metis le_mod_geq mod_less not_less)
  then have "(a mod n + m) mod n = (if a mod n + m < n then a mod n + m else a mod n + m - n)"
    by simp
  then show ?thesis by (simp add: mod_add_left_eq)
qed

lemma index_diff:
  assumes "m < unat sz"
  shows "index_at sz (lo + m) - index_at sz lo = of_nat m \<or>
    index_at sz (lo + m) - index_at sz lo = of_nat m - sz"
proof -
  have "(of_nat (a + m) - of_nat a :: u32) = of_nat m" for a by simp
  moreover have "(of_nat (a + m - unat sz) - of_nat a :: u32) = of_nat m - sz" if "\<not> a + m < unat sz" for a
    using that by (simp add: of_nat_diff)
  ultimately show ?thesis unfolding index_at_def mod_add_cases [OF assms] by (simp split: if_split)
qed

lemma sint_small: "m < 2 ^ 31 \<Longrightarrow> sint (of_nat m :: u32) = int m"
  by (simp add: signed_of_nat signed_take_bit_int_eq_self)

lemma sint_minus:
  fixes sz :: u32
  assumes "m < unat sz" and "unat sz \<le> 2 ^ 31"
  shows "sint (of_nat m - sz) < 0"
proof -
  have k: "sint (of_int k :: u32) = k" if "- (2 ^ 31) \<le> k" "k < 2 ^ 31" for k
    using that by (simp add: signed_of_int signed_take_bit_int_eq_self)
  have "of_nat m - sz = (of_int (int m - int (unat sz)) :: u32)" by simp
  moreover have "sint (of_int (int m - int (unat sz)) :: u32) = int m - int (unat sz)"
  proof (rule k)
    have "int (unat sz) \<le> 2 ^ 31" using assms(2) by (metis of_nat_le_iff of_nat_numeral of_nat_power)
    then show "- (2 ^ 31) \<le> int m - int (unat sz)" by linarith
    have "int m - int (unat sz) < 0" using assms(1) by linarith
    then show "int m - int (unat sz) < 2 ^ 31" by simp
  qed
  ultimately have "sint (of_nat m - sz) = int m - int (unat sz)" by (simp only:)
  then show ?thesis using assms(1) by linarith
qed

lemma sizeGuess_holds:
  assumes "pcq_holds q xs" and "unat (qsize q) \<le> 2 ^ 31"
  shows "sizeGuess q = of_nat (length xs)"
proof -
  obtain lo f where "\<forall>i<length xs. f (lo + i) = xs ! i"
    and w: "2 \<le> qsize q" "window (unat (qsize q)) (records q) lo (lo + length xs) f"
    and r: "readIndex q = index_at (qsize q) lo" "writeIndex q = index_at (qsize q) (lo + length xs)"
    and len: "length xs < unat (qsize q)"
    using assms(1) by (rule pcq_holdsE)
  let ?m = "of_nat (length xs) :: u32"
  have s: "sint ?m = int (length xs)" using len assms(2) by (intro sint_small) linarith
  have "(scast ?m :: 64 word) = of_int (sint ?m)" by (simp only: of_int_sint)
  then have c: "(scast ?m :: 64 word) = of_nat (length xs)" unfolding s by simp
  have "writeIndex q - readIndex q = ?m \<or> writeIndex q - readIndex q = ?m - qsize q"
    unfolding r by (rule index_diff [OF len])
  then show ?thesis
  proof
    assume "writeIndex q - readIndex q = ?m"
    then show ?thesis using s c by (simp add: sizeGuess_def)
  next
    assume "writeIndex q - readIndex q = ?m - qsize q"
    then show ?thesis using sint_minus [OF len assms(2)] c by (simp add: sizeGuess_def)
  qed
qed


text \<open>
  With more than \<open>2^31\<close> slots the unsigned difference of wrapped indices can be positive as a
  signed number, and the correction by \<open>size_\<close> is skipped: this ring holds one element.
\<close>

lemma sizeGuess_large_ring:
  "sizeGuess \<lparr>qsize = 3000000000, records = rs, readIndex = 2999999999, writeIndex = 0\<rparr> = 1294967297"
  by (simp add: sizeGuess_def)

section \<open>The properties\<close>

text \<open>
  C39: Run alone, the queue is a list of at most \<open>size - 1\<close> elements. A new queue is empty;
  \<open>write\<close> appends and returns true, or returns false exactly when the list is full; \<open>read\<close>
  returns and removes the head, or returns false on the empty list; \<open>popFront\<close> removes the head
  that \<open>frontPtr\<close> points at and fails its assertion on the empty list; \<open>isEmpty\<close>, \<open>isFull\<close> and,
  for a ring of at most \<open>2^31\<close> slots, \<open>sizeGuess\<close> are exact; the destructor ends and leaves no
  live object, or leaves objects alone that need no destruction. None of them touches a slot in the wrong state.
\<close>

theorem pcq_refines_fifo:
  assumes "pcq_holds q xs"
  shows "length xs < unat (qsize q) \<and>
    (if length xs + 1 = unat (qsize q) then write' x q = Inr (False, q)
     else \<exists>q'. write' x q = Inr (True, q') \<and> qsize q' = qsize q \<and> pcq_holds q' (xs @ [x])) \<and>
    (case xs of
       [] \<Rightarrow> read' q = Inr (None, q) \<and> frontPtr q = None \<and> popFront q = Inl AssertFailed
     | y # ys \<Rightarrow> \<exists>q' i. read' q = Inr (Some y, q') \<and> popFront q = Inr q' \<and> qsize q' = qsize q \<and>
         pcq_holds q' ys \<and> frontPtr q = Some i \<and> move_out i q = Inr y) \<and>
    isEmpty q = (xs = []) \<and> isFull q = (length xs + 1 = unat (qsize q)) \<and>
    (unat (qsize q) \<le> 2 ^ 31 \<longrightarrow> sizeGuess q = of_nat (length xs)) \<and>
    (\<exists>q'. pcq_delete False q = Inr q' \<and> (\<forall>v \<in> set (records q'). v = None)) \<and>
    pcq_delete True q = Inr q"
proof (intro conjI)
  show "length xs < unat (qsize q)" using assms by (rule pcq_holdsE)
  show "case xs of
       [] \<Rightarrow> read' q = Inr (None, q) \<and> frontPtr q = None \<and> popFront q = Inl AssertFailed
     | y # ys \<Rightarrow> \<exists>q' i. read' q = Inr (Some y, q') \<and> popFront q = Inr q' \<and> qsize q' = qsize q \<and>
         pcq_holds q' ys \<and> frontPtr q = Some i \<and> move_out i q = Inr y"
  proof (cases xs)
    case Nil
    then show ?thesis
      using empty_holds [OF assms] by (simp add: read'_def frontPtr_def popFront_def)
  next
    case (Cons y ys)
    then show ?thesis
      using pop_holds [of q y ys] assms by (simp add: read'_def frontPtr_def popFront_def Let_def)
  qed
  show "pcq_delete True q = Inr q" by (simp add: pcq_delete_def)
  show "isEmpty q = (xs = [])" using empty_holds [OF assms] by (simp add: isEmpty_def)
qed (rule write_holds [OF assms] full_holds [OF assms] impI sizeGuess_holds [OF assms]
    delete_holds [OF assms] | assumption)+

theorem pcq_refines_fifo_witness:
  "\<exists>q :: nat pcq. pcq_new True 2 = Inr q \<and> pcq_holds q [] \<and>
     (\<exists>q'. write' 7 q = Inr (True, q') \<and> pcq_holds q' [7])"
proof -
  obtain q :: "nat pcq" where q: "pcq_new True 2 = Inr q" "qsize q = 2"
    by (simp add: pcq_new_def)
  then show ?thesis
    using pcq_refines_fifo [OF pcq_new_holds [OF q(1)], of 7] pcq_new_holds [OF q(1)] by auto
qed

lemma steps_qsize:
  "producer_step x s p = Inr s' \<Longrightarrow> qsize (mem s') = qsize (mem s)"
  "consumer_step s c = Inr s' \<Longrightarrow> qsize (mem s') = qsize (mem s)"
  by (cases p; auto simp: construct_def slot_def split: if_splits option.splits)
    (cases c; auto simp: move_out_def destroy_def slot_def split: if_splits option.splits)

lemma reach_qsize: "pcq_reach sz r \<Longrightarrow> r = Inr s \<Longrightarrow> qsize (mem s) = sz"
proof (induction arbitrary: s rule: pcq_reach.induct)
  case (start q)
  then show ?case by (auto simp: pcq_start_def pcq_new_def split: if_splits)
next
  case (produce s0 x)
  then show ?case using steps_qsize(1) by metis
next
  case (consume s0)
  then show ?case using steps_qsize(2) by metis
qed

lemma pcq_inv_idle:
  assumes "pcq_inv s" and "producer s = PIdle" and "consumer s = CIdle"
  shows "pcq_holds (mem s) (pending s)"
proof -
  let ?lo = "length (consumed s)"
  have "ring_at (mem s) ?lo (length (written s)) ((!) (written s))" and le: "?lo \<le> length (written s)"
    using assms by (simp_all add: pcq_inv_def ring_at_def Let_def)
  then have "ring_at (mem s) ?lo (?lo + length (pending s)) ((!) (written s))"
    by (simp add: pending_def)
  then show ?thesis unfolding pcq_holds_def by (auto simp: pending_def)
qed


text \<open>
  C5: First in, first out under every interleaving of the producer's and the consumer's memory
  accesses. No access finds a slot in the wrong state: nothing is built over a live record, no
  dead or missing record is moved or destroyed. The records read so far are a prefix of those
  written, in order, and at most \<open>size - 1\<close> are under way; when both calls are over, the ring
  holds exactly these.
\<close>

theorem pcq_concurrent_fifo:
  assumes "pcq_reach sz r"
  shows "\<exists>s. r = Inr s \<and> written s = consumed s @ pending s \<and> length (pending s) < unat sz \<and>
    (producer s = PIdle \<and> consumer s = CIdle \<longrightarrow> pcq_holds (mem s) (pending s))"
proof -
  obtain s where r: "r = Inr s" and inv: "pcq_inv s" using pcq_inv_reach [OF assms] by blast
  have t: "take (length (consumed s)) (written s) = consumed s"
    and len: "length (written s) < length (consumed s) + unat (qsize (mem s))"
    and pos: "2 \<le> qsize (mem s)"
    using inv by (simp_all add: pcq_inv_def Let_def)
  have "written s = consumed s @ pending s"
    using t unfolding pending_def by (metis append_take_drop_id)
  moreover have "length (pending s) < unat sz"
    using len pos_of_two [OF pos] unfolding reach_qsize [OF assms r] pending_def length_drop
    by linarith
  ultimately show ?thesis using r pcq_inv_idle [OF inv] by blast
qed

text \<open>A write that has gone half way while the consumer looks at the queue.\<close>

lemma reach_example:
  "\<exists>s. pcq_reach 2 (Inr s) \<and> producer s = PBuilt 0 (7::nat) \<and> consumer s = CLoaded 0 \<and> written s = []"
proof -
  let ?q = "\<lparr>qsize = 2, records = [None, None], readIndex = 0, writeIndex = 0\<rparr> :: nat pcq"
  let ?s = "\<lambda>m p c. \<lparr>mem = m, producer = p, consumer = c, written = [], consumed = []\<rparr>"
  have two: "replicate 2 None = [None, None :: nat option]" by (simp add: numeral_2_eq_2)
  have "pcq_new True 2 = Inr ?q" by (simp add: pcq_new_def two)
  then have "pcq_reach 2 (Inr (?s ?q PIdle CIdle))"
    using pcq_reach.start [of 2 ?q] by (simp add: pcq_start_def)
  then have "pcq_reach 2 (Inr (?s ?q (PLoaded 0 7) CIdle))"
    using pcq_reach.produce [of 2 "?s ?q PIdle CIdle" 7] by simp
  then have "pcq_reach 2 (Inr (?s ?q (PFree 0 7) CIdle))"
    using pcq_reach.produce [of 2 "?s ?q (PLoaded 0 7) CIdle" 7] by (simp add: next_record_def)
  then have "pcq_reach 2 (Inr (?s ?q (PFree 0 7) (CLoaded 0)))"
    using pcq_reach.consume [of 2 "?s ?q (PFree 0 7) CIdle"] by simp
  then have "pcq_reach 2 (Inr (?s (?q\<lparr>records := [Some 7, None]\<rparr>) (PBuilt 0 7) (CLoaded 0)))"
    using pcq_reach.produce [of 2 "?s ?q (PFree 0 7) (CLoaded 0)" 7]
    by (simp add: construct_def slot_def)
  then show ?thesis by (intro exI conjI) (assumption, simp_all)
qed

theorem pcq_concurrent_fifo_witness:
  "\<exists>s. pcq_reach 2 (Inr s) \<and> producer s = PBuilt 0 (7::nat) \<and> consumed s = [] \<and> pending s = []"
proof -
  obtain s where s: "pcq_reach 2 (Inr s)" "producer s = PBuilt 0 (7::nat)" "written s = []"
    using reach_example by blast
  then show ?thesis using pcq_concurrent_fifo [OF s(1)] by auto
qed

end
