(* ===== verification/Spec2Isabelle.thy ===== *)
theory Spec2Isabelle
  imports Acc_Base64
    Acc_Unicode
    Acc_IOBuf_Correct
    Acc_Hash
    Acc_Range_Correct
    Acc_String_Correct
    Acc_String_Tokens
    Acc_String_Case
    Acc_Conv_Correct
    Acc_RWSpinLock
    Acc_RWHolder
    Acc_PCQueue
begin

text \<open>
  Verification of the accelerator C++ base library.

  \<^bold>\<open>The program.\<close> The library (\<open>src/accelerator\<close>) is a set of components that other code calls:
  strings and their views, encodings, hashes, reference-counted buffers, containers, locks and
  queues. The modelled components and how they build on each other:

  \<^item> \<open>Range\<close> (\<open>Range.h\<close>, \<open>Range.cpp\<close>): the non-owning view; its searches are used by the string
    utilities.
  \<^item> \<open>String\<close> (\<open>String.h\<close>, \<open>String-inl.h\<close>, \<open>String.cpp\<close>, \<open>EscapeTables.cpp\<close>): escaping, hexadecimal
    text, splitting, joining, trimming, case conversion, formatted output.
  \<^item> \<open>Conv\<close> (\<open>Conv.h\<close>, \<open>Conv.cpp\<close>): checked conversions between integers, text and booleans.
  \<^item> \<open>Base64\<close> and \<open>Unicode\<close>: encoders and decoders on byte strings.
  \<^item> \<open>SpookyHashV2\<close> and \<open>Hash\<close>: the incremental hash and the integer and string hashes.
  \<^item> \<open>IOBuf\<close> (\<open>io/IOBuf.h\<close>, \<open>io/IOBuf.cpp\<close>): rings of buffers that share reference-counted storage.
  \<^item> \<open>RWSpinLock\<close> (\<open>thread/RWSpinLock.h\<close>): a reader-writer lock with an upgradable mode in one 32-bit
    word, and the holder classes that acquire and release it.
  \<^item> \<open>ProducerConsumerQueue\<close> (\<open>thread/ProducerConsumerQueue.h\<close>): the ring buffer of one producer and
    one consumer.

  \<^bold>\<open>Conventions.\<close> Bytes and machine integers are words of their width, so that arithmetic wraps as
  in C++; sizes and indices are natural numbers, with the wrap-around or overflow written out
  where a property is about it (\<open>compare\<close>, \<open>replaceAt\<close>, \<open>goodExtBufferSize\<close>, \<open>copyBuffer\<close>, the \<open>int\<close> index
  of \<open>unhexlify\<close>). Elsewhere a size is that of memory that exists, or a total that would take
  \<open>2\<^sup>6\<^sup>4\<close> bytes to wrap (\<open>m_length\<close> of SpookyHashV2, \<open>allocatedCapacity\<close> of \<open>createChain\<close>). An exception, a failed
  assertion and undefined behaviour are values of a sum or option type, so a theorem that an
  operation returns \<open>Inr\<close> or \<open>Some\<close> says that none of them happens. A loop is a recursive
  function with a termination proof. The chain walks of IOBuf and \<open>createChain\<close> carry a bound, and
  there it is proved that the bound is reached exactly when the C++ loop does not end; the
  destructor of the queue carries one that is proved sufficient. Code outside the
  repository is an argument (\<open>malloc\<close>, whose success depends on the requested size, \<open>vsnprintf\<close>, the
  contents of uninitialised arrays).

  \<^bold>\<open>Theories.\<close>

  \<^item> \<open>Acc_Prelude\<close>: words, byte strings, checked accesses, sequencing of fallible code, bit lemmas,
    and the locale \<open>lossless_codec\<close>, the contract of an encoder and its decoder. It is
    interpreted for Base64, UTF-8, URI escaping and hexadecimal text.
  \<^item> \<open>Acc_Base64\<close>: \<open>base64Encode\<close>, \<open>base64Decode\<close> and their tables. Encoding is RFC 4648, stated
    without the tables of the code, decoding inverts it, and both stay inside the strings they resize.
  \<^item> \<open>Acc_Unicode\<close>: \<open>codePointToUtf8\<close>, \<open>utf8ToCodePoint\<close>. Round trip on the code points that the decoder
    accepts, acceptance of canonical forms only, and the rejection of every four-byte form.
  \<^item> \<open>Acc_Spooky\<close>, \<open>Acc_Hash\<close>: \<open>Hash128\<close>, \<open>Init\<close>, \<open>Update\<close>, \<open>Final\<close> and the hash functions of
    \<open>Hash.h\<close>. Incremental hashing equals one-shot hashing for every cut of the message, the
    mixers are inverted by their inverses, FNV-1a is the published one, and FNV-1 up to the
    sign extension of bytes from \<open>0x80\<close> on.
  \<^item> \<open>Acc_Range\<close>, \<open>Acc_Range_Correct\<close>: the iterator pair over an array, every member, and the searches. The
    locale \<open>elem_equiv\<close> states what \<open>qfind\<close> needs of its comparison and is interpreted for
    equality and for the two ASCII comparisons. Members implement list operations, comparison is
    lexicographic, \<open>qfind\<close> finds the first occurrence, the sparse byte set works on
    uninitialised memory; \<open>rfind\<close>, \<open>replaceAll\<close> and \<open>replaceAt\<close> deviate from their documentation
    in the cases that are proved.
  \<^item> \<open>Acc_String\<close>, \<open>Acc_String_Correct\<close>, \<open>Acc_String_Tokens\<close>, \<open>Acc_String_Case\<close>: the string utilities; round
    trips of the escapes, splitting against joining, agreement of the two kinds of \<open>split\<close>
    for delimiters that are not empty,
    trimming, and the packed case conversion at every alignment.
  \<^item> \<open>Acc_Conv\<close>, \<open>Acc_Conv_Correct\<close>: the integral conversions. \<open>digits10\<close> is exact, printing appends the
    decimal numeral, parsing accepts exactly the numbers that the type can represent and
    inverts printing, the words for booleans are accepted in any case. The conversion between
    integral types throws exactly when the value does not fit, except that negative values pass into wide
    unsigned types. Proved for widths of 8, 16, 32 and 64 bits; the form of \<open>digits10\<close> for other
    processors than x86-64 is left out.
  \<^item> \<open>Acc_IOBuf_Heap\<close> (memory, allocation), \<open>Acc_IOBuf\<close> (the operations in source order),
    \<open>Acc_IOBuf_Ring\<close> (rings as lists), \<open>Acc_IOBuf_Inv\<close> (reference counts and ownership),
    \<open>Acc_IOBuf_Spec\<close> and \<open>Acc_IOBuf_Props\<close> (effect of the operations), \<open>Acc_IOBuf_Correct\<close> (properties
    and small heaps that instantiate them). The state of the model is the heap: maps from
    addresses to IOBuf objects, \<open>SharedInfo\<close> records, storages and byte blocks.
  \<^item> \<open>Acc_RWSpinLock\<close>: each atomic operation on the bits, and the step relation of any number of
    threads in which one atomic operation is one step. The invariant reads the bits as a count of
    readers and two flags; from it follow mutual exclusion and that the lock can always be given
    back, stray \<open>UPGRADED\<close> bits included. Fewer than \<open>2^29\<close> threads are assumed, since the reader
    count has 29 bits.
  \<^item> \<open>Acc_RWHolder\<close>: the holder classes as the lock calls they make. The locale \<open>holder_class\<close> states
    what a class promises and is interpreted for the three; programs of holder statements
    never give back a mode that is not held.
  \<^item> \<open>Acc_PCQueue\<close>: the queue's operations, and the interleavings of \<open>write\<close> and \<open>read\<close> with one step
    for each access to shared memory. Positions that count from the start of the queue relate the
    32-bit indices to a list. The destructor's loop has fuel for one round of the ring, which is
    proved to be enough.

  \<^bold>\<open>Not modelled.\<close> Interleavings of threads are modelled only where the list above says so; elsewhere
  an operation runs alone, and memory orderings are not modelled at all. The rest of the library is
  left out for these reasons: system calls and third-party adapters (files, mappings, epoll, OpenSSL,
  compression codecs), vendored code (\<open>double-conversion\<close>, and with it floating-point conversion and
  the numbers of \<open>json\<close>), expression templates that only compose callbacks (\<open>gen\<close>), memory layout
  tricks (\<open>FBString\<close>), lock-free structures whose correctness is a matter of weak memory
  (\<open>SharedMutex\<close>, \<open>MPMCQueue\<close>, \<open>ConcurrentSkipList\<close>), and logging, clocks and test support. In the
  modelled components: the \<open>boost\<close> iterators and \<open>TypedIOBuf\<close> of IOBuf, the conversions between
  character types of \<open>Range\<close>, \<open>errnoStr\<close> and \<open>exceptionStr\<close>, the floating-point,
  128-bit and variadic conversions of \<open>Conv\<close>, and the hashing of floating-point values.
\<close>

end
